(* ===== verification/Prelude.thy ===== *)
theory Prelude
  imports Main
begin

text \<open>
  Shared vocabulary of the development.

  \<^item> Rust's unsigned machine integers are natural numbers with the width written out: every
    operation that can leave the range takes the maximum of its type and either reports
    \<open>None\<close> (the \<open>checked_\<close> family) or clips (the \<open>saturating_\<close> family).
  \<^item> \<open>Result<A, E>\<close> is \<open>'e + 'a\<close> with the error on the left; \<open>?\<close> is \<^verbatim>\<open>and_then\<close>.
  \<^item> Code that mutates state through \<open>&mut\<close> and returns a \<open>Result\<close> is a function
    \<open>'s \<Rightarrow> ('e + 'a) \<times> 's\<close>: the state is returned on the error path as well, because only
    the dispatcher of an extrinsic rolls it back.
\<close>

section \<open>Collections of facts\<close>

named_theorems exec_simps \<open>equations that evaluate the model on concrete inputs\<close>
named_theorems bal_simps \<open>what the checked and saturating operations return\<close>
named_theorems run_simps \<open>when a state transformer returns normally\<close>

section \<open>Unsigned machine arithmetic\<close>

type_synonym balance = nat

definition u128_max :: nat where
  "u128_max = 340282366920938463463374607431768211455"

definition u64_max :: nat where
  "u64_max = 18446744073709551615"

definition u32_max :: nat where
  "u32_max = 4294967295"

definition i128_max :: nat where
  "i128_max = 170141183460469231731687303715884105727"

definition checked_add_u :: "nat \<Rightarrow> nat \<Rightarrow> nat \<Rightarrow> nat option" where
  "checked_add_u m a b = (if a + b \<le> m then Some (a + b) else None)"

definition checked_sub_u :: "nat \<Rightarrow> nat \<Rightarrow> nat option" where
  "checked_sub_u a b = (if b \<le> a then Some (a - b) else None)"

definition checked_mul_u :: "nat \<Rightarrow> nat \<Rightarrow> nat \<Rightarrow> nat option" where
  "checked_mul_u m a b = (if a * b \<le> m then Some (a * b) else None)"

definition checked_div_u :: "nat \<Rightarrow> nat \<Rightarrow> nat option" where
  "checked_div_u a b = (if b = 0 then None else Some (a div b))"

definition saturating_add_u :: "nat \<Rightarrow> nat \<Rightarrow> nat \<Rightarrow> nat" where
  "saturating_add_u m a b = min m (a + b)"

definition saturating_sub_u :: "nat \<Rightarrow> nat \<Rightarrow> nat" where
  "saturating_sub_u a b = a - b"

definition saturating_mul_u :: "nat \<Rightarrow> nat \<Rightarrow> nat \<Rightarrow> nat" where
  "saturating_mul_u m a b = min m (a * b)"

definition div_ceil_u :: "nat \<Rightarrow> nat \<Rightarrow> nat" where
  "div_ceil_u a b = (if a mod b = 0 then a div b else a div b + 1)"

section \<open>Results\<close>

definition and_then :: "'e + 'a \<Rightarrow> ('a \<Rightarrow> 'e + 'b) \<Rightarrow> 'e + 'b" where
  "and_then r f = (case r of Inl e \<Rightarrow> Inl e | Inr a \<Rightarrow> f a)"

definition ok_or :: "'a option \<Rightarrow> 'e \<Rightarrow> 'e + 'a" where
  "ok_or x e = (case x of None \<Rightarrow> Inl e | Some a \<Rightarrow> Inr a)"

definition ensure :: "bool \<Rightarrow> 'e \<Rightarrow> 'e + unit" where
  "ensure b e = (if b then Inr () else Inl e)"

definition map_err :: "('e \<Rightarrow> 'f) \<Rightarrow> 'e + 'a \<Rightarrow> 'f + 'a" where
  "map_err f r = (case r of Inl e \<Rightarrow> Inl (f e) | Inr a \<Rightarrow> Inr a)"

definition ok :: "'e + 'a \<Rightarrow> 'a option" where
  "ok r = (case r of Inl _ \<Rightarrow> None | Inr a \<Rightarrow> Some a)"

definition unwrap_or :: "'a option \<Rightarrow> 'a \<Rightarrow> 'a" where
  "unwrap_or x d = (case x of None \<Rightarrow> d | Some a \<Rightarrow> a)"

section \<open>State transformers that may fail\<close>

type_synonym ('s, 'e, 'a) run = "'s \<Rightarrow> ('e + 'a) \<times> 's"

definition sbind :: "('s, 'e, 'a) run \<Rightarrow> ('a \<Rightarrow> ('s, 'e, 'b) run) \<Rightarrow> ('s, 'e, 'b) run" where
  "sbind f g s = (case f s of (Inl e, s') \<Rightarrow> (Inl e, s') | (Inr a, s') \<Rightarrow> g a s')"

definition sret :: "'a \<Rightarrow> ('s, 'e, 'a) run" where
  "sret a s = (Inr a, s)"

definition slift :: "'e + 'a \<Rightarrow> ('s, 'e, 'a) run" where
  "slift r s = (r, s)"

definition sread :: "('s \<Rightarrow> 'a \<times> 's) \<Rightarrow> ('s, 'e, 'a) run" where
  "sread f s = (case f s of (a, s') \<Rightarrow> (Inr a, s'))"

definition smodify :: "('s \<Rightarrow> 's) \<Rightarrow> ('s, 'e, unit) run" where
  "smodify f s = (Inr (), f s)"

definition smap_err :: "('e \<Rightarrow> 'f) \<Rightarrow> ('s, 'e, 'a) run \<Rightarrow> ('s, 'f, 'a) run" where
  "smap_err h f s = (case f s of (r, s') \<Rightarrow> (map_err h r, s'))"

fun sfor :: "('x \<Rightarrow> ('s, 'e, unit) run) \<Rightarrow> 'x list \<Rightarrow> ('s, 'e, unit) run" where
  "sfor f [] = sret ()"
| "sfor f (x # xs) = sbind (f x) (\<lambda>_. sfor f xs)"

text \<open>A transformer of one half of a pair of states leaves the other half alone.\<close>

definition on_fst :: "('d, 'e, 'a) run \<Rightarrow> ('d \<times> 'w, 'e, 'a) run" where
  "on_fst f = (\<lambda>(d, w). case f d of (r, d') \<Rightarrow> (r, (d', w)))"

definition on_snd :: "('w, 'e, 'a) run \<Rightarrow> ('d \<times> 'w, 'e, 'a) run" where
  "on_snd f = (\<lambda>(d, w). case f w of (r, w') \<Rightarrow> (r, (d, w')))"

text \<open>
  FRAME runs every extrinsic in a storage layer: the changes of a call that returns an error
  are thrown away.
\<close>

definition transactional :: "('s, 'e, 'a) run \<Rightarrow> ('s, 'e, 'a) run" where
  "transactional f s = (case f s of (Inl e, _) \<Rightarrow> (Inl e, s) | (Inr a, s') \<Rightarrow> (Inr a, s'))"

section \<open>Lemmas\<close>

lemma u128_max_eq: "u128_max = 2 ^ 128 - 1"
  by (simp add: u128_max_def)

lemma u64_max_eq: "u64_max = 2 ^ 64 - 1"
  by (simp add: u64_max_def)

lemma u32_max_eq: "u32_max = 2 ^ 32 - 1"
  by (simp add: u32_max_def)

lemma i128_max_eq: "i128_max = 2 ^ 127 - 1"
  by (simp add: i128_max_def)

lemma i128_le_u128: "i128_max \<le> u128_max"
  by (simp add: i128_max_def u128_max_def)

lemmas width_defs = u128_max_def u64_max_def u32_max_def i128_max_def

lemma checked_add_u_Some [bal_simps]:
  "checked_add_u m a b = Some c \<longleftrightarrow> c = a + b \<and> a + b \<le> m"
  by (auto simp: checked_add_u_def)

lemma checked_sub_u_Some [bal_simps]:
  "checked_sub_u a b = Some c \<longleftrightarrow> b \<le> a \<and> c = a - b"
  by (auto simp: checked_sub_u_def)

lemma checked_mul_u_Some [bal_simps]:
  "checked_mul_u m a b = Some c \<longleftrightarrow> c = a * b \<and> a * b \<le> m"
  by (auto simp: checked_mul_u_def)

lemma checked_div_u_Some [bal_simps]:
  "checked_div_u a b = Some c \<longleftrightarrow> b \<noteq> 0 \<and> c = a div b"
  by (auto simp: checked_div_u_def)

lemma checked_add_u_None [bal_simps]: "checked_add_u m a b = None \<longleftrightarrow> m < a + b"
  by (auto simp: checked_add_u_def)

lemma checked_sub_u_None [bal_simps]: "checked_sub_u a b = None \<longleftrightarrow> a < b"
  by (auto simp: checked_sub_u_def)

lemma checked_mul_u_None [bal_simps]: "checked_mul_u m a b = None \<longleftrightarrow> m < a * b"
  by (auto simp: checked_mul_u_def)

lemma and_then_simps [simp]:
  "and_then (Inl e) f = Inl e"
  "and_then (Inr a) f = f a"
  by (simp_all add: and_then_def)

lemma and_then_Inr [run_simps]:
  "and_then r f = Inr b \<longleftrightarrow> (\<exists>a. r = Inr a \<and> f a = Inr b)"
  by (cases r) auto

lemma and_then_Inl: "and_then r f = Inl e \<longleftrightarrow> r = Inl e \<or> (\<exists>a. r = Inr a \<and> f a = Inl e)"
  by (cases r) auto

lemma ok_or_simps [simp]:
  "ok_or None e = Inl e"
  "ok_or (Some a) e = Inr a"
  by (simp_all add: ok_or_def)

lemma ok_or_Inr [run_simps]: "ok_or x e = Inr a \<longleftrightarrow> x = Some a"
  by (cases x) auto

lemma ensure_simps [simp]:
  "ensure True e = Inr ()"
  "ensure False e = Inl e"
  by (simp_all add: ensure_def)

lemma ensure_Inr [run_simps]: "ensure b e = Inr u \<longleftrightarrow> b"
  by (simp add: ensure_def)

lemma map_err_simps [simp]:
  "map_err f (Inl e) = Inl (f e)"
  "map_err f (Inr a) = Inr a"
  by (simp_all add: map_err_def)

lemma map_err_Inr [run_simps]: "map_err f r = Inr a \<longleftrightarrow> r = Inr a"
  by (cases r) auto

lemma ok_simps [simp]:
  "ok (Inl e) = None"
  "ok (Inr a) = Some a"
  by (simp_all add: ok_def)

lemma ok_Some [run_simps]: "ok r = Some a \<longleftrightarrow> r = Inr a"
  by (cases r) auto

lemma unwrap_or_simps [simp]:
  "unwrap_or None d = d"
  "unwrap_or (Some a) d = a"
  by (simp_all add: unwrap_or_def)

lemma sbind_Inr [run_simps]:
  "sbind f g s = (Inr b, t) \<longleftrightarrow> (\<exists>a s'. f s = (Inr a, s') \<and> g a s' = (Inr b, t))"
  by (auto simp: sbind_def split: prod.splits sum.splits)

lemma sbind_Inl:
  "sbind f g s = (Inl e, t) \<longleftrightarrow>
     f s = (Inl e, t) \<or> (\<exists>a s'. f s = (Inr a, s') \<and> g a s' = (Inl e, t))"
  by (auto simp: sbind_def split: prod.splits sum.splits)

lemma sret_Inr [run_simps]: "sret a s = (Inr b, t) \<longleftrightarrow> b = a \<and> t = s"
  by (auto simp: sret_def)

lemma slift_Inr [run_simps]: "slift r s = (Inr b, t) \<longleftrightarrow> r = Inr b \<and> t = s"
  by (auto simp: slift_def)

lemma sread_Inr [run_simps]: "sread f s = (Inr b, t) \<longleftrightarrow> f s = (b, t)"
  by (auto simp: sread_def split: prod.splits)

lemma smodify_Inr [run_simps]: "smodify f s = (Inr b, t) \<longleftrightarrow> t = f s"
  by (auto simp: smodify_def)

lemma smap_err_Inr [run_simps]: "smap_err h f s = (Inr b, t) \<longleftrightarrow> f s = (Inr b, t)"
  by (auto simp: smap_err_def run_simps split: prod.splits)

lemma on_fst_Inr [run_simps]:
  "on_fst f (d, w) = (Inr b, t) \<longleftrightarrow> (\<exists>d'. f d = (Inr b, d') \<and> t = (d', w))"
  by (auto simp: on_fst_def split: prod.splits)

lemma on_snd_Inr [run_simps]:
  "on_snd f (d, w) = (Inr b, t) \<longleftrightarrow> (\<exists>w'. f w = (Inr b, w') \<and> t = (d, w'))"
  by (auto simp: on_snd_def split: prod.splits)

lemma transactional_Inr [run_simps]:
  "transactional f s = (Inr b, t) \<longleftrightarrow> f s = (Inr b, t)"
  by (auto simp: transactional_def split: prod.splits sum.splits)

lemma transactional_Inl: "transactional f s = (Inl e, t) \<Longrightarrow> t = s"
  by (auto simp: transactional_def split: prod.splits sum.splits)

lemma on_fst_snd: "snd (snd (on_fst f (d, w))) = w"
  by (auto simp: on_fst_def split: prod.splits)

lemma sfor_append: "sfor f (xs @ ys) = sbind (sfor f xs) (\<lambda>_. sfor f ys)"
  by (induction xs) (auto simp: sbind_def sret_def fun_eq_iff split: prod.splits sum.splits)

text \<open>Evaluation of the combinators on concrete states.\<close>

lemmas run_exec [exec_simps] =
  sbind_def sret_def slift_def sread_def smodify_def smap_err_def on_fst_def on_snd_def
  checked_add_u_def checked_sub_u_def checked_mul_u_def checked_div_u_def
  saturating_add_u_def saturating_sub_u_def saturating_mul_u_def div_ceil_u_def
  transactional_def width_defs Let_def

text \<open>Sums over lists.\<close>

lemma sum_list_filter_split:
  "sum_list (map f xs) = sum_list (map f (filter P xs)) + sum_list (map f (filter (\<lambda>x. \<not> P x) xs))"
  for f :: "'a \<Rightarrow> nat"
  by (induction xs) auto

lemma sum_list_remove1_distinct:
  "distinct xs \<Longrightarrow> x \<in> set xs \<Longrightarrow>
   sum_list (map f xs) = f x + sum_list (map f (filter (\<lambda>y. y \<noteq> x) xs))"
  for f :: "'a \<Rightarrow> nat"
proof (induction xs)
  case (Cons y ys)
  show ?case
  proof (cases "x = y")
    case True
    with Cons.prems have "filter (\<lambda>z. z \<noteq> x) ys = ys"
      by (auto simp: filter_id_conv)
    with True show ?thesis by simp
  qed (use Cons in auto)
qed simp

lemma sum_list_map_cong_nat:
  "(\<And>x. x \<in> set xs \<Longrightarrow> f x = g x) \<Longrightarrow> sum_list (map f xs) = sum_list (map g xs)"
  for f g :: "'a \<Rightarrow> nat"
  by (induction xs) auto

lemma div_superadd: "(a div c) + (b div c) \<le> (a + b) div (c :: nat)"
  by (subst div_add1_eq) simp

end
