(* ===== verification/BTree_Map.thy ===== *)
theory BTree_Map
  imports Prelude
begin

text \<open>
  Rust's \<open>BTreeMap\<close>, which the order book uses for its market sides, payments, market changes
  and caches, as a list of entries in ascending key order. The key type only needs \<open>Ord\<close>:
  two keys are the same key when neither is below the other, and replacing the value of a
  present key keeps the key that was stored first. \<open>BoundedBTreeMap\<close> adds the length check of
  \<open>try_insert\<close>. The locale \<open>btree_key\<close> states what the maps need of a key type: an order
  embedding into a linear order.
\<close>

type_synonym ('k, 'v) btree = "('k \<times> 'v) list"

definition same_key :: "'k::ord \<Rightarrow> 'k \<Rightarrow> bool" where
  "same_key a b \<longleftrightarrow> \<not> a < b \<and> \<not> b < a"

fun bt_get :: "'k::ord \<Rightarrow> ('k, 'v) btree \<Rightarrow> 'v option" where
  "bt_get k [] = None"
| "bt_get k ((k', v) # m) = (if same_key k k' then Some v else bt_get k m)"

definition bt_contains_key :: "'k::ord \<Rightarrow> ('k, 'v) btree \<Rightarrow> bool" where
  "bt_contains_key k m \<longleftrightarrow> bt_get k m \<noteq> None"

fun bt_insert :: "'k::ord \<Rightarrow> 'v \<Rightarrow> ('k, 'v) btree \<Rightarrow> ('k, 'v) btree" where
  "bt_insert k v [] = [(k, v)]"
| "bt_insert k v ((k', v') # m) =
     (if k < k' then (k, v) # (k', v') # m
      else if k' < k then (k', v') # bt_insert k v m
      else (k', v) # m)"

fun bt_remove :: "'k::ord \<Rightarrow> ('k, 'v) btree \<Rightarrow> ('k, 'v) btree" where
  "bt_remove k [] = []"
| "bt_remove k ((k', v) # m) = (if same_key k k' then m else (k', v) # bt_remove k m)"

text \<open>\<open>entry(k).and_modify(f).or_insert(v)\<close>\<close>

definition bt_upsert :: "'k::ord \<Rightarrow> ('v \<Rightarrow> 'v) \<Rightarrow> 'v \<Rightarrow> ('k, 'v) btree \<Rightarrow> ('k, 'v) btree" where
  "bt_upsert k f v m = bt_insert k (case bt_get k m of None \<Rightarrow> v | Some x \<Rightarrow> f x) m"

text \<open>\<open>append\<close> moves every entry of the other map in, in its order.\<close>

fun bt_append :: "('k::ord, 'v) btree \<Rightarrow> ('k, 'v) btree \<Rightarrow> ('k, 'v) btree" where
  "bt_append m [] = m"
| "bt_append m ((k, v) # m') = bt_append (bt_insert k v m) m'"

definition bt_try_insert :: "nat \<Rightarrow> 'k::ord \<Rightarrow> 'v \<Rightarrow> ('k, 'v) btree \<Rightarrow> unit + ('k, 'v) btree" where
  "bt_try_insert bound k v m =
     (if length m < bound \<or> bt_contains_key k m then Inr (bt_insert k v m) else Inl ())"

text \<open>\<open>from_iter\<close> of entries in any order; a later entry of a key wins.\<close>

definition bt_from_list :: "('k::ord \<times> 'v) list \<Rightarrow> ('k, 'v) btree" where
  "bt_from_list xs = bt_append [] xs"

section \<open>Key types\<close>

locale btree_key =
  fixes key :: "'k::ord \<Rightarrow> 'n::linorder"
  assumes less_key: "k < k' \<longleftrightarrow> key k < key k'"
begin

lemma same_key_iff: "same_key a b \<longleftrightarrow> key a = key b"
  by (auto simp: same_key_def less_key)

lemma bt_get_map_of: "bt_get k m = map_of (map (\<lambda>(k, v). (key k, v)) m) (key k)"
  by (induction m) (auto simp: same_key_iff)

lemma bt_get_insert:
  "bt_get k (bt_insert k' v m) = (if key k = key k' then Some v else bt_get k m)"
  by (induction m) (auto simp: same_key_iff less_key)

lemma keys_bt_insert:
  "key ` fst ` set (bt_insert k v m) = insert (key k) (key ` fst ` set m)"
proof (induction m)
  case (Cons kv m)
  then show ?case
    by (cases kv; cases "key k" "key (fst kv)" rule: linorder_cases)
      (simp_all add: less_key insert_commute)
qed simp

lemma bt_insert_sorted:
  "sorted_wrt (<) (map (key \<circ> fst) m) \<Longrightarrow> sorted_wrt (<) (map (key \<circ> fst) (bt_insert k v m))"
proof (induction m)
  case (Cons kv m)
  obtain k' v' where kv: "kv = (k', v')" by (cases kv)
  have "\<forall>x \<in> set (bt_insert k v m). key k' < key (fst x)" if "k' < k"
  proof -
    have "key ` fst ` set (bt_insert k v m) = insert (key k) (key ` fst ` set m)"
      by (rule keys_bt_insert)
    moreover have "\<forall>x \<in> key ` fst ` set m. key k' < x"
      using Cons.prems kv by auto
    ultimately have "\<forall>x \<in> key ` fst ` set (bt_insert k v m). key k' < x"
      using that by (simp add: less_key)
    then show ?thesis by blast
  qed
  with Cons kv show ?case
    by (auto simp: less_key not_less dest: order_antisym)
qed simp

lemma bt_remove_subset: "set (bt_remove k m) \<subseteq> set m"
  by (induction m) (auto split: if_splits)

lemma bt_remove_sorted:
  "sorted_wrt (<) (map (key \<circ> fst) m) \<Longrightarrow> sorted_wrt (<) (map (key \<circ> fst) (bt_remove k m))"
proof (induction m)
  case (Cons kv m)
  then show ?case
    using bt_remove_subset [of k m] by (cases kv) auto
qed simp

lemma bt_get_None: "bt_get k m = None \<longleftrightarrow> key k \<notin> key ` fst ` set m"
  by (induction m) (auto simp: same_key_iff split: if_splits)

lemma bt_get_remove:
  "sorted_wrt (<) (map (key \<circ> fst) m) \<Longrightarrow>
   bt_get k (bt_remove k' m) = (if key k = key k' then None else bt_get k m)"
proof (induction m)
  case (Cons kv m)
  obtain k1 v where kv: "kv = (k1, v)" by (cases kv)
  show ?case
  proof (cases "key k' = key k1")
    case True
    with Cons.prems kv have "key k' \<notin> key ` fst ` set m" by force
    then have "bt_get k' m = None" by (simp add: bt_get_None)
    then have "key k = key k' \<Longrightarrow> bt_get k m = None" by (simp add: bt_get_map_of)
    with True kv show ?thesis by (auto simp: same_key_iff)
  next
    case False
    with Cons kv show ?thesis by (auto simp: same_key_iff)
  qed
qed simp

lemma bt_get_upsert:
  "bt_get k (bt_upsert k' f v m) =
     (if key k = key k' then Some (case bt_get k' m of None \<Rightarrow> v | Some x \<Rightarrow> f x) else bt_get k m)"
  by (simp add: bt_upsert_def bt_get_insert)

lemma bt_upsert_sorted:
  "sorted_wrt (<) (map (key \<circ> fst) m) \<Longrightarrow> sorted_wrt (<) (map (key \<circ> fst) (bt_upsert k f v m))"
  by (simp add: bt_upsert_def bt_insert_sorted)

lemma bt_append_sorted:
  "sorted_wrt (<) (map (key \<circ> fst) m) \<Longrightarrow> sorted_wrt (<) (map (key \<circ> fst) (bt_append m m'))"
  by (induction m m' rule: bt_append.induct) (auto simp: bt_insert_sorted)

lemma bt_get_append:
  "sorted_wrt (<) (map (key \<circ> fst) m') \<Longrightarrow>
   bt_get k (bt_append m m') = (case bt_get k m' of None \<Rightarrow> bt_get k m | Some v \<Rightarrow> Some v)"
proof (induction m m' rule: bt_append.induct)
  case (2 m k' v m')
  have "bt_get k m' = None" if "key k = key k'"
    using "2.prems" that by (force simp: bt_get_None)
  with 2 show ?case
    by (auto simp: bt_get_insert same_key_iff split: option.splits)
qed simp

lemma bt_get_Some_in:
  "bt_get k m = Some v \<Longrightarrow> \<exists>k'. key k' = key k \<and> (k', v) \<in> set m"
  by (induction m) (auto simp: same_key_iff split: if_splits)

lemma bt_in_get:
  "sorted_wrt (<) (map (key \<circ> fst) m) \<Longrightarrow> (k, v) \<in> set m \<Longrightarrow> bt_get k m = Some v"
  by (induction m) (force simp: same_key_iff)+

lemma bt_contains_key_iff: "bt_contains_key k m \<longleftrightarrow> key k \<in> key ` fst ` set m"
  by (simp add: bt_contains_key_def bt_get_None)

lemma bt_try_insert_Inr:
  "bt_try_insert n k v m = Inr m' \<longleftrightarrow>
   m' = bt_insert k v m \<and> (length m < n \<or> key k \<in> key ` fst ` set m)"
  by (auto simp: bt_try_insert_def bt_contains_key_iff)

lemma bt_insert_length:
  "length (bt_insert k v m) \<le> Suc (length m)"
  by (induction m) auto

lemma bt_insert_length_key:
  "sorted_wrt (<) (map (key \<circ> fst) m) \<Longrightarrow> key k \<in> key ` fst ` set m \<Longrightarrow>
   length (bt_insert k v m) = length m"
proof (induction m)
  case (Cons x m)
  obtain k' v' where x: "x = (k', v')" by (cases x)
  show ?case
  proof (cases "k < k'")
    case True
    then have "\<forall>y \<in> set (x # m). key k < key (fst y)"
      using Cons.prems(1) by (auto simp: x less_key)
    with Cons.prems(2) show ?thesis by (metis imageE less_irrefl)
  next
    case False
    with Cons show ?thesis by (auto simp: x less_key)
  qed
qed simp

lemma bt_insert_last:
  "\<forall>x \<in> set m. key (fst x) < key k \<Longrightarrow> bt_insert k v m = m @ [(k, v)]"
  by (induction m) (auto simp: less_key)

lemma bt_append_sorted_lists:
  "sorted_wrt (<) (map (key \<circ> fst) (m @ m')) \<Longrightarrow> bt_append m m' = m @ m'"
proof (induction m m' rule: bt_append.induct)
  case (2 m k v m')
  then have "bt_insert k v m = m @ [(k, v)]"
    by (intro bt_insert_last) (auto simp: sorted_wrt_append)
  with 2 show ?case by simp
qed simp

lemma bt_from_sorted_list:
  "sorted_wrt (<) (map (key \<circ> fst) xs) \<Longrightarrow> bt_from_list xs = xs"
  by (simp add: bt_from_list_def bt_append_sorted_lists)

text \<open>A value changes the sum over a map by what it adds to the entry of its key.\<close>

lemma sum_bt_upsert:
  assumes "sorted_wrt (<) (map (key \<circ> fst) m)"
  shows "(\<Sum>(_, x)\<leftarrow>bt_upsert k f v m. g x) + (case bt_get k m of None \<Rightarrow> 0 | Some x \<Rightarrow> g x) =
         (\<Sum>(_, x)\<leftarrow>m. g x) + (g (case bt_get k m of None \<Rightarrow> v | Some x \<Rightarrow> f x) :: nat)"
proof -
  have ins: "(\<Sum>(_, x)\<leftarrow>bt_insert k w m. g x) + (case bt_get k m of None \<Rightarrow> 0 | Some x \<Rightarrow> g x) =
        (\<Sum>(_, x)\<leftarrow>m. g x) + g w" for w
    using assms
  proof (induction m)
    case (Cons kv m)
    obtain k1 x where kv: "kv = (k1, x)" by (cases kv)
    have "bt_get k m = None" if "key k < key k1"
      using Cons.prems kv that by (force simp: bt_get_None)
    with Cons kv show ?case
      by (auto simp: less_key same_key_iff not_less)
  qed simp
  show ?thesis by (simp add: bt_upsert_def ins)
qed

end

text \<open>Every linearly ordered type is its own key.\<close>

interpretation lin_key: btree_key "\<lambda>k::'k::linorder. k"
  by unfold_locales simp

lemma lin_sorted_map_of:
  "sorted_wrt (<) (map fst m) \<Longrightarrow> bt_get (k::'k::linorder) m = map_of m k"
  by (simp add: lin_key.bt_get_map_of)

lemmas bt_exec [exec_simps] =
  same_key_def bt_upsert_def bt_contains_key_def bt_try_insert_def bt_from_list_def

end
