(* ===== verification/Fixed_Arith.thy ===== *)
theory Fixed_Arith
  imports Prelude "HOL-Library.Signed_Division"
begin

text \<open>
  The fixed-point numbers of \<open>vendor/fixnum/src/lib.rs\<close> at the layout the chain uses
  (\<open>i128\<close> bits, 18 decimal digits, products in 256 bits) and the error-propagating
  \<open>FixedWrapper\<close> of \<open>common/src/fixed_wrapper.rs\<close>. A number is its bits, an integer in
  the \<open>i128\<close> range; the 256-bit intermediate values cannot overflow (\<open>product_fits_i256\<close>),
  so they are unbounded here.
\<close>

datatype arithmetic_error = Overflow | DivisionByZero

datatype round_mode = Ceil | Floor

type_synonym fixed = int
type_synonym fixed_wrapper = "arithmetic_error + fixed"

definition coef :: int where
  "coef = 1000000000000000000"

definition round_sign :: "round_mode \<Rightarrow> int" where
  "round_sign mode = (case mode of Ceil \<Rightarrow> 1 | Floor \<Rightarrow> - 1)"

definition in_i128 :: "int \<Rightarrow> bool" where
  "in_i128 x \<longleftrightarrow> - int i128_max - 1 \<le> x \<and> x \<le> int i128_max"

definition try_i128 :: "int \<Rightarrow> arithmetic_error + int" where
  "try_i128 x = (if in_i128 x then Inr x else Inl Overflow)"

section \<open>FixedPoint\<close>

definition cadd :: "fixed \<Rightarrow> fixed \<Rightarrow> arithmetic_error + fixed" where
  "cadd a b = try_i128 (a + b)"

definition csub :: "fixed \<Rightarrow> fixed \<Rightarrow> arithmetic_error + fixed" where
  "csub a b = try_i128 (a - b)"

definition rmul :: "fixed \<Rightarrow> fixed \<Rightarrow> round_mode \<Rightarrow> arithmetic_error + fixed" where
  "rmul a b mode =
     (let value = a * b;
          result = value sdiv coef;
          loss = value - result * coef;
          sign = sgn a * sgn b
      in and_then (try_i128 result) (\<lambda>result.
           if loss \<noteq> 0 \<and> round_sign mode = sign then try_i128 (result + sign)
           else Inr result))"

definition lossless_mul :: "fixed \<Rightarrow> fixed \<Rightarrow> arithmetic_error + fixed option" where
  "lossless_mul a b =
     (let value = a * b;
          result = value sdiv coef;
          loss = value - result * coef
      in and_then (try_i128 result) (\<lambda>result.
           if loss \<noteq> 0 then Inr None else Inr (Some result)))"

definition rdiv :: "fixed \<Rightarrow> fixed \<Rightarrow> round_mode \<Rightarrow> arithmetic_error + fixed" where
  "rdiv a b mode =
     (if b = 0 then Inl DivisionByZero
      else
        let numerator = a * coef;
            result = numerator sdiv b;
            loss = numerator - result * b
        in and_then (try_i128 result) (\<lambda>result.
             if loss \<noteq> 0 \<and> round_sign mode = sgn a * sgn b then try_i128 (result + sgn a * sgn b)
             else Inr result))"

section \<open>FixedWrapper\<close>

definition fw_from :: "balance \<Rightarrow> fixed_wrapper" where
  "fw_from n = (if n \<le> i128_max then Inr (int n) else Inl Overflow)"

definition fw_zip :: "'e + 'a \<Rightarrow> 'e + 'b \<Rightarrow> 'e + ('a \<times> 'b)" where
  "fw_zip a b = and_then a (\<lambda>x. and_then b (\<lambda>y. Inr (x, y)))"

definition fw_add :: "fixed_wrapper \<Rightarrow> fixed_wrapper \<Rightarrow> fixed_wrapper" where
  "fw_add a b = and_then (fw_zip a b) (\<lambda>(x, y). cadd x y)"

definition fw_sub :: "fixed_wrapper \<Rightarrow> fixed_wrapper \<Rightarrow> fixed_wrapper" where
  "fw_sub a b = and_then (fw_zip a b) (\<lambda>(x, y). csub x y)"

definition fw_mul :: "fixed_wrapper \<Rightarrow> fixed_wrapper \<Rightarrow> fixed_wrapper" where
  "fw_mul a b = and_then (fw_zip a b) (\<lambda>(x, y). rmul x y Floor)"

definition fw_div :: "fixed_wrapper \<Rightarrow> fixed_wrapper \<Rightarrow> fixed_wrapper" where
  "fw_div a b = and_then (fw_zip a b) (\<lambda>(x, y). rdiv x y Floor)"

text \<open>
  \<open>Result::transpose\<close> turns \<open>Ok(None)\<close> into \<open>None\<close>; an error stays a wrapper that carries
  it, so a product that overflows is \<open>Some\<close> of an error.
\<close>

definition fw_lossless_mul :: "fixed_wrapper \<Rightarrow> fixed_wrapper \<Rightarrow> fixed_wrapper option" where
  "fw_lossless_mul a b =
     (case and_then (fw_zip a b) (\<lambda>(x, y). lossless_mul x y) of
        Inl e \<Rightarrow> Some (Inl e)
      | Inr None \<Rightarrow> None
      | Inr (Some r) \<Rightarrow> Some (Inr r))"

definition try_into_balance :: "fixed_wrapper \<Rightarrow> arithmetic_error + balance" where
  "try_into_balance w = and_then w (\<lambda>x. if 0 \<le> x then Inr (nat x) else Inl Overflow)"

section \<open>What the operations compute\<close>

lemma coef_pos [simp]: "0 < coef"
  by (simp add: coef_def)

lemma sdiv_nonneg: "0 \<le> a \<Longrightarrow> 0 < b \<Longrightarrow> a sdiv b = a div (b::int)"
  by (cases "a = 0") (auto simp: signed_divide_int_def)

lemma product_fits_i256:
  assumes "in_i128 a" and "in_i128 b"
  shows "\<bar>a * b\<bar> \<le> 2 ^ 254" and "\<bar>a * coef\<bar> < 2 ^ 255"
proof -
  have a: "\<bar>a\<bar> \<le> 2 ^ 127" and b: "\<bar>b\<bar> \<le> 2 ^ 127"
    using assms by (auto simp: in_i128_def i128_max_def)
  have "\<bar>a * b\<bar> \<le> 2 ^ 127 * 2 ^ 127"
    unfolding abs_mult by (rule mult_mono) (use a b in auto)
  then show "\<bar>a * b\<bar> \<le> 2 ^ 254" by simp
  have "\<bar>a * coef\<bar> \<le> 2 ^ 127 * coef"
    unfolding abs_mult by (rule mult_mono) (use a in \<open>auto simp: coef_def\<close>)
  then show "\<bar>a * coef\<bar> < 2 ^ 255" by (simp add: coef_def)
qed

lemma in_i128_int [simp]: "in_i128 (int n) \<longleftrightarrow> n \<le> i128_max"
  by (auto simp: in_i128_def)

lemma rmul_floor_nonneg:
  "rmul (int a) (int b) Floor = try_i128 (int (a * b div nat coef))"
proof -
  have val: "int a * int b sdiv coef = int (a * b div nat coef)"
    by (simp add: sdiv_nonneg zdiv_int coef_def)
  have sign: "round_sign Floor \<noteq> sgn (int a) * sgn (int b)"
    by (simp add: round_sign_def sgn_if)
  have "rmul (int a) (int b) Floor = and_then (try_i128 (int a * int b sdiv coef)) Inr"
    using sign by (simp add: rmul_def Let_def)
  also have "\<dots> = try_i128 (int a * int b sdiv coef)"
    by (simp add: try_i128_def)
  finally show ?thesis unfolding val .
qed

lemma rdiv_floor_nonneg:
  assumes "b \<noteq> 0"
  shows "rdiv (int a) (int b) Floor = try_i128 (int (a * nat coef div b))"
proof -
  have val: "int a * coef sdiv int b = int (a * nat coef div b)"
    using assms by (simp add: sdiv_nonneg zdiv_int coef_def)
  have sign: "round_sign Floor \<noteq> sgn (int a) * sgn (int b)"
    by (simp add: round_sign_def sgn_if)
  have "rdiv (int a) (int b) Floor = and_then (try_i128 (int a * coef sdiv int b)) Inr"
    using assms sign by (simp add: rdiv_def Let_def)
  also have "\<dots> = try_i128 (int a * coef sdiv int b)"
    by (simp add: try_i128_def)
  finally show ?thesis unfolding val .
qed

lemma lossless_mul_nonneg:
  "lossless_mul (int a) (int b) =
     (if i128_max < a * b div nat coef then Inl Overflow
      else if a * b mod nat coef = 0 then Inr (Some (int (a * b div nat coef)))
      else Inr None)"
proof -
  have val: "int a * int b sdiv coef = int (a * b div nat coef)"
    by (simp add: sdiv_nonneg zdiv_int coef_def)
  have "int a * int b - int (a * b div nat coef) * coef = int (a * b mod nat coef)"
    by (simp add: coef_def zmod_int zdiv_int minus_div_mult_eq_mod)
  then show ?thesis
    by (auto simp: lossless_mul_def Let_def val try_i128_def)
qed

text \<open>
  On balances: the product and the quotient are rounded down, and the only failures are a
  balance or a result outside \<open>i128\<close> and division by zero.
\<close>

lemma balance_mul:
  "try_into_balance (fw_mul (fw_from a) (fw_from b)) =
     (if a \<le> i128_max \<and> b \<le> i128_max \<and> a * b div nat coef \<le> i128_max
      then Inr (a * b div nat coef) else Inl Overflow)"
  by (simp add: fw_mul_def fw_zip_def fw_from_def rmul_floor_nonneg try_i128_def
      try_into_balance_def)

lemma balance_div:
  "try_into_balance (fw_div (fw_from a) (fw_from b)) =
     (if i128_max < a \<or> i128_max < b then Inl Overflow
      else if b = 0 then Inl DivisionByZero
      else if a * nat coef div b \<le> i128_max then Inr (a * nat coef div b)
      else Inl Overflow)"
  by (simp add: fw_div_def fw_zip_def fw_from_def rdiv_floor_nonneg try_i128_def
      try_into_balance_def) (simp add: rdiv_def)

lemma balance_lossless_mul:
  "fw_lossless_mul (fw_from a) (fw_from b) =
     (if i128_max < a \<or> i128_max < b \<or> i128_max < a * b div nat coef then Some (Inl Overflow)
      else if a * b mod nat coef = 0 then Some (Inr (int (a * b div nat coef)))
      else None)"
  by (simp add: fw_lossless_mul_def fw_zip_def fw_from_def lossless_mul_nonneg)

lemmas fixed_exec [exec_simps] = coef_def

end
