(* ===== verification/Balance_Unit.thy ===== *)
theory Balance_Unit
  imports BTree_Map Fixed_Arith
begin

text \<open>
  \<open>BalanceUnit\<close> of \<open>common/src/balance_unit.rs\<close>: a balance together with how to read it,
  with 18 decimal digits (divisible) or none. The order book's prices and volumes are such
  units. \<open>=\<close> is the derived, field-by-field equality of the source; \<open>\<le>\<close> and \<open><\<close> are its
  \<open>Ord\<close>, which compares the mathematical values, so the type is a preorder and two
  different units can be equivalent.
\<close>

datatype balance_unit = BalanceUnit (inner: balance) (is_divisible: bool)

datatype ordering = Less | Equal | Greater

definition ratio :: balance where
  "ratio = 1000000000000000000"

definition bu_new :: "balance \<Rightarrow> bool \<Rightarrow> balance_unit" where
  "bu_new b d = BalanceUnit b d"

definition divisible :: "balance \<Rightarrow> balance_unit" where
  "divisible b = bu_new b True"

definition indivisible :: "balance \<Rightarrow> balance_unit" where
  "indivisible b = bu_new b False"

definition copy_divisibility :: "balance_unit \<Rightarrow> balance \<Rightarrow> balance_unit" where
  "copy_divisibility x b = bu_new b (is_divisible x)"

definition bu_set :: "balance_unit \<Rightarrow> balance \<Rightarrow> balance_unit" where
  "bu_set x b = BalanceUnit b (is_divisible x)"

definition bu_zero :: balance_unit where
  "bu_zero = bu_new 0 False"

definition bu_is_zero :: "balance_unit \<Rightarrow> bool" where
  "bu_is_zero x \<longleftrightarrow> inner x = 0"

definition bu_one :: balance_unit where
  "bu_one = bu_new 1 False"

definition bu_integer :: "balance_unit \<Rightarrow> balance" where
  "bu_integer x = (if is_divisible x then inner x div ratio else inner x)"

definition bu_fractional :: "balance_unit \<Rightarrow> balance" where
  "bu_fractional x = (if is_divisible x then inner x mod ratio else 0)"

definition nat_cmp :: "nat \<Rightarrow> nat \<Rightarrow> ordering" where
  "nat_cmp a b = (if a < b then Less else if a = b then Equal else Greater)"

definition bu_cmp :: "balance_unit \<Rightarrow> balance_unit \<Rightarrow> ordering" where
  "bu_cmp x y =
     (let result = nat_cmp (bu_integer x) (bu_integer y)
      in if result = Equal then nat_cmp (bu_fractional x) (bu_fractional y) else result)"

definition bu_is_one :: "balance_unit \<Rightarrow> bool" where
  "bu_is_one x \<longleftrightarrow> bu_cmp x bu_one = Equal"

definition into_indivisible :: "balance_unit \<Rightarrow> round_mode \<Rightarrow> balance_unit" where
  "into_indivisible x mode =
     (if is_divisible x
      then BalanceUnit (case mode of Ceil \<Rightarrow> div_ceil_u (inner x) ratio | Floor \<Rightarrow> inner x div ratio) False
      else x)"

definition into_divisible :: "balance_unit \<Rightarrow> balance_unit option" where
  "into_divisible x =
     (if \<not> is_divisible x
      then map_option (\<lambda>b. BalanceUnit b True) (checked_mul_u u128_max (inner x) ratio)
      else Some x)"

text \<open>The two operands of an addition or subtraction at a common precision.\<close>

definition bu_align_checked :: "balance_unit \<Rightarrow> balance_unit \<Rightarrow> (balance \<times> balance) option" where
  "bu_align_checked x y =
     (case (is_divisible x, is_divisible y) of
        (False, True) \<Rightarrow> map_option (\<lambda>l. (l, inner y)) (checked_mul_u u128_max (inner x) ratio)
      | (True, False) \<Rightarrow> map_option (\<lambda>r. (inner x, r)) (checked_mul_u u128_max (inner y) ratio)
      | _ \<Rightarrow> Some (inner x, inner y))"

definition bu_checked_add :: "balance_unit \<Rightarrow> balance_unit \<Rightarrow> balance_unit option" where
  "bu_checked_add x y =
     (case bu_align_checked x y of
        None \<Rightarrow> None
      | Some (left, right) \<Rightarrow>
          map_option (\<lambda>b. bu_new b (is_divisible x \<or> is_divisible y))
            (checked_add_u u128_max left right))"

definition bu_checked_sub :: "balance_unit \<Rightarrow> balance_unit \<Rightarrow> balance_unit option" where
  "bu_checked_sub x y =
     (case bu_align_checked x y of
        None \<Rightarrow> None
      | Some (left, right) \<Rightarrow>
          map_option (\<lambda>b. bu_new b (is_divisible x \<or> is_divisible y))
            (checked_sub_u left right))"

definition bu_checked_mul :: "balance_unit \<Rightarrow> balance_unit \<Rightarrow> balance_unit option" where
  "bu_checked_mul x y =
     map_option (\<lambda>b. bu_new b (is_divisible x \<or> is_divisible y))
       (if is_divisible x \<and> is_divisible y
        then ok (try_into_balance (fw_mul (fw_from (inner x)) (fw_from (inner y))))
        else checked_mul_u u128_max (inner x) (inner y))"

definition bu_checked_div :: "balance_unit \<Rightarrow> balance_unit \<Rightarrow> balance_unit option" where
  "bu_checked_div x y =
     map_option (\<lambda>b. bu_new b (is_divisible x \<or> is_divisible y))
       (case (is_divisible x, is_divisible y) of
          (False, True) \<Rightarrow>
            (case checked_mul_u u128_max (inner x) ratio of
               None \<Rightarrow> None
             | Some left \<Rightarrow> ok (try_into_balance (fw_div (fw_from left) (fw_from (inner y)))))
        | (True, True) \<Rightarrow> ok (try_into_balance (fw_div (fw_from (inner x)) (fw_from (inner y))))
        | _ \<Rightarrow> checked_div_u (inner x) (inner y))"

definition bu_align_saturating :: "balance_unit \<Rightarrow> balance_unit \<Rightarrow> balance \<times> balance" where
  "bu_align_saturating x y =
     (case (is_divisible x, is_divisible y) of
        (False, True) \<Rightarrow> (saturating_mul_u u128_max (inner x) ratio, inner y)
      | (True, False) \<Rightarrow> (inner x, saturating_mul_u u128_max (inner y) ratio)
      | _ \<Rightarrow> (inner x, inner y))"

definition bu_saturating_add :: "balance_unit \<Rightarrow> balance_unit \<Rightarrow> balance_unit" where
  "bu_saturating_add x y =
     (case bu_align_saturating x y of
        (left, right) \<Rightarrow> bu_new (saturating_add_u u128_max left right) (is_divisible x \<or> is_divisible y))"

definition bu_saturating_sub :: "balance_unit \<Rightarrow> balance_unit \<Rightarrow> balance_unit" where
  "bu_saturating_sub x y =
     (case bu_align_saturating x y of
        (left, right) \<Rightarrow> bu_new (saturating_sub_u left right) (is_divisible x \<or> is_divisible y))"

definition bu_saturating_mul :: "balance_unit \<Rightarrow> balance_unit \<Rightarrow> balance_unit" where
  "bu_saturating_mul x y =
     bu_new
       (if is_divisible x \<and> is_divisible y
        then unwrap_or (ok (try_into_balance (fw_mul (fw_from (inner x)) (fw_from (inner y))))) u128_max
        else saturating_mul_u u128_max (inner x) (inner y))
       (is_divisible x \<or> is_divisible y)"

definition checked_mul_by_scalar :: "balance_unit \<Rightarrow> balance \<Rightarrow> balance_unit option" where
  "checked_mul_by_scalar x n =
     map_option (\<lambda>b. bu_new b (is_divisible x)) (checked_mul_u u128_max (inner x) n)"

text \<open>The value in units of \<open>10\<^sup>-\<^sup>1\<^sup>8\<close>, the reading both precisions share.\<close>

definition bu_value :: "balance_unit \<Rightarrow> nat" where
  "bu_value x = (if is_divisible x then inner x else inner x * ratio)"

text \<open>The width of the field: every balance of the chain is a \<open>u128\<close>.\<close>

definition bu_wf :: "balance_unit \<Rightarrow> bool" where
  "bu_wf x \<longleftrightarrow> inner x \<le> u128_max"

lemma bu_value_split: "bu_value x = bu_integer x * ratio + bu_fractional x"
  by (simp add: bu_value_def bu_integer_def bu_fractional_def)

lemma bu_fractional_less: "bu_fractional x < ratio"
  by (simp add: bu_fractional_def ratio_def)

lemma bu_cmp_value: "bu_cmp x y = nat_cmp (bu_value x) (bu_value y)"
proof -
  have le: "a * ratio + f < b * ratio + g" if "a < b" and "f < ratio" for a b f g :: nat
  proof -
    have "a * ratio + f < Suc a * ratio" using that(2) by simp
    also have "\<dots> \<le> b * ratio" using that(1) by (intro mult_le_mono1) simp
    finally show ?thesis by simp
  qed
  consider "bu_integer x < bu_integer y" | "bu_integer x = bu_integer y"
    | "bu_integer y < bu_integer x"
    by linarith
  then show ?thesis
  proof cases
    case 1
    with le [OF 1 bu_fractional_less, of x "bu_fractional y"] show ?thesis
      by (auto simp: bu_cmp_def nat_cmp_def bu_value_split [of x] bu_value_split [of y])
  next
    case 2
    then show ?thesis
      by (simp add: bu_cmp_def nat_cmp_def bu_value_split [of x] bu_value_split [of y])
  next
    case 3
    with le [OF 3 bu_fractional_less, of y "bu_fractional x"] show ?thesis
      by (auto simp: bu_cmp_def nat_cmp_def Let_def bu_value_split [of x] bu_value_split [of y]
          dest: less_asym)
  qed
qed

instantiation balance_unit :: preorder
begin

definition less_eq_balance_unit :: "balance_unit \<Rightarrow> balance_unit \<Rightarrow> bool" where
  "less_eq_balance_unit x y \<longleftrightarrow> bu_cmp x y \<noteq> Greater"

definition less_balance_unit :: "balance_unit \<Rightarrow> balance_unit \<Rightarrow> bool" where
  "less_balance_unit x y \<longleftrightarrow> bu_cmp x y = Less"

instance
  by standard
    (auto simp: less_eq_balance_unit_def less_balance_unit_def bu_cmp_value nat_cmp_def
      split: if_splits)

end

lemma bu_less_eq_value: "x \<le> y \<longleftrightarrow> bu_value x \<le> bu_value y" for x y :: balance_unit
  by (auto simp: less_eq_balance_unit_def bu_cmp_value nat_cmp_def)

lemma bu_less_value: "x < y \<longleftrightarrow> bu_value x < bu_value y" for x y :: balance_unit
  by (auto simp: less_balance_unit_def bu_cmp_value nat_cmp_def)

interpretation bu_key: btree_key bu_value
  by unfold_locales (rule bu_less_value)

lemma ratio_pos [simp]: "0 < ratio" "ratio \<noteq> 0"
  by (simp_all add: ratio_def)

lemma ratio_coef: "nat coef = ratio"
  by (simp add: ratio_def coef_def)

lemma bu_simps [simp]:
  "inner (bu_new b d) = b" "is_divisible (bu_new b d) = d"
  "inner (divisible b) = b" "is_divisible (divisible b)"
  "inner (indivisible b) = b" "\<not> is_divisible (indivisible b)"
  "inner (copy_divisibility x b) = b" "is_divisible (copy_divisibility x b) = is_divisible x"
  "inner (bu_set x b) = b" "is_divisible (bu_set x b) = is_divisible x"
  "inner bu_zero = 0" "\<not> is_divisible bu_zero"
  by (simp_all add: bu_new_def divisible_def indivisible_def copy_divisibility_def bu_set_def
      bu_zero_def)

lemma bu_value_zero [simp]: "bu_value bu_zero = 0"
  by (simp add: bu_value_def)

lemma bu_is_zero_value: "bu_is_zero x \<longleftrightarrow> bu_value x = 0"
  by (simp add: bu_is_zero_def bu_value_def)

lemma bu_eq_iff: "x = y \<longleftrightarrow> inner x = inner y \<and> is_divisible x = is_divisible y"
  by (cases x; cases y) auto

lemma bu_value_inject: "is_divisible x = is_divisible y \<Longrightarrow> bu_value x = bu_value y \<longleftrightarrow> x = y"
  by (auto simp: bu_eq_iff bu_value_def)

lemma bu_checked_add_Some:
  "bu_checked_add x y = Some z \<longleftrightarrow>
     is_divisible z = (is_divisible x \<or> is_divisible y) \<and> bu_value z = bu_value x + bu_value y \<and>
     inner z \<le> u128_max"
  by (cases "is_divisible x"; cases "is_divisible y")
    (auto simp: bu_checked_add_def bu_align_checked_def bu_value_def bu_eq_iff checked_add_u_def
      checked_mul_u_def add_mult_distrib [symmetric] split: if_splits)

lemma bu_checked_sub_Some_iff:
  "bu_checked_sub x y = Some z \<longleftrightarrow>
     is_divisible z = (is_divisible x \<or> is_divisible y) \<and> bu_value x = bu_value y + bu_value z \<and>
     bu_align_checked x y \<noteq> None"
  by (cases "is_divisible x"; cases "is_divisible y")
    (auto simp: bu_checked_sub_def bu_align_checked_def bu_value_def bu_eq_iff checked_sub_u_def
      checked_mul_u_def add_mult_distrib [symmetric] split: if_splits)

lemma bu_checked_sub_SomeD:
  assumes "bu_checked_sub x y = Some z"
  shows "is_divisible z = (is_divisible x \<or> is_divisible y)"
    and "bu_value y \<le> bu_value x"
    and "bu_value z = bu_value x - bu_value y"
  using assms by (auto simp: bu_checked_sub_Some_iff)

lemma bu_checked_sub_same:
  "is_divisible x = is_divisible y \<Longrightarrow> y \<le> x \<Longrightarrow>
   bu_checked_sub x y = Some (BalanceUnit (inner x - inner y) (is_divisible x))"
  by (cases "is_divisible x")
    (auto simp: bu_checked_sub_def bu_align_checked_def bu_less_eq_value bu_value_def
      checked_sub_u_def bu_new_def)

lemma bu_checked_mul_divisible:
  "is_divisible x \<Longrightarrow> is_divisible y \<Longrightarrow>
   bu_checked_mul x y =
     (if inner x \<le> i128_max \<and> inner y \<le> i128_max \<and> inner x * inner y div ratio \<le> i128_max
      then Some (divisible (inner x * inner y div ratio)) else None)"
  by (simp add: bu_checked_mul_def balance_mul ratio_coef divisible_def)

lemma bu_checked_mul_mixed:
  "\<not> (is_divisible x \<and> is_divisible y) \<Longrightarrow>
   bu_checked_mul x y =
     (if inner x * inner y \<le> u128_max
      then Some (bu_new (inner x * inner y) (is_divisible x \<or> is_divisible y)) else None)"
  by (auto simp: bu_checked_mul_def checked_mul_u_def)

lemma bu_saturating_add_same:
  "is_divisible x = is_divisible y \<Longrightarrow>
   bu_saturating_add x y = BalanceUnit (min u128_max (inner x + inner y)) (is_divisible x)"
  by (cases "is_divisible x")
    (auto simp: bu_saturating_add_def bu_align_saturating_def saturating_add_u_def bu_new_def)

lemma bu_saturating_sub_same:
  "is_divisible x = is_divisible y \<Longrightarrow>
   bu_saturating_sub x y = BalanceUnit (inner x - inner y) (is_divisible x)"
  by (cases "is_divisible x")
    (auto simp: bu_saturating_sub_def bu_align_saturating_def saturating_sub_u_def bu_new_def)

lemmas bu_exec [exec_simps] =
  ratio_def bu_new_def divisible_def indivisible_def copy_divisibility_def bu_set_def bu_zero_def
  bu_is_zero_def bu_less_eq_value bu_less_value bu_value_def bu_checked_add_def
  bu_checked_sub_def bu_align_checked_def bu_checked_mul_def bu_checked_div_def
  bu_saturating_add_def bu_saturating_sub_def bu_saturating_mul_def bu_align_saturating_def
  balance_mul balance_div

end
