(* ===== verification/Order_Types.thy ===== *)
theory Order_Types
  imports Balance_Unit
begin

text \<open>
  The data of the order book pallet: \<open>types.rs\<close>, \<open>limit_order.rs\<close> and \<open>market_order.rs\<close> of
  \<open>pallets/order-book/src\<close>, the order book identifier and the price side of
  \<open>common/src/primitives.rs\<close>, and the errors, events and configuration of the pallet.
  Accounts, assets, exchanges, order ids, block numbers and moments are natural numbers; their
  order is the order of the \<open>BTreeMap\<close> keys in the source.
\<close>

type_synonym account_id = nat
type_synonym asset_id = nat
type_synonym dex_id = nat
type_synonym order_id = nat
type_synonym block = nat
type_synonym moment = nat
type_synonym order_price = balance_unit
type_synonym order_volume = balance_unit
type_synonym price_orders = "order_id list"
type_synonym user_orders = "order_id list"
type_synonym market_side = "(order_price, order_volume) btree"

datatype price_variant = Buy | Sell

fun switched :: "price_variant \<Rightarrow> price_variant" where
  "switched Buy = Sell"
| "switched Sell = Buy"

datatype order_book_id = OrderBookId (ob_dex: dex_id) (ob_base: asset_id) (ob_quote: asset_id)

instantiation order_book_id :: linorder
begin

definition less_order_book_id :: "order_book_id \<Rightarrow> order_book_id \<Rightarrow> bool" where
  "x < y \<longleftrightarrow>
     ob_dex x < ob_dex y \<or> ob_dex x = ob_dex y \<and>
       (ob_base x < ob_base y \<or> ob_base x = ob_base y \<and> ob_quote x < ob_quote y)"

definition less_eq_order_book_id :: "order_book_id \<Rightarrow> order_book_id \<Rightarrow> bool" where
  "x \<le> y \<longleftrightarrow> x < y \<or> (x::order_book_id) = y"

instance
proof
  fix x y z :: order_book_id
  show "x < y \<longleftrightarrow> x \<le> y \<and> \<not> y \<le> x"
    by (auto simp: less_eq_order_book_id_def less_order_book_id_def)
  show "x \<le> x" by (simp add: less_eq_order_book_id_def)
  show "x \<le> y \<Longrightarrow> y \<le> z \<Longrightarrow> x \<le> z"
    by (auto simp: less_eq_order_book_id_def less_order_book_id_def)
  show "x \<le> y \<Longrightarrow> y \<le> x \<Longrightarrow> x = y"
    by (auto simp: less_eq_order_book_id_def less_order_book_id_def)
  show "x \<le> y \<or> y \<le> x"
    by (cases x; cases y) (auto simp: less_eq_order_book_id_def less_order_book_id_def)
qed

end

section \<open>Errors\<close>

text \<open>
  The errors of the order book pallet, followed by those of the pallets it calls on the paths
  that are modelled.
\<close>

datatype (plugins only: size) dispatch_error =
    UnknownOrderBook
  | InvalidOrderBookId
  | OrderBookAlreadyExists
  | UnknownLimitOrder
  | LimitOrderAlreadyExists
  | LimitOrderStorageOverflow
  | UpdateLimitOrderError
  | DeleteLimitOrderError
  | BlockScheduleFull
  | ExpirationNotFound
  | NoDataForPrice
  | NoAggregatedData
  | NotEnoughLiquidityInOrderBook
  | ForbiddenToCreateOrderBookWithSameAssets
  | NotAllowedQuoteAsset
  | NotAllowedDEXId
  | SyntheticAssetIsForbidden
  | UserHasNoNft
  | InvalidLifespan
  | InvalidOrderAmount
  | InvalidLimitOrderPrice
  | LimitOrderPriceIsTooFarFromSpread
  | TradingIsForbidden
  | PlacementOfLimitOrdersIsForbidden
  | CancellationOfLimitOrdersIsForbidden
  | UserHasMaxCountOfOpenedOrders
  | PriceReachedMaxCountOfLimitOrders
  | OrderBookReachedMaxCountOfPricesForSide
  | AmountCalculationFailed
  | PriceCalculationFailed
  | Unauthorized
  | InvalidAsset
  | InvalidTickSize
  | InvalidStepLotSize
  | InvalidMinLotSize
  | InvalidMaxLotSize
  | TickSizeAndStepLotSizeAreTooBig
  | TickSizeAndStepLotSizeLosePrecision
  | MaxLotSizeIsMoreThanTotalSupply
  | SlippageLimitExceeded
  | MarketOrdersAllowedOnlyForIndivisibleAssets
  | ForbiddenStatusToDeleteOrderBook
  | OrderBookIsNotEmpty
  | ForbiddenStatusToUpdateOrderBook
  | OrderBookIsLocked
  | BadOrigin
  | AssetIdNotExists
  | TechAccountIdIsNotRegistered
  | TokensBalanceTooLow
  | ArithmeticOverflow
  | ExistentialDeposit
  | LiquidityRestrictions
  | KeepAlive
  | DEXDoesNotExist
  | InvalidAccountId
  | TradingPairExists
  | ForbiddenBaseAssetId
  | IdenticalAssetIds
  | TradingPairDoesntExist
  | UnableToSwapIndivisibleAssets
  | OtherPalletError nat

section \<open>Statuses and amounts\<close>

datatype order_book_status = Trade | PlaceAndCancel | OnlyCancel | Stop

datatype order_book_tech_status = Ready | Updating

datatype cancel_reason = Manual | Expired | Aligned

datatype market_role = Maker | Taker

datatype order_amount = Base order_volume | Quote order_volume

fun amount_value :: "order_amount \<Rightarrow> order_volume" where
  "amount_value (Base v) = v"
| "amount_value (Quote v) = v"

fun is_base :: "order_amount \<Rightarrow> bool" where
  "is_base (Base v) = True"
| "is_base (Quote v) = False"

fun is_quote :: "order_amount \<Rightarrow> bool" where
  "is_quote (Base v) = False"
| "is_quote (Quote v) = True"

fun is_same :: "order_amount \<Rightarrow> order_amount \<Rightarrow> bool" where
  "is_same (Base _) (Base _) = True"
| "is_same (Quote _) (Quote _) = True"
| "is_same _ _ = False"

fun copy_type :: "order_amount \<Rightarrow> order_volume \<Rightarrow> order_amount" where
  "copy_type (Base _) v = Base v"
| "copy_type (Quote _) v = Quote v"

fun associated_asset :: "order_amount \<Rightarrow> order_book_id \<Rightarrow> asset_id" where
  "associated_asset (Base _) obid = ob_base obid"
| "associated_asset (Quote _) obid = ob_quote obid"

definition average_price :: "order_amount \<Rightarrow> order_amount \<Rightarrow> order_price option" where
  "average_price inp outp =
     (if is_quote inp then bu_checked_div (amount_value inp) (amount_value outp)
      else bu_checked_div (amount_value outp) (amount_value inp))"

definition amount_add :: "order_amount \<Rightarrow> order_amount \<Rightarrow> order_amount option" where
  "amount_add a b =
     (if \<not> is_same a b then None
      else map_option (copy_type a) (bu_checked_add (amount_value a) (amount_value b)))"

definition amount_sub :: "order_amount \<Rightarrow> order_amount \<Rightarrow> order_amount option" where
  "amount_sub a b =
     (if \<not> is_same a b then None
      else map_option (copy_type a) (bu_checked_sub (amount_value a) (amount_value b)))"

section \<open>Deals\<close>

record deal_info =
  di_input_asset_id :: asset_id
  di_input_amount :: order_amount
  di_output_asset_id :: asset_id
  di_output_amount :: order_amount
  di_average_price :: order_price
  di_direction :: price_variant

definition deal_is_valid :: "deal_info \<Rightarrow> bool" where
  "deal_is_valid d \<longleftrightarrow>
     di_input_asset_id d \<noteq> di_output_asset_id d
     \<and> \<not> (is_base (di_input_amount d) \<and> is_base (di_output_amount d))
     \<and> \<not> (is_quote (di_input_amount d) \<and> is_quote (di_output_amount d))
     \<and> \<not> bu_is_zero (amount_value (di_input_amount d))
     \<and> \<not> bu_is_zero (amount_value (di_output_amount d))
     \<and> \<not> bu_is_zero (di_average_price d)"

definition deal_base_amount_of :: "deal_info \<Rightarrow> order_volume" where
  "deal_base_amount_of d =
     (if is_base (di_input_amount d) then amount_value (di_input_amount d)
      else amount_value (di_output_amount d))"

definition deal_quote_amount_of :: "deal_info \<Rightarrow> order_volume" where
  "deal_quote_amount_of d =
     (if is_quote (di_input_amount d) then amount_value (di_input_amount d)
      else amount_value (di_output_amount d))"

section \<open>The pallet's configuration\<close>

record config =
  MAX_ORDER_LIFESPAN :: moment
  MIN_ORDER_LIFESPAN :: moment
  MILLISECS_PER_BLOCK :: moment
  SOFT_MIN_MAX_RATIO :: nat
  HARD_MIN_MAX_RATIO :: nat
  MaxOpenedLimitOrdersPerUser :: nat
  MaxLimitOrdersForPrice :: nat
  MaxSidePriceCount :: nat
  MaxExpiringOrdersPerBlock :: nat

text \<open>The values of the production runtime (\<open>runtime/src/lib.rs\<close>).\<close>

definition runtime_config :: config where
  "runtime_config =
     \<lparr> MAX_ORDER_LIFESPAN = 2592000000,
       MIN_ORDER_LIFESPAN = 60000,
       MILLISECS_PER_BLOCK = 6000,
       SOFT_MIN_MAX_RATIO = 1000,
       HARD_MIN_MAX_RATIO = 4000,
       MaxOpenedLimitOrdersPerUser = 1024,
       MaxLimitOrdersForPrice = 1024,
       MaxSidePriceCount = 1024,
       MaxExpiringOrdersPerBlock = 1024 \<rparr>"

section \<open>Limit orders\<close>

record limit_order =
  lo_id :: order_id
  lo_owner :: account_id
  lo_side :: price_variant
  lo_price :: order_price
  lo_original_amount :: order_volume
  lo_amount :: order_volume
  lo_time :: moment
  lo_lifespan :: moment
  lo_expires_at :: block

text \<open>Moments are \<open>u64\<close>, block numbers \<open>u32\<close>.\<close>

definition resolve_lifespan :: "config \<Rightarrow> block \<Rightarrow> moment \<Rightarrow> block" where
  "resolve_lifespan cfg current_block lifespan =
     (let lifespan_blocks = div_ceil_u (min u64_max lifespan) (min u64_max (MILLISECS_PER_BLOCK cfg));
          lifespan_blocks = saturating_add_u u64_max lifespan_blocks 1;
          lifespan = min u32_max lifespan_blocks
      in saturating_add_u u32_max current_block lifespan)"

definition lo_new ::
  "config \<Rightarrow> order_id \<Rightarrow> account_id \<Rightarrow> price_variant \<Rightarrow> order_price \<Rightarrow> order_volume \<Rightarrow> moment \<Rightarrow> moment \<Rightarrow>
   block \<Rightarrow> limit_order" where
  "lo_new cfg i owner side price amount time lifespan current_block =
     \<lparr> lo_id = i, lo_owner = owner, lo_side = side, lo_price = price, lo_original_amount = amount,
       lo_amount = amount, lo_time = time, lo_lifespan = lifespan,
       lo_expires_at = resolve_lifespan cfg current_block lifespan \<rparr>"

definition lo_ensure_valid :: "config \<Rightarrow> limit_order \<Rightarrow> dispatch_error + unit" where
  "lo_ensure_valid cfg x =
     and_then (ensure (MIN_ORDER_LIFESPAN cfg \<le> lo_lifespan x \<and> lo_lifespan x \<le> MAX_ORDER_LIFESPAN cfg)
       InvalidLifespan) (\<lambda>_.
     and_then (ensure (\<not> bu_is_zero (lo_original_amount x)) InvalidOrderAmount) (\<lambda>_.
     ensure (\<not> bu_is_zero (lo_price x)) InvalidLimitOrderPrice))"

definition lo_is_empty :: "limit_order \<Rightarrow> bool" where
  "lo_is_empty x = bu_is_zero (lo_amount x)"

definition deal_amount ::
  "limit_order \<Rightarrow> market_role \<Rightarrow> order_volume option \<Rightarrow> dispatch_error + order_amount" where
  "deal_amount x role base_amount_to_take =
     and_then
       (case base_amount_to_take of
          Some base_amount \<Rightarrow>
            and_then (ensure (base_amount \<le> lo_amount x) InvalidOrderAmount) (\<lambda>_. Inr base_amount)
        | None \<Rightarrow> Inr (lo_amount x))
       (\<lambda>base_amount.
          case (role, lo_side x) of
            (Maker, Buy) \<Rightarrow> Inr (Base base_amount)
          | (Taker, Sell) \<Rightarrow> Inr (Base base_amount)
          | (Maker, Sell) \<Rightarrow>
              and_then (ok_or (bu_checked_mul (lo_price x) base_amount) AmountCalculationFailed)
                (\<lambda>v. Inr (Quote v))
          | (Taker, Buy) \<Rightarrow>
              and_then (ok_or (bu_checked_mul (lo_price x) base_amount) AmountCalculationFailed)
                (\<lambda>v. Inr (Quote v)))"

section \<open>Market orders\<close>

record market_order =
  mo_owner :: account_id
  mo_direction :: price_variant
  mo_order_book_id :: order_book_id
  mo_amount :: order_volume
  mo_to :: "account_id option"

definition mo_ensure_valid :: "market_order \<Rightarrow> dispatch_error + unit" where
  "mo_ensure_valid m = ensure (\<not> bu_is_zero (mo_amount m)) InvalidOrderAmount"

section \<open>Payments\<close>

type_synonym pay_map = "(asset_id, (account_id, order_volume) btree) btree"

record payment =
  pay_order_book_id :: order_book_id
  to_lock :: pay_map
  to_unlock :: pay_map

definition payment_new :: "order_book_id \<Rightarrow> payment" where
  "payment_new obid = \<lparr> pay_order_book_id = obid, to_lock = [], to_unlock = [] \<rparr>"

text \<open>
  \<open>entry(asset).or_default().entry(account).and_modify(|v| v.saturating_add(amount)).or_insert(amount)\<close>,
  the one way the source adds an amount to a payment.
\<close>

definition pay_entry :: "asset_id \<Rightarrow> account_id \<Rightarrow> order_volume \<Rightarrow> pay_map \<Rightarrow> pay_map" where
  "pay_entry asset account amount m =
     bt_insert asset
       (bt_upsert account (\<lambda>v. bu_saturating_add v amount) amount (unwrap_or (bt_get asset m) [])) m"

fun merge_account_map ::
  "(account_id, order_volume) btree \<Rightarrow> (account_id, order_volume) btree \<Rightarrow>
   (account_id, order_volume) btree" where
  "merge_account_map m [] = m"
| "merge_account_map m ((account, volume) # to_merge) =
     merge_account_map (bt_upsert account (\<lambda>v. bu_saturating_add v volume) volume m) to_merge"

fun merge_asset_map :: "pay_map \<Rightarrow> pay_map \<Rightarrow> pay_map" where
  "merge_asset_map m [] = m"
| "merge_asset_map m ((asset, whom) # to_merge) =
     merge_asset_map (bt_upsert asset (\<lambda>account_map. merge_account_map account_map whom) whom m) to_merge"

definition payment_merge :: "payment \<Rightarrow> payment \<Rightarrow> payment option" where
  "payment_merge p q =
     (if pay_order_book_id p \<noteq> pay_order_book_id q then None
      else Some (p \<lparr> to_lock := merge_asset_map (to_lock p) (to_lock q),
                     to_unlock := merge_asset_map (to_unlock p) (to_unlock q) \<rparr>))"

text \<open>The traits \<open>CurrencyLocker\<close> and \<open>CurrencyUnlocker\<close>, over the state they transfer in.\<close>

type_synonym 'w locker = "account_id \<Rightarrow> order_book_id \<Rightarrow> asset_id \<Rightarrow> order_volume \<Rightarrow> ('w, dispatch_error, unit) run"
type_synonym 'w batch_unlocker =
  "order_book_id \<Rightarrow> asset_id \<Rightarrow> (account_id, order_volume) btree \<Rightarrow> ('w, dispatch_error, unit) run"

definition payment_lock :: "'w locker \<Rightarrow> payment \<Rightarrow> ('w, dispatch_error, unit) run" where
  "payment_lock lock_liquidity p =
     sfor (\<lambda>(asset, from_whom).
             sfor (\<lambda>(account, amount). lock_liquidity account (pay_order_book_id p) asset amount) from_whom)
       (to_lock p)"

definition payment_unlock :: "'w batch_unlocker \<Rightarrow> payment \<Rightarrow> ('w, dispatch_error, unit) run" where
  "payment_unlock unlock_liquidity_batch p =
     sfor (\<lambda>(asset, to_whom). unlock_liquidity_batch (pay_order_book_id p) asset to_whom) (to_unlock p)"

definition execute_all ::
  "'w locker \<Rightarrow> 'w batch_unlocker \<Rightarrow> payment \<Rightarrow> ('w, dispatch_error, unit) run" where
  "execute_all lock_liquidity unlock_liquidity_batch p =
     sbind (payment_lock lock_liquidity p) (\<lambda>_. payment_unlock unlock_liquidity_batch p)"

section \<open>Market changes\<close>

record market_change =
  deal_input :: "order_amount option"
  deal_output :: "order_amount option"
  market_input :: "order_amount option"
  market_output :: "order_amount option"
  to_place :: "(order_id, limit_order) btree"
  to_part_execute :: "(order_id, limit_order \<times> order_amount) btree"
  to_full_execute :: "(order_id, limit_order) btree"
  to_cancel :: "(order_id, limit_order \<times> cancel_reason) btree"
  to_force_update :: "(order_id, limit_order) btree"
  mc_payment :: payment
  ignore_unschedule_error :: bool

definition market_change_new :: "order_book_id \<Rightarrow> market_change" where
  "market_change_new obid =
     \<lparr> deal_input = None, deal_output = None, market_input = None, market_output = None,
       to_place = [], to_part_execute = [], to_full_execute = [], to_cancel = [],
       to_force_update = [], mc_payment = payment_new obid, ignore_unschedule_error = False \<rparr>"

fun join_amounts :: "order_amount option \<Rightarrow> order_amount option \<Rightarrow> order_amount option option" where
  "join_amounts (Some l) (Some r) = map_option Some (amount_add l r)"
| "join_amounts (Some l) None = Some (Some l)"
| "join_amounts None (Some r) = Some (Some r)"
| "join_amounts None None = Some None"

definition market_change_merge :: "market_change \<Rightarrow> market_change \<Rightarrow> market_change option" where
  "market_change_merge a b =
     Option.bind (join_amounts (deal_input a) (deal_input b)) (\<lambda>din.
     Option.bind (join_amounts (deal_output a) (deal_output b)) (\<lambda>dout.
     Option.bind (join_amounts (market_input a) (market_input b)) (\<lambda>min.
     Option.bind (join_amounts (market_output a) (market_output b)) (\<lambda>mout.
     Option.bind (payment_merge (mc_payment a) (mc_payment b)) (\<lambda>pay.
       Some \<lparr> deal_input = din, deal_output = dout, market_input = min, market_output = mout,
              to_place = bt_append (to_place a) (to_place b),
              to_part_execute = bt_append (to_part_execute a) (to_part_execute b),
              to_full_execute = bt_append (to_full_execute a) (to_full_execute b),
              to_cancel = bt_append (to_cancel a) (to_cancel b),
              to_force_update = bt_append (to_force_update a) (to_force_update b),
              mc_payment = pay,
              ignore_unschedule_error = (ignore_unschedule_error a \<or> ignore_unschedule_error b) \<rparr>)))))"

definition average_deal_price :: "market_change \<Rightarrow> order_price option" where
  "average_deal_price mc =
     (case (deal_input mc, deal_output mc) of
        (Some i, Some out) \<Rightarrow> average_price i out
      | _ \<Rightarrow> None)"

definition deal_base_amount :: "market_change \<Rightarrow> order_volume option" where
  "deal_base_amount mc =
     (case (deal_input mc, deal_output mc) of
        (Some i, Some out) \<Rightarrow> Some (if is_base i then amount_value i else amount_value out)
      | _ \<Rightarrow> None)"

definition count_of_executed_orders :: "market_change \<Rightarrow> nat" where
  "count_of_executed_orders mc =
     saturating_add_u u64_max (length (to_full_execute mc)) (length (to_part_execute mc))"

section \<open>Events\<close>

datatype (plugins only: size) order_book_event =
    LimitOrderPlaced order_id account_id price_variant order_price order_volume moment
  | LimitOrderConvertedToMarketOrder account_id price_variant order_amount order_price
  | LimitOrderIsSplitIntoMarketOrderAndLimitOrder account_id price_variant order_amount order_price order_id
  | LimitOrderCanceled order_id account_id cancel_reason
  | LimitOrderExecuted order_id account_id price_variant order_price order_amount
  | LimitOrderFilled order_id account_id
  | LimitOrderUpdated order_id account_id order_volume
  | MarketOrderExecuted account_id price_variant order_amount order_price "account_id option"

text \<open>
  The pallet's own event type repeats every order book event with the order book id added
  (\<open>Delegate::emit_event\<close>); here it wraps the order book event.
\<close>

datatype (plugins only: size) event =
    OrderBookCreated order_book_id "account_id option"
  | OrderBookDeleted order_book_id
  | OrderBookStatusChanged order_book_id order_book_status
  | OrderBookUpdated order_book_id
  | BookEvent order_book_id order_book_event
  | ExpirationFailure order_book_id order_id dispatch_error
  | AlignmentFailure order_book_id dispatch_error

lemmas order_types_exec [exec_simps] =
  average_price_def amount_add_def amount_sub_def deal_is_valid_def deal_base_amount_of_def
  deal_quote_amount_of_def resolve_lifespan_def lo_new_def lo_ensure_valid_def lo_is_empty_def
  deal_amount_def mo_ensure_valid_def payment_new_def pay_entry_def payment_merge_def
  payment_lock_def payment_unlock_def execute_all_def market_change_new_def
  market_change_merge_def average_deal_price_def deal_base_amount_def count_of_executed_orders_def
  less_order_book_id_def less_eq_order_book_id_def

end
