(* ===== verification/Cache_Storage.thy ===== *)
theory Cache_Storage
  imports BTree_Map Balance_Unit "HOL-Library.AList"
begin

text \<open>
  The write-back caches of \<open>common/src/cache_storage\<close> in front of a FRAME storage map.

  A storage map is an association list with one entry per key; its order stands for the
  iteration order of the trie, which nothing below relies on. A cache entry is
  \<open>Option<Item<V>>\<close>: \<open>None\<close> for a key known to be absent from storage, \<open>Original\<close> for a
  value as loaded, \<open>Updated\<close> and \<open>Removed\<close> for changes that \<open>commit\<close> has to write.
  What a client sees through a cache is \<open>cm_view\<close>; the locale \<open>cache_keys\<close> proves that each
  operation acts on the view as on a plain map and that \<open>commit\<close> makes the storage equal to
  the view.
\<close>

type_synonym ('k, 'v) storage = "('k \<times> 'v) list"

datatype 'v item = Original 'v | Updated 'v | Removed

type_synonym ('k, 'v) cache_map = "('k, 'v item option) btree"
type_synonym ('k1, 'k2, 'v) cache_double_map = "('k1, ('k2, 'v) cache_map) btree"

section \<open>Item\<close>

fun item_value :: "'v item \<Rightarrow> 'v option" where
  "item_value (Original v) = Some v"
| "item_value (Updated v) = Some v"
| "item_value Removed = None"

fun mark_as_updated :: "'v item \<Rightarrow> 'v item" where
  "mark_as_updated (Original v) = Updated v"
| "mark_as_updated (Updated v) = Updated v"
| "mark_as_updated Removed = Removed"

section \<open>CacheStorageMap\<close>

text \<open>
  The operations read the storage only through \<open>try_get\<close> and \<open>contains_key\<close>, so it is
  given to them as a lookup function.
\<close>

definition cm_new :: "('k, 'v) cache_map" where
  "cm_new = []"

definition cm_contains_key :: "('k::ord \<Rightarrow> 'v option) \<Rightarrow> 'k \<Rightarrow> ('k, 'v) cache_map \<Rightarrow> bool" where
  "cm_contains_key st k c =
     (case bt_get k c of
        Some (Some Removed) \<Rightarrow> False
      | Some (Some _) \<Rightarrow> True
      | Some None \<Rightarrow> False
      | None \<Rightarrow> st k \<noteq> None)"

text \<open>\<open>entry(key).or_insert_with(|| Storage::try_get(key).ok().map(Item::Original))\<close>\<close>

definition cm_entry_load ::
  "('k::ord \<Rightarrow> 'v option) \<Rightarrow> 'k \<Rightarrow> ('k, 'v) cache_map \<Rightarrow> 'v item option \<times> ('k, 'v) cache_map" where
  "cm_entry_load st k c =
     (case bt_get k c of
        Some it \<Rightarrow> (it, c)
      | None \<Rightarrow> (let it = map_option Original (st k) in (it, bt_insert k it c)))"

definition cm_get ::
  "('k::ord \<Rightarrow> 'v option) \<Rightarrow> 'k \<Rightarrow> ('k, 'v) cache_map \<Rightarrow> 'v option \<times> ('k, 'v) cache_map" where
  "cm_get st k c =
     (case cm_entry_load st k c of
        (Some it, c') \<Rightarrow> (item_value it, c')
      | (None, c') \<Rightarrow> (None, c'))"

text \<open>
  \<open>get_mut\<close> marks the item as updated before it hands the reference out; what the caller
  writes through the reference is \<open>cm_write\<close> of the same key.
\<close>

definition cm_get_mut ::
  "('k::ord \<Rightarrow> 'v option) \<Rightarrow> 'k \<Rightarrow> ('k, 'v) cache_map \<Rightarrow> 'v option \<times> ('k, 'v) cache_map" where
  "cm_get_mut st k c =
     (case cm_entry_load st k c of
        (Some it, c') \<Rightarrow> (item_value (mark_as_updated it), bt_insert k (Some (mark_as_updated it)) c')
      | (None, c') \<Rightarrow> (None, c'))"

definition cm_write :: "'k::ord \<Rightarrow> 'v \<Rightarrow> ('k, 'v) cache_map \<Rightarrow> ('k, 'v) cache_map" where
  "cm_write k v c = bt_insert k (Some (Updated v)) c"

definition cm_set :: "'k::ord \<Rightarrow> 'v \<Rightarrow> ('k, 'v) cache_map \<Rightarrow> ('k, 'v) cache_map" where
  "cm_set k v c = bt_insert k (Some (Updated v)) c"

definition cm_remove ::
  "('k::ord \<Rightarrow> 'v option) \<Rightarrow> 'k \<Rightarrow> ('k, 'v) cache_map \<Rightarrow> ('k, 'v) cache_map" where
  "cm_remove st k c =
     bt_upsert k (\<lambda>it. case it of Some _ \<Rightarrow> Some Removed | None \<Rightarrow> None)
       (if st k \<noteq> None then Some Removed else None) c"

text \<open>
  The loop of \<open>commit\<close> over the entries of one cache map; \<open>wr\<close> turns a cache key into the
  storage key it is written under.
\<close>

fun cm_commit_entries ::
  "('k \<Rightarrow> 'q) \<Rightarrow> ('k, 'v) cache_map \<Rightarrow> ('q, 'v) storage \<Rightarrow> ('k, 'v) cache_map \<times> ('q, 'v) storage" where
  "cm_commit_entries wr [] s = ([], s)"
| "cm_commit_entries wr ((k, it) # c) s =
     (case it of
        Some (Updated v) \<Rightarrow>
          (case cm_commit_entries wr c (AList.update (wr k) v s) of
             (c', s') \<Rightarrow> ((k, Some (Original v)) # c', s'))
      | Some Removed \<Rightarrow>
          (case cm_commit_entries wr c (AList.delete (wr k) s) of (c', s') \<Rightarrow> ((k, it) # c', s'))
      | _ \<Rightarrow> (case cm_commit_entries wr c s of (c', s') \<Rightarrow> ((k, it) # c', s')))"

fun is_original :: "'v item option \<Rightarrow> bool" where
  "is_original (Some (Original v)) = True"
| "is_original _ = False"

definition cm_retain_original :: "('k, 'v) cache_map \<Rightarrow> ('k, 'v) cache_map" where
  "cm_retain_original c = filter (\<lambda>(k, it). is_original it) c"

definition cm_commit ::
  "('k, 'v) cache_map \<Rightarrow> ('k, 'v) storage \<Rightarrow> ('k, 'v) cache_map \<times> ('k, 'v) storage" where
  "cm_commit c s = (case cm_commit_entries (\<lambda>k. k) c s of (c', s') \<Rightarrow> (cm_retain_original c', s'))"

definition cm_reset :: "('k, 'v) cache_map \<Rightarrow> ('k, 'v) cache_map" where
  "cm_reset c = []"

section \<open>CacheStorageDoubleMap\<close>

definition cdm_new :: "('k1, 'k2, 'v) cache_double_map" where
  "cdm_new = []"

text \<open>\<open>cache.entry(key1).or_default()\<close>\<close>

definition cdm_second :: "'k1::ord \<Rightarrow> ('k1, 'k2, 'v) cache_double_map \<Rightarrow> ('k2, 'v) cache_map" where
  "cdm_second k1 c = unwrap_or (bt_get k1 c) []"

definition prefix_lookup :: "('k1 \<times> 'k2, 'v) storage \<Rightarrow> 'k1 \<Rightarrow> 'k2 \<Rightarrow> 'v option" where
  "prefix_lookup s k1 = (\<lambda>k2. map_of s (k1, k2))"

definition iter_prefix :: "('k1 \<times> 'k2, 'v) storage \<Rightarrow> 'k1 \<Rightarrow> ('k2 \<times> 'v) list" where
  "iter_prefix s k1 = map (\<lambda>((a, b), v). (b, v)) (filter (\<lambda>((a, b), v). a = k1) s)"

definition cdm_contains_key ::
  "('k1::ord \<times> 'k2::ord, 'v) storage \<Rightarrow> 'k1 \<Rightarrow> 'k2 \<Rightarrow> ('k1, 'k2, 'v) cache_double_map \<Rightarrow> bool" where
  "cdm_contains_key s k1 k2 c =
     (case bt_get k1 c of
        Some second \<Rightarrow> cm_contains_key (prefix_lookup s k1) k2 second
      | None \<Rightarrow> map_of s (k1, k2) \<noteq> None)"

definition cdm_get ::
  "('k1::ord \<times> 'k2::ord, 'v) storage \<Rightarrow> 'k1 \<Rightarrow> 'k2 \<Rightarrow> ('k1, 'k2, 'v) cache_double_map \<Rightarrow>
   'v option \<times> ('k1, 'k2, 'v) cache_double_map" where
  "cdm_get s k1 k2 c =
     (case cm_get (prefix_lookup s k1) k2 (cdm_second k1 c) of (v, m) \<Rightarrow> (v, bt_insert k1 m c))"

definition cdm_get_mut ::
  "('k1::ord \<times> 'k2::ord, 'v) storage \<Rightarrow> 'k1 \<Rightarrow> 'k2 \<Rightarrow> ('k1, 'k2, 'v) cache_double_map \<Rightarrow>
   'v option \<times> ('k1, 'k2, 'v) cache_double_map" where
  "cdm_get_mut s k1 k2 c =
     (case cm_get_mut (prefix_lookup s k1) k2 (cdm_second k1 c) of (v, m) \<Rightarrow> (v, bt_insert k1 m c))"

definition cdm_write ::
  "'k1::ord \<Rightarrow> 'k2::ord \<Rightarrow> 'v \<Rightarrow> ('k1, 'k2, 'v) cache_double_map \<Rightarrow> ('k1, 'k2, 'v) cache_double_map" where
  "cdm_write k1 k2 v c = bt_insert k1 (cm_write k2 v (cdm_second k1 c)) c"

definition cdm_set ::
  "'k1::ord \<Rightarrow> 'k2::ord \<Rightarrow> 'v \<Rightarrow> ('k1, 'k2, 'v) cache_double_map \<Rightarrow> ('k1, 'k2, 'v) cache_double_map" where
  "cdm_set k1 k2 v c = bt_insert k1 (cm_set k2 v (cdm_second k1 c)) c"

definition cdm_remove ::
  "('k1::ord \<times> 'k2::ord, 'v) storage \<Rightarrow> 'k1 \<Rightarrow> 'k2 \<Rightarrow> ('k1, 'k2, 'v) cache_double_map \<Rightarrow>
   ('k1, 'k2, 'v) cache_double_map" where
  "cdm_remove s k1 k2 c = bt_insert k1 (cm_remove (prefix_lookup s k1) k2 (cdm_second k1 c)) c"

fun cm_load :: "('k::ord \<times> 'v) list \<Rightarrow> ('k, 'v) cache_map \<Rightarrow> ('k, 'v) cache_map" where
  "cm_load [] c = c"
| "cm_load ((k, v) # xs) c = cm_load xs (bt_upsert k (\<lambda>it. it) (Some (Original v)) c)"

definition cdm_load ::
  "('k1::ord \<times> 'k2::ord, 'v) storage \<Rightarrow> 'k1 \<Rightarrow> ('k1, 'k2, 'v) cache_double_map \<Rightarrow>
   ('k1, 'k2, 'v) cache_double_map" where
  "cdm_load s k1 c = bt_insert k1 (cm_load (iter_prefix s k1) (cdm_second k1 c)) c"

definition cdm_get_by_prefix ::
  "('k1::ord \<times> 'k2::ord, 'v) storage \<Rightarrow> 'k1 \<Rightarrow> ('k1, 'k2, 'v) cache_double_map \<Rightarrow>
   ('k2, 'v) btree \<times> ('k1, 'k2, 'v) cache_double_map" where
  "cdm_get_by_prefix s k1 c =
     (let c' = cdm_load s k1 c in
      (bt_from_list
         (List.map_filter
            (\<lambda>(k2, it). case it of
               None \<Rightarrow> None | Some i \<Rightarrow> map_option (Pair k2) (item_value i))
            (cdm_second k1 c')),
       c'))"

fun cdm_commit ::
  "('k1, 'k2, 'v) cache_double_map \<Rightarrow> ('k1 \<times> 'k2, 'v) storage \<Rightarrow>
   ('k1, 'k2, 'v) cache_double_map \<times> ('k1 \<times> 'k2, 'v) storage" where
  "cdm_commit [] s = ([], s)"
| "cdm_commit ((k1, second) # c) s =
     (case cm_commit_entries (Pair k1) second s of
        (second', s1) \<Rightarrow>
          (case cdm_commit c s1 of (c', s') \<Rightarrow> ((k1, cm_retain_original second') # c', s')))"

definition cdm_reset :: "('k1, 'k2, 'v) cache_double_map \<Rightarrow> ('k1, 'k2, 'v) cache_double_map" where
  "cdm_reset c = []"

section \<open>The view of a cache\<close>

definition cm_view :: "('k::ord \<Rightarrow> 'v option) \<Rightarrow> ('k, 'v) cache_map \<Rightarrow> 'k \<Rightarrow> 'v option" where
  "cm_view st c k =
     (case bt_get k c of None \<Rightarrow> st k | Some None \<Rightarrow> None | Some (Some it) \<Rightarrow> item_value it)"

definition cdm_view ::
  "('k1::ord \<times> 'k2::ord, 'v) storage \<Rightarrow> ('k1, 'k2, 'v) cache_double_map \<Rightarrow> 'k1 \<Rightarrow> 'k2 \<Rightarrow> 'v option" where
  "cdm_view s c k1 = cm_view (prefix_lookup s k1) (cdm_second k1 c)"

text \<open>What an entry says about the storage behind it.\<close>

definition entry_coherent :: "'v item option \<Rightarrow> 'v option \<Rightarrow> bool" where
  "entry_coherent it sv =
     (case it of
        None \<Rightarrow> sv = None
      | Some (Original v) \<Rightarrow> sv = Some v
      | _ \<Rightarrow> True)"

section \<open>Cache maps over a key type\<close>

text \<open>
  The cache compares keys by \<open>Ord\<close>, the storage by their encoding. The two agree on a set
  \<open>K\<close> of keys on which the order embedding is injective; every use of the caches keeps its
  keys in such a set.
\<close>

locale cache_keys = btree_key key for key :: "'k::ord \<Rightarrow> 'n::linorder" +
  fixes K :: "'k set"
  assumes inj_K: "inj_on key K"
begin

definition cm_ok :: "('k \<Rightarrow> 'v option) \<Rightarrow> ('k, 'v) cache_map \<Rightarrow> bool" where
  "cm_ok st c \<longleftrightarrow>
     sorted_wrt (<) (map (key \<circ> fst) c) \<and> fst ` set c \<subseteq> K \<and>
     (\<forall>(k, it) \<in> set c. entry_coherent it (st k))"

lemma key_eq: "k \<in> K \<Longrightarrow> k' \<in> K \<Longrightarrow> key k = key k' \<longleftrightarrow> k = k'"
  using inj_K by (auto simp: inj_on_def)

lemma cm_ok_new: "cm_ok st []"
  by (simp add: cm_ok_def)

lemma keys_insert_K:
  "k \<in> K \<Longrightarrow> fst ` set c \<subseteq> K \<Longrightarrow> fst ` set (bt_insert k v c) \<subseteq> K"
proof (induction c)
  case (Cons x c)
  then show ?case by (cases x) simp
qed simp

lemma cm_ok_get:
  "cm_ok st c \<Longrightarrow> k \<in> K \<Longrightarrow> bt_get k c = Some it \<Longrightarrow> entry_coherent it (st k)"
  using bt_get_Some_in [of k c it] by (force simp: cm_ok_def key_eq)

lemma set_bt_insert: "set (bt_insert k v c) \<subseteq> {x. key (fst x) = key k \<and> snd x = v} \<union> set c"
proof (induction c)
  case (Cons x c)
  then show ?case by (cases x) (auto simp: less_key)
qed auto

lemma cm_ok_insert:
  assumes "cm_ok st c" "k \<in> K" "entry_coherent it (st k)"
  shows "cm_ok st (bt_insert k it c)"
proof -
  have K: "fst ` set (bt_insert k it c) \<subseteq> K"
    using assms by (intro keys_insert_K) (auto simp: cm_ok_def)
  have "entry_coherent i (st k')" if "(k', i) \<in> set (bt_insert k it c)" for k' i
  proof (cases "(k', i) \<in> set c")
    case True
    with assms(1) show ?thesis by (auto simp: cm_ok_def)
  next
    case False
    with that have "key k' = key k" "i = it" using set_bt_insert [of k it c] by auto
    moreover have "k' \<in> K" using that K by force
    ultimately show ?thesis using assms(2,3) by (simp add: key_eq)
  qed
  with assms(1) K show ?thesis by (auto simp: cm_ok_def bt_insert_sorted)
qed

lemma cm_view_insert:
  "k \<in> K \<Longrightarrow> k' \<in> K \<Longrightarrow>
   cm_view st (bt_insert k it c) k' =
     (if k' = k then (case it of None \<Rightarrow> None | Some i \<Rightarrow> item_value i) else cm_view st c k')"
  by (auto simp: cm_view_def bt_get_insert key_eq)

lemma cm_entry_load:
  assumes "cm_ok st c" "k \<in> K" "cm_entry_load st k c = (it, c')"
  shows "cm_ok st c'" "\<forall>k' \<in> K. cm_view st c' k' = cm_view st c k'"
    "bt_get k c' = Some it" "entry_coherent it (st k)"
proof -
  have coh: "entry_coherent (map_option Original (st k)) (st k)"
    by (cases "st k") (auto simp: entry_coherent_def)
  have got: "bt_get k c = Some it' \<Longrightarrow> entry_coherent it' (st k)" for it'
    using assms(1,2) by (rule cm_ok_get)
  show "cm_ok st c'"
    using assms coh by (auto simp: cm_entry_load_def Let_def cm_ok_insert split: option.splits)
  show "bt_get k c' = Some it"
    using assms(3) by (auto simp: cm_entry_load_def Let_def bt_get_insert split: option.splits)
  show "entry_coherent it (st k)"
    using assms(3) coh got by (auto simp: cm_entry_load_def Let_def split: option.splits)
  show "\<forall>k' \<in> K. cm_view st c' k' = cm_view st c k'"
    using assms(2,3)
    by (auto simp: cm_entry_load_def Let_def cm_view_insert split: option.splits)
      (auto simp: cm_view_def split: option.splits)
qed

lemma cm_contains_key_view:
  "cm_contains_key st k c \<longleftrightarrow> cm_view st c k \<noteq> None"
  by (auto simp: cm_contains_key_def cm_view_def split: option.splits item.splits)

lemma cm_get:
  assumes "cm_ok st c" "k \<in> K"
  shows "fst (cm_get st k c) = cm_view st c k"
    "cm_ok st (snd (cm_get st k c))"
    "k' \<in> K \<Longrightarrow> cm_view st (snd (cm_get st k c)) k' = cm_view st c k'"
proof -
  obtain it c' where e: "cm_entry_load st k c = (it, c')" by fastforce
  note l = cm_entry_load [OF assms e]
  have "cm_view st c k = (case it of None \<Rightarrow> None | Some i \<Rightarrow> item_value i)"
    using l(2,3) assms(2) by (metis cm_view_def option.simps(5))
  then show "fst (cm_get st k c) = cm_view st c k"
    by (simp add: cm_get_def e split: option.splits)
  have snd: "snd (cm_get st k c) = c'" by (simp add: cm_get_def e split: option.splits)
  show "cm_ok st (snd (cm_get st k c))" using l(1) snd by simp
  show "k' \<in> K \<Longrightarrow> cm_view st (snd (cm_get st k c)) k' = cm_view st c k'" using l(2) snd by simp
qed

lemma cm_get_mut:
  assumes "cm_ok st c" "k \<in> K"
  shows "fst (cm_get_mut st k c) = cm_view st c k"
    "cm_ok st (snd (cm_get_mut st k c))"
    "k' \<in> K \<Longrightarrow> cm_view st (snd (cm_get_mut st k c)) k' = cm_view st c k'"
proof -
  obtain it c' where e: "cm_entry_load st k c = (it, c')" by fastforce
  note l = cm_entry_load [OF assms e]
  have v: "item_value (mark_as_updated i) = item_value i" for i :: "'x item" by (cases i) auto
  have coh: "entry_coherent (Some (mark_as_updated i)) x" for i :: "'x item" and x
    by (cases i) (auto simp: entry_coherent_def)
  have w: "cm_view st c k = (case it of None \<Rightarrow> None | Some i \<Rightarrow> item_value i)"
    using l(2,3) assms(2) by (metis cm_view_def option.simps(5))
  then show "fst (cm_get_mut st k c) = cm_view st c k"
    by (simp add: cm_get_mut_def e v split: option.splits)
  show "cm_ok st (snd (cm_get_mut st k c))"
    using l(1) assms(2) by (simp add: cm_get_mut_def e coh cm_ok_insert split: option.splits)
  show "k' \<in> K \<Longrightarrow> cm_view st (snd (cm_get_mut st k c)) k' = cm_view st c k'"
    using l(2) assms(2) w by (auto simp: cm_get_mut_def e v cm_view_insert split: option.splits)
qed

lemma cm_set:
  assumes "cm_ok st c" "k \<in> K"
  shows "cm_ok st (cm_set k v c)"
    "k' \<in> K \<Longrightarrow> cm_view st (cm_set k v c) k' = (if k' = k then Some v else cm_view st c k')"
  using assms by (auto simp: cm_set_def cm_ok_insert cm_view_insert entry_coherent_def)

lemma cm_write:
  assumes "cm_ok st c" "k \<in> K"
  shows "cm_ok st (cm_write k v c)"
    "k' \<in> K \<Longrightarrow> cm_view st (cm_write k v c) k' = (if k' = k then Some v else cm_view st c k')"
  using assms by (auto simp: cm_write_def cm_ok_insert cm_view_insert entry_coherent_def)

lemma cm_remove:
  assumes "cm_ok st c" "k \<in> K"
  shows "cm_ok st (cm_remove st k c)"
    "k' \<in> K \<Longrightarrow> cm_view st (cm_remove st k c) k' = (if k' = k then None else cm_view st c k')"
proof -
  have got: "bt_get k c = Some it' \<Longrightarrow> entry_coherent it' (st k)" for it'
    using assms by (rule cm_ok_get)
  show "cm_ok st (cm_remove st k c)"
    using assms got unfolding cm_remove_def bt_upsert_def
    by (intro cm_ok_insert) (auto simp: entry_coherent_def split: option.splits)
  show "k' \<in> K \<Longrightarrow> cm_view st (cm_remove st k c) k' = (if k' = k then None else cm_view st c k')"
    using assms by (auto simp: cm_remove_def bt_upsert_def cm_view_insert split: option.splits)
qed

text \<open>The commit loop writes the view of the entries and leaves other storage keys alone.\<close>

lemma cm_commit_entries_other:
  "q \<notin> wr ` fst ` set c \<Longrightarrow> map_of (snd (cm_commit_entries wr c s)) q = map_of s q"
  by (induction wr c s rule: cm_commit_entries.induct)
    (auto simp: update_conv' delete_conv' split: option.splits item.splits prod.splits)

lemma cm_commit_entries_keys:
  "map fst (fst (cm_commit_entries wr c s)) = map fst c"
  by (induction wr c s rule: cm_commit_entries.induct)
    (auto split: option.splits item.splits prod.splits)

lemma cm_commit_entries_distinct:
  "distinct (map fst s) \<Longrightarrow> distinct (map fst (snd (cm_commit_entries wr c s)))"
  by (induction wr c s rule: cm_commit_entries.induct)
    (auto simp: distinct_update distinct_delete split: option.splits item.splits prod.splits)

lemma cm_ok_Cons:
  "cm_ok st ((k, it) # c) \<longleftrightarrow>
     k \<in> K \<and> (\<forall>x \<in> set c. key k < key (fst x)) \<and> entry_coherent it (st k) \<and> cm_ok st c"
  by (auto simp: cm_ok_def)

lemma cm_ok_cong:
  "(\<And>k. k \<in> fst ` set c \<Longrightarrow> st k = st' k) \<Longrightarrow> cm_ok st c \<Longrightarrow> cm_ok st' c"
  by (induction c) (auto simp: cm_ok_Cons cm_ok_new)

lemma cm_view_Cons:
  "cm_view st ((k, it) # c) k' =
     (if key k' = key k then (case it of None \<Rightarrow> None | Some i \<Rightarrow> item_value i) else cm_view st c k')"
  by (auto simp: cm_view_def same_key_iff)

lemma cm_view_cong: "st k = st' k \<Longrightarrow> cm_view st c k = cm_view st' c k"
  by (simp add: cm_view_def split: option.splits)

lemma cm_commit_entries_view:
  assumes "inj wr" "cm_ok (\<lambda>k. map_of s (wr k)) c" "k \<in> K"
  shows "map_of (snd (cm_commit_entries wr c s)) (wr k) = cm_view (\<lambda>k. map_of s (wr k)) c k"
  using assms(2)
proof (induction c arbitrary: s)
  case Nil
  then show ?case by (simp add: cm_view_def)
next
  case (Cons x c)
  obtain k0 it where x: "x = (k0, it)" by (cases x)
  have k0: "k0 \<in> K" "k0 \<notin> fst ` set c" "entry_coherent it (map_of s (wr k0))"
    and c: "cm_ok (\<lambda>k. map_of s (wr k)) c"
    using Cons.prems x by (fastforce simp: cm_ok_Cons)+
  have wr: "wr a = wr b \<longleftrightarrow> a = b" for a b using assms(1) by (simp add: inj_eq)
  have step: "map_of (snd (cm_commit_entries wr c s')) (wr k) =
      (if k = k0 then map_of s' (wr k0) else cm_view (\<lambda>k. map_of s (wr k)) c k)"
    if s': "\<And>k. k \<noteq> k0 \<Longrightarrow> map_of s' (wr k) = map_of s (wr k)" for s'
  proof (cases "k = k0")
    case True
    then have "wr k \<notin> wr ` fst ` set c" using k0(2) by (force simp: wr)
    with True show ?thesis by (simp add: cm_commit_entries_other)
  next
    case False
    have "cm_ok (\<lambda>k. map_of s' (wr k)) c"
      by (rule cm_ok_cong [OF _ c]) (metis k0(2) s')
    from Cons.IH [OF this] False show ?thesis
      using s' by (simp add: cm_view_cong [of "\<lambda>k. map_of s' (wr k)" k "\<lambda>k. map_of s (wr k)"])
  qed
  have "cm_view (\<lambda>k. map_of s (wr k)) (x # c) k =
      (if k = k0 then (case it of None \<Rightarrow> None | Some i \<Rightarrow> item_value i)
       else cm_view (\<lambda>k. map_of s (wr k)) c k)"
    using assms(3) k0(1) by (simp add: x cm_view_Cons key_eq)
  moreover have "map_of (snd (cm_commit_entries wr (x # c) s)) (wr k) =
      (if k = k0 then (case it of None \<Rightarrow> None | Some i \<Rightarrow> item_value i)
       else cm_view (\<lambda>k. map_of s (wr k)) c k)"
  proof (cases it)
    case None
    with k0(3) step [of s] show ?thesis by (simp add: x entry_coherent_def split_beta)
  next
    case (Some i)
    with k0(3) step [of s] step [of "AList.update (wr k0) (the (item_value i)) s"]
      step [of "AList.delete (wr k0) s"] show ?thesis
      by (cases i) (simp_all add: x wr entry_coherent_def split_beta update_conv' delete_conv')
  qed
  ultimately show ?case by simp
qed

lemma cm_ok_retain:
  "cm_ok st c \<Longrightarrow> cm_ok st (cm_retain_original c)"
proof (induction c)
  case (Cons x c)
  then show ?case
    by (cases x) (auto simp: cm_ok_Cons cm_retain_original_def)
qed (simp add: cm_retain_original_def)

lemma cm_retained_view:
  assumes "cm_ok st (cm_retain_original c)" "k \<in> K"
  shows "cm_view st (cm_retain_original c) k = st k"
proof (cases "bt_get k (cm_retain_original c)")
  case (Some it)
  then have "is_original it"
    using bt_get_Some_in [OF Some] by (auto simp: cm_retain_original_def)
  moreover have "entry_coherent it (st k)" using cm_ok_get [OF assms Some] .
  ultimately show ?thesis
    using Some by (cases it rule: is_original.cases) (auto simp: cm_view_def entry_coherent_def)
qed (simp add: cm_view_def)

text \<open>After the commit loop every entry that is kept agrees with the storage.\<close>

lemma cm_commit_entries_ok:
  assumes "inj wr" "cm_ok (\<lambda>k. map_of s (wr k)) c" "cm_commit_entries wr c s = (c', s')"
  shows "cm_ok (\<lambda>k. map_of s' (wr k)) (cm_retain_original c')"
  using assms(2,3)
proof (induction c arbitrary: s c')
  case Nil
  then show ?case by (simp add: cm_retain_original_def cm_ok_new)
next
  case (Cons x c)
  obtain k0 it where x: "x = (k0, it)" by (cases x)
  have k0: "k0 \<in> K" "k0 \<notin> fst ` set c" "entry_coherent it (map_of s (wr k0))"
    "\<forall>x \<in> fst ` set c. key k0 < key x"
    and c: "cm_ok (\<lambda>k. map_of s (wr k)) c"
    using Cons.prems x by (fastforce simp: cm_ok_Cons)+
  have wr: "wr a = wr b \<longleftrightarrow> a = b" for a b using assms(1) by (simp add: inj_eq)
  define s1 where "s1 = (case it of Some (Updated v) \<Rightarrow> AList.update (wr k0) v s
    | Some Removed \<Rightarrow> AList.delete (wr k0) s | _ \<Rightarrow> s)"
  define it1 where "it1 = (case it of Some (Updated v) \<Rightarrow> Some (Original v) | _ \<Rightarrow> it)"
  obtain c1 where run: "cm_commit_entries wr c s1 = (c1, s')" and c': "c' = (k0, it1) # c1"
    using Cons.prems(2) unfolding x s1_def it1_def
    by (auto split: option.splits item.splits prod.splits)
  have "cm_ok (\<lambda>k. map_of s1 (wr k)) c"
    by (rule cm_ok_cong [OF _ c])
      (use k0(2) in \<open>auto simp: s1_def wr update_conv' delete_conv' split: option.splits item.splits\<close>)
  from Cons.IH [OF this run] have IH: "cm_ok (\<lambda>k. map_of s' (wr k)) (cm_retain_original c1)" .
  have "wr k0 \<notin> wr ` fst ` set c" using k0(2) by (force simp: wr)
  then have "map_of s' (wr k0) = map_of s1 (wr k0)"
    using cm_commit_entries_other [of "wr k0" wr c s1] run by simp
  then have "is_original it1 \<Longrightarrow> entry_coherent it1 (map_of s' (wr k0))"
    using k0(3) by (auto simp: s1_def it1_def entry_coherent_def update_conv'
        split: option.splits item.splits)
  moreover have "fst ` set c1 = fst ` set c"
    using cm_commit_entries_keys [of wr c s1] run by (metis fst_conv set_map)
  then have "fst ` set (cm_retain_original c1) \<subseteq> fst ` set c"
    by (force simp: cm_retain_original_def)
  with k0(4) have "\<forall>x \<in> set (cm_retain_original c1). key k0 < key (fst x)" by blast
  ultimately have "is_original it1 \<Longrightarrow>
      cm_ok (\<lambda>k. map_of s' (wr k)) ((k0, it1) # cm_retain_original c1)"
    using IH k0(1) by (simp add: cm_ok_Cons)
  with IH show ?case by (simp add: c' cm_retain_original_def)
qed

lemma cm_commit:
  assumes "cm_ok (map_of s) c" "cm_commit c s = (c', s')"
  shows "k \<in> K \<Longrightarrow> map_of s' k = cm_view (map_of s) c k"
    "k \<notin> K \<Longrightarrow> map_of s' k = map_of s k"
    "cm_ok (map_of s') c'"
    "k \<in> K \<Longrightarrow> cm_view (map_of s') c' k = cm_view (map_of s) c k"
proof -
  obtain c1 where run: "cm_commit_entries (\<lambda>k. k) c s = (c1, s')" and c': "c' = cm_retain_original c1"
    using assms(2) by (auto simp: cm_commit_def split: prod.splits)
  show v: "k \<in> K \<Longrightarrow> map_of s' k = cm_view (map_of s) c k"
    using cm_commit_entries_view [of "\<lambda>k. k" s c k] assms(1) run by simp
  show "k \<notin> K \<Longrightarrow> map_of s' k = map_of s k"
    using cm_commit_entries_other [of k "\<lambda>k. k" c s] run assms(1) by (auto simp: cm_ok_def)
  show ok: "cm_ok (map_of s') c'"
    using cm_commit_entries_ok [of "\<lambda>k. k" s c] assms(1) run c' by simp
  show "k \<in> K \<Longrightarrow> cm_view (map_of s') c' k = cm_view (map_of s) c k"
    using v cm_retained_view [OF ok [unfolded c']] c' by simp
qed

text \<open>Loading a prefix changes no visible value and leaves no stored key outside the cache.\<close>

lemma cm_load:
  assumes "cm_ok st c" "\<forall>(k, v) \<in> set xs. k \<in> K \<and> st k = Some v"
  shows "cm_ok st (cm_load xs c) \<and> (\<forall>k \<in> K. cm_view st (cm_load xs c) k = cm_view st c k) \<and>
    key ` fst ` set (cm_load xs c) = key ` fst ` set c \<union> key ` fst ` set xs"
  using assms
proof (induction xs c rule: cm_load.induct)
  case (2 k0 v xs c)
  have K: "k0 \<in> K" "st k0 = Some v" using "2.prems"(2) by auto
  let ?it = "case bt_get k0 c of None \<Rightarrow> Some (Original v) | Some x \<Rightarrow> x"
  let ?c = "bt_insert k0 ?it c"
  have up: "bt_upsert k0 (\<lambda>it. it) (Some (Original v)) c = ?c"
    by (simp add: bt_upsert_def)
  have ok: "cm_ok st ?c"
    using "2.prems"(1) K cm_ok_get [OF "2.prems"(1) K(1)]
    by (intro cm_ok_insert) (auto simp: entry_coherent_def split: option.splits)
  have view: "cm_view st ?c k' = cm_view st c k'" if "k' \<in> K" for k'
    using K that by (auto simp: cm_view_insert) (auto simp: cm_view_def split: option.splits)
  have xs: "\<forall>(k, v) \<in> set xs. k \<in> K \<and> st k = Some v" using "2.prems"(2) by auto
  show ?case using "2.IH" [unfolded up, OF ok xs] view up by (simp add: keys_bt_insert)
qed simp

definition visible :: "('k, 'v) cache_map \<Rightarrow> ('k \<times> 'v) list" where
  "visible c = List.map_filter
     (\<lambda>(k, it). case it of None \<Rightarrow> None | Some i \<Rightarrow> map_option (Pair k) (item_value i)) c"

lemma set_visible:
  "(k, v) \<in> set (visible c) \<longleftrightarrow> (\<exists>it. (k, Some it) \<in> set c \<and> item_value it = Some v)"
  by (force simp: visible_def map_filter_def split: option.splits)

lemma visible_Cons:
  "visible ((k, it) # c) =
     (case it of None \<Rightarrow> [] | Some i \<Rightarrow> (case item_value i of None \<Rightarrow> [] | Some v \<Rightarrow> [(k, v)])) @ visible c"
  by (auto simp: visible_def map_filter_def split: option.splits)

lemma visible_sorted:
  "sorted_wrt (<) (map (key \<circ> fst) c) \<Longrightarrow> sorted_wrt (<) (map (key \<circ> fst) (visible c))"
proof (induction c)
  case (Cons x c)
  obtain k it where x: "x = (k, it)" by (cases x)
  have "key k < key (fst y)" if "y \<in> set (visible c)" for y
    using that Cons.prems x set_visible [of "fst y" "snd y" c] by force
  with Cons x show ?case by (auto simp: visible_Cons split: option.splits)
qed (simp add: visible_def map_filter_def)

lemma bt_get_visible:
  "sorted_wrt (<) (map (key \<circ> fst) c) \<Longrightarrow>
   bt_get k (visible c) = (case bt_get k c of Some (Some i) \<Rightarrow> item_value i | _ \<Rightarrow> None)"
proof (induction c)
  case (Cons x c)
  obtain k0 it where x: "x = (k0, it)" by (cases x)
  show ?case
  proof (cases "key k = key k0")
    case True
    then have "\<forall>y \<in> set c. key k < key (fst y)" using Cons.prems x by auto
    then have "bt_get k c = None" by (force simp: bt_get_None)
    with Cons x have "bt_get k (visible c) = None" by simp
    with True x show ?thesis
      by (auto simp: visible_Cons same_key_iff split: option.splits)
  next
    case False
    with Cons x show ?thesis
      by (auto simp: visible_Cons same_key_iff split: option.splits)
  qed
qed (simp add: visible_def map_filter_def)

lemma visible_get:
  assumes "cm_ok st c" "k \<in> K" "key k \<notin> key ` fst ` set c \<Longrightarrow> st k = None"
  shows "bt_get k (visible c) = cm_view st c k"
proof -
  have "bt_get k c = None \<Longrightarrow> st k = None" using assms(3) by (simp add: bt_get_None)
  then show ?thesis
    using bt_get_visible [of c k] assms(1) by (auto simp: cm_ok_def cm_view_def split: option.splits)
qed

text \<open>The double map: every first key has a coherent cache map of its own.\<close>

definition cdm_ok ::
  "('k1::linorder \<times> 'k, 'v) storage \<Rightarrow> ('k1, 'k, 'v) cache_double_map \<Rightarrow> bool" where
  "cdm_ok s c \<longleftrightarrow>
     distinct (map fst s) \<and> snd ` fst ` set s \<subseteq> K \<and> sorted_wrt (<) (map fst c) \<and>
     (\<forall>(k1, m) \<in> set c. cm_ok (prefix_lookup s k1) m)"

lemma cdm_second_insert:
  "cdm_second k1 (bt_insert k1' m c) = (if k1 = k1' then m else cdm_second k1 c)"
  for k1 :: "'k1::linorder"
  by (simp add: cdm_second_def lin_key.bt_get_insert unwrap_or_def)

lemma cdm_second_ok:
  "cdm_ok s c \<Longrightarrow> cm_ok (prefix_lookup s k1) (cdm_second k1 c)"
  using lin_key.bt_get_Some_in [of k1 c]
  by (force simp: cdm_second_def unwrap_or_def cdm_ok_def cm_ok_new split: option.splits)

lemma cdm_ok_insert:
  assumes "cdm_ok s c" "cm_ok (prefix_lookup s k1) m"
  shows "cdm_ok s (bt_insert k1 m c)"
proof -
  have "cm_ok (prefix_lookup s k) x" if "(k, x) \<in> set (bt_insert k1 m c)" for k x
    using that assms by (induction c) (auto simp: cdm_ok_def split: if_splits)
  with assms show ?thesis
    using lin_key.bt_insert_sorted [of c k1 m] by (auto simp: cdm_ok_def comp_def)
qed

lemma cdm_view_insert:
  "cdm_view s (bt_insert k1 m c) k =
     (if k = k1 then cm_view (prefix_lookup s k1) m else cdm_view s c k)"
  for k :: "'k1::linorder"
  by (simp add: cdm_view_def cdm_second_insert)

lemma cdm_new_ok:
  "distinct (map fst s) \<Longrightarrow> snd ` fst ` set s \<subseteq> K \<Longrightarrow> cdm_ok s []"
  by (simp add: cdm_ok_def)

lemma cdm_contains_key_view: "cdm_contains_key s k1 k2 c \<longleftrightarrow> cdm_view s c k1 k2 \<noteq> None"
proof (cases "bt_get k1 c")
  case None
  then show ?thesis
    by (auto simp: cdm_contains_key_def cdm_view_def cdm_second_def unwrap_or_def cm_view_def
        prefix_lookup_def)
qed (simp add: cdm_contains_key_def cdm_view_def cdm_second_def unwrap_or_def cm_contains_key_view)

lemma cdm_get:
  assumes "cdm_ok s c" "k2 \<in> K"
  shows "fst (cdm_get s k1 k2 c) = cdm_view s c k1 k2"
    "cdm_ok s (snd (cdm_get s k1 k2 c))"
    "k2' \<in> K \<Longrightarrow> cdm_view s (snd (cdm_get s k1 k2 c)) k1' k2' = cdm_view s c k1' k2'"
proof -
  note g = cm_get [OF cdm_second_ok [OF assms(1), of k1] assms(2)]
  show "fst (cdm_get s k1 k2 c) = cdm_view s c k1 k2"
    using g(1) by (simp add: cdm_get_def split_beta cdm_view_def)
  show "cdm_ok s (snd (cdm_get s k1 k2 c))"
    using g(2) assms(1) by (simp add: cdm_get_def split_beta cdm_ok_insert)
  show "k2' \<in> K \<Longrightarrow> cdm_view s (snd (cdm_get s k1 k2 c)) k1' k2' = cdm_view s c k1' k2'"
    using g(3) [of k2']
    by (cases "k1' = k1") (simp_all add: cdm_get_def split_beta cdm_view_def cdm_second_insert)
qed

lemma cdm_get_mut:
  assumes "cdm_ok s c" "k2 \<in> K"
  shows "fst (cdm_get_mut s k1 k2 c) = cdm_view s c k1 k2"
    "cdm_ok s (snd (cdm_get_mut s k1 k2 c))"
    "k2' \<in> K \<Longrightarrow> cdm_view s (snd (cdm_get_mut s k1 k2 c)) k1' k2' = cdm_view s c k1' k2'"
proof -
  note g = cm_get_mut [OF cdm_second_ok [OF assms(1), of k1] assms(2)]
  show "fst (cdm_get_mut s k1 k2 c) = cdm_view s c k1 k2"
    using g(1) by (simp add: cdm_get_mut_def split_beta cdm_view_def)
  show "cdm_ok s (snd (cdm_get_mut s k1 k2 c))"
    using g(2) assms(1) by (simp add: cdm_get_mut_def split_beta cdm_ok_insert)
  show "k2' \<in> K \<Longrightarrow> cdm_view s (snd (cdm_get_mut s k1 k2 c)) k1' k2' = cdm_view s c k1' k2'"
    using g(3) [of k2']
    by (cases "k1' = k1") (simp_all add: cdm_get_mut_def split_beta cdm_view_def cdm_second_insert)
qed

lemma cdm_set:
  assumes "cdm_ok s c" "k2 \<in> K"
  shows "cdm_ok s (cdm_set k1 k2 v c)"
    "k2' \<in> K \<Longrightarrow> cdm_view s (cdm_set k1 k2 v c) k1' k2' =
       (if k1' = k1 \<and> k2' = k2 then Some v else cdm_view s c k1' k2')"
proof -
  note g = cm_set [OF cdm_second_ok [OF assms(1), of k1] assms(2)]
  show "cdm_ok s (cdm_set k1 k2 v c)"
    using g(1) assms(1) by (simp add: cdm_set_def cdm_ok_insert)
  show "k2' \<in> K \<Longrightarrow> cdm_view s (cdm_set k1 k2 v c) k1' k2' =
       (if k1' = k1 \<and> k2' = k2 then Some v else cdm_view s c k1' k2')"
    using g(2) [of k2']
    by (cases "k1' = k1") (simp_all add: cdm_set_def cdm_view_def cdm_second_insert)
qed

lemma cdm_write:
  assumes "cdm_ok s c" "k2 \<in> K"
  shows "cdm_ok s (cdm_write k1 k2 v c)"
    "k2' \<in> K \<Longrightarrow> cdm_view s (cdm_write k1 k2 v c) k1' k2' =
       (if k1' = k1 \<and> k2' = k2 then Some v else cdm_view s c k1' k2')"
proof -
  note g = cm_write [OF cdm_second_ok [OF assms(1), of k1] assms(2)]
  show "cdm_ok s (cdm_write k1 k2 v c)"
    using g(1) assms(1) by (simp add: cdm_write_def cdm_ok_insert)
  show "k2' \<in> K \<Longrightarrow> cdm_view s (cdm_write k1 k2 v c) k1' k2' =
       (if k1' = k1 \<and> k2' = k2 then Some v else cdm_view s c k1' k2')"
    using g(2) [of k2']
    by (cases "k1' = k1") (simp_all add: cdm_write_def cdm_view_def cdm_second_insert)
qed

lemma cdm_remove:
  assumes "cdm_ok s c" "k2 \<in> K"
  shows "cdm_ok s (cdm_remove s k1 k2 c)"
    "k2' \<in> K \<Longrightarrow> cdm_view s (cdm_remove s k1 k2 c) k1' k2' =
       (if k1' = k1 \<and> k2' = k2 then None else cdm_view s c k1' k2')"
proof -
  note g = cm_remove [OF cdm_second_ok [OF assms(1), of k1] assms(2)]
  show "cdm_ok s (cdm_remove s k1 k2 c)"
    using g(1) assms(1) by (simp add: cdm_remove_def cdm_ok_insert)
  show "k2' \<in> K \<Longrightarrow> cdm_view s (cdm_remove s k1 k2 c) k1' k2' =
       (if k1' = k1 \<and> k2' = k2 then None else cdm_view s c k1' k2')"
    using g(2) [of k2']
    by (cases "k1' = k1") (simp_all add: cdm_remove_def cdm_view_def cdm_second_insert)
qed

lemma set_iter_prefix:
  "(k2, v) \<in> set (iter_prefix s k1) \<longleftrightarrow> ((k1, k2), v) \<in> set s"
  by (force simp: iter_prefix_def)

lemma cdm_load:
  assumes "cdm_ok s c"
  shows "cdm_ok s (cdm_load s k1 c)"
    "k2 \<in> K \<Longrightarrow> cdm_view s (cdm_load s k1 c) k1' k2 = cdm_view s c k1' k2"
    "k \<in> K \<Longrightarrow> key k \<notin> key ` fst ` set (cdm_second k1 (cdm_load s k1 c)) \<Longrightarrow>
       prefix_lookup s k1 k = None"
proof -
  have st: "\<forall>(k, v) \<in> set (iter_prefix s k1). k \<in> K \<and> prefix_lookup s k1 k = Some v"
    using assms by (force simp: set_iter_prefix prefix_lookup_def cdm_ok_def)
  note l = cm_load [OF cdm_second_ok [OF assms, of k1] st]
  show "cdm_ok s (cdm_load s k1 c)" using l assms by (simp add: cdm_load_def cdm_ok_insert)
  show "k2 \<in> K \<Longrightarrow> cdm_view s (cdm_load s k1 c) k1' k2 = cdm_view s c k1' k2"
    using l by (auto simp: cdm_load_def cdm_view_insert) (simp add: cdm_view_def)
  assume "k \<in> K" "key k \<notin> key ` fst ` set (cdm_second k1 (cdm_load s k1 c))"
  then have "key k \<notin> key ` fst ` set (iter_prefix s k1)"
    using l by (simp add: cdm_load_def cdm_second_insert)
  then have "((k1, k), v) \<notin> set s" for v
    using set_iter_prefix by (metis fst_conv imageI)
  then show "prefix_lookup s k1 k = None"
    by (metis map_of_SomeD not_None_eq prefix_lookup_def)
qed

lemma cdm_get_by_prefix:
  assumes "cdm_ok s c"
  shows "k2 \<in> K \<Longrightarrow> bt_get k2 (fst (cdm_get_by_prefix s k1 c)) = cdm_view s c k1 k2"
    "sorted_wrt (<) (map (key \<circ> fst) (fst (cdm_get_by_prefix s k1 c)))"
    "fst ` set (fst (cdm_get_by_prefix s k1 c)) \<subseteq> K"
    "cdm_ok s (snd (cdm_get_by_prefix s k1 c))"
    "k2 \<in> K \<Longrightarrow> cdm_view s (snd (cdm_get_by_prefix s k1 c)) k1' k2 = cdm_view s c k1' k2"
proof -
  let ?m = "cdm_second k1 (cdm_load s k1 c)"
  note l = cdm_load(1) [OF assms, of k1] cdm_load(2) [OF assms, of _ k1] cdm_load(3) [OF assms, of _ k1]
  have ok: "cm_ok (prefix_lookup s k1) ?m" using l(1) by (rule cdm_second_ok)
  then have sorted: "sorted_wrt (<) (map (key \<circ> fst) (visible ?m))"
    by (intro visible_sorted) (simp add: cm_ok_def)
  then have eq: "cdm_get_by_prefix s k1 c = (visible ?m, cdm_load s k1 c)"
    by (simp add: cdm_get_by_prefix_def Let_def visible_def bt_from_sorted_list)
  show "k2 \<in> K \<Longrightarrow> bt_get k2 (fst (cdm_get_by_prefix s k1 c)) = cdm_view s c k1 k2"
    using visible_get [OF ok _ l(3)] l(2) [of k2 k1] by (simp add: eq cdm_view_def)
  show "sorted_wrt (<) (map (key \<circ> fst) (fst (cdm_get_by_prefix s k1 c)))"
    using sorted by (simp add: eq)
  show "fst ` set (fst (cdm_get_by_prefix s k1 c)) \<subseteq> K"
    using ok by (force simp: eq set_visible cm_ok_def)
  show "cdm_ok s (snd (cdm_get_by_prefix s k1 c))"
    "k2 \<in> K \<Longrightarrow> cdm_view s (snd (cdm_get_by_prefix s k1 c)) k1' k2 = cdm_view s c k1' k2"
    using l(1,2) by (simp_all add: eq)
qed

lemma cdm_commit_other:
  "fst q \<notin> fst ` set c \<Longrightarrow> map_of (snd (cdm_commit c s)) q = map_of s q"
proof (induction c s rule: cdm_commit.induct)
  case (2 k1 second c s)
  moreover have "q \<notin> Pair k1 ` fst ` set second" using "2.prems" by auto
  ultimately show ?case
    using cm_commit_entries_other [of q "Pair k1" second s] by (auto split: prod.splits)
qed simp

lemma cdm_commit_keys: "map fst (fst (cdm_commit c s)) = map fst c"
  by (induction c s rule: cdm_commit.induct) (auto split: prod.splits)

lemma cdm_commit_distinct:
  "distinct (map fst s) \<Longrightarrow> distinct (map fst (snd (cdm_commit c s)))"
proof (induction c s rule: cdm_commit.induct)
  case (2 k1 second c s)
  then show ?case
    using cm_commit_entries_distinct [of s "Pair k1" second] by (auto split: prod.splits)
qed simp

lemma cm_commit_entries_storage_keys:
  "fst ` set (snd (cm_commit_entries wr c s)) \<subseteq> fst ` set s \<union> wr ` fst ` set c"
proof -
  have "dom (map_of (snd (cm_commit_entries wr c s))) \<subseteq> dom (map_of s) \<union> wr ` fst ` set c"
  proof
    fix q assume "q \<in> dom (map_of (snd (cm_commit_entries wr c s)))"
    then show "q \<in> dom (map_of s) \<union> wr ` fst ` set c"
      using cm_commit_entries_other [of q wr c s]
      by (cases "q \<in> wr ` fst ` set c") (simp_all add: dom_def)
  qed
  then show ?thesis by (simp add: dom_map_of_conv_image_fst)
qed

lemma cdm_commit_storage_keys:
  "snd ` fst ` set s \<subseteq> K \<Longrightarrow> \<forall>(k1, m) \<in> set c. fst ` set m \<subseteq> K \<Longrightarrow>
   snd ` fst ` set (snd (cdm_commit c s)) \<subseteq> K"
proof (induction c s rule: cdm_commit.induct)
  case (2 k1 second c s)
  let ?s = "snd (cm_commit_entries (Pair k1) second s)"
  have "snd ` fst ` set ?s \<subseteq> snd ` (fst ` set s \<union> Pair k1 ` fst ` set second)"
    by (intro image_mono cm_commit_entries_storage_keys)
  also have "\<dots> \<subseteq> K" using "2.prems" by (auto simp: image_Un image_image)
  finally have s1: "snd ` fst ` set ?s \<subseteq> K" .
  have c: "\<forall>(k1, m) \<in> set c. fst ` set m \<subseteq> K" using "2.prems"(2) by simp
  show ?case
    using "2.IH" [OF prod.collapse s1 c] by (simp add: split_beta)
qed simp

text \<open>What the commit of a double map does to each cached second map.\<close>

lemma cdm_commit_entries:
  fixes c :: "('k1::linorder, 'k, 'v) cache_double_map"
  assumes "sorted_wrt (<) (map fst c)" "\<forall>(k1, m) \<in> set c. cm_ok (prefix_lookup s k1) m"
    "cdm_commit c s = (c', s')"
  shows "(\<forall>(k1, m) \<in> set c. \<forall>k2 \<in> K. map_of s' (k1, k2) = cm_view (prefix_lookup s k1) m k2) \<and>
    (\<forall>(k1, m) \<in> set c'. cm_ok (prefix_lookup s' k1) m \<and> (\<exists>m'. m = cm_retain_original m'))"
  using assms
proof (induction c arbitrary: s c')
  case (Cons x c)
  obtain k0 m where x: "x = (k0, m)" by (cases x)
  obtain m' s1 where e1: "cm_commit_entries (Pair k0) m s = (m', s1)" by fastforce
  obtain c1 where e2: "cdm_commit c s1 = (c1, s')" and c': "c' = (k0, cm_retain_original m') # c1"
    using Cons.prems(3) by (auto simp: x e1 split: prod.splits)
  have "\<forall>k \<in> fst ` set c. k0 < k" using Cons.prems(1) by (auto simp: x)
  then have k0: "k0 \<notin> fst ` set c" by (metis less_irrefl)
  have same: "prefix_lookup s1 k = prefix_lookup s k" if "k \<noteq> k0" for k
  proof
    fix k2
    have "(k, k2) \<notin> Pair k0 ` fst ` set m" using that by auto
    then show "prefix_lookup s1 k k2 = prefix_lookup s k k2"
      using cm_commit_entries_other [of "(k, k2)" "Pair k0" m s] by (simp add: e1 prefix_lookup_def)
  qed
  have prems: "sorted_wrt (<) (map fst c)" "\<forall>(k1, m) \<in> set c. cm_ok (prefix_lookup s1 k1) m"
    using Cons.prems(1,2) k0 same by (force simp: x)+
  have other: "prefix_lookup s' k0 = prefix_lookup s1 k0"
    using cdm_commit_other [of "(k0, _)" c s1] k0 by (auto simp: prefix_lookup_def e2)
  have m: "cm_ok (\<lambda>k. map_of s (k0, k)) m"
    using Cons.prems(2) by (simp add: x prefix_lookup_def)
  have inj: "inj (Pair k0)" by (simp add: inj_def)
  have IH: "\<forall>(k1, m) \<in> set c. \<forall>k2 \<in> K. map_of s' (k1, k2) = cm_view (prefix_lookup s1 k1) m k2"
    "\<forall>(k1, m) \<in> set c1. cm_ok (prefix_lookup s' k1) m \<and> (\<exists>m'. m = cm_retain_original m')"
    using Cons.IH [OF prems e2] by simp_all
  have "map_of s' (k0, k2) = cm_view (prefix_lookup s k0) m k2" if "k2 \<in> K" for k2
    using cm_commit_entries_view [OF inj m that] fun_cong [OF other, of k2]
    by (simp add: prefix_lookup_def e1)
  moreover have "map_of s' (k1, k2) = cm_view (prefix_lookup s k1) m k2"
    if "(k1, m) \<in> set c" "k2 \<in> K" for k1 m k2
  proof -
    have "k1 \<noteq> k0" using that(1) k0 by force
    then show ?thesis using IH(1) that same [of k1] by auto
  qed
  moreover have "cm_ok (prefix_lookup s' k0) (cm_retain_original m')"
    using cm_commit_entries_ok [OF inj m e1] other unfolding prefix_lookup_def by simp
  ultimately show ?case using IH(2) by (auto simp: x c')
qed simp

lemma cdm_second_cases:
  assumes "cdm_ok s c"
  obtains "bt_get k1 c = None" "cdm_second k1 c = []" "k1 \<notin> fst ` set c"
  | m where "bt_get k1 c = Some m" "cdm_second k1 c = m" "(k1, m) \<in> set c"
proof (cases "bt_get k1 c")
  case None
  then show ?thesis
    using that(1) lin_key.bt_get_None [of k1 c] by (simp add: cdm_second_def unwrap_or_def)
next
  case (Some m)
  then show ?thesis
    using that(2) lin_key.bt_get_Some_in [of k1 c m] by (simp add: cdm_second_def unwrap_or_def)
qed

lemma cdm_commit:
  assumes ok: "cdm_ok s c" and run: "cdm_commit c s = (c', s')" and K: "k2 \<in> K"
  shows "map_of s' (k1, k2) = cdm_view s c k1 k2" "cdm_ok s' c'"
    "cdm_view s' c' k1 k2 = cdm_view s c k1 k2"
proof -
  have c: "sorted_wrt (<) (map fst c)" "\<forall>(k1, m) \<in> set c. cm_ok (prefix_lookup s k1) m"
    using ok by (auto simp: cdm_ok_def)
  note e = cdm_commit_entries [OF c run]
  show v: "map_of s' (k1, k2) = cdm_view s c k1 k2"
    using ok
  proof (cases rule: cdm_second_cases [of s c k1])
    case 1
    then show ?thesis
      using cdm_commit_other [of "(k1, k2)" c s] run
      by (simp add: cdm_view_def cm_view_def prefix_lookup_def)
  next
    case (2 m)
    then show ?thesis using e K by (auto simp: cdm_view_def)
  qed
  have "\<forall>(k1, m) \<in> set c. fst ` set m \<subseteq> K"
    using c(2) unfolding cm_ok_def by (simp add: split_beta)
  then have "snd ` fst ` set s' \<subseteq> K"
    using cdm_commit_storage_keys [of s c] ok run by (simp add: cdm_ok_def)
  moreover have "map fst c' = map fst c" "distinct (map fst s')"
    using cdm_commit_keys [of c s] cdm_commit_distinct [of s c] ok run by (simp_all add: cdm_ok_def)
  moreover have "\<forall>(k1, m) \<in> set c'. cm_ok (prefix_lookup s' k1) m" using e by auto
  ultimately show ok': "cdm_ok s' c'"
    using c(1) by (simp add: cdm_ok_def)
  have "cdm_view s' c' k1 k2 = map_of s' (k1, k2)"
    using ok'
  proof (cases rule: cdm_second_cases [of s' c' k1])
    case 1
    then show ?thesis by (simp add: cdm_view_def cm_view_def prefix_lookup_def)
  next
    case (2 m)
    then obtain m' where "cm_ok (prefix_lookup s' k1) m" "m = cm_retain_original m'" using e by auto
    then show ?thesis
      using cm_retained_view K 2(2) by (simp add: cdm_view_def prefix_lookup_def)
  qed
  with v show "cdm_view s' c' k1 k2 = cdm_view s c k1 k2" by simp
qed

end

section \<open>The two kinds of cache keys\<close>

text \<open>
  Identifiers are linearly ordered and equal only when identical. Prices are ordered by their
  value; on divisible prices, the only ones the order book stores, equal values are equal keys.
\<close>

interpretation id_cache: cache_keys "\<lambda>k::'k::linorder. k" UNIV
  by unfold_locales simp

interpretation price_cache: cache_keys bu_value "{p. is_divisible p}"
  by unfold_locales (auto simp: inj_on_def bu_value_inject)

lemmas cache_exec [exec_simps] =
  cm_new_def cm_contains_key_def cm_entry_load_def cm_get_def cm_get_mut_def cm_write_def cm_set_def
  cm_remove_def cm_retain_original_def cm_commit_def cm_reset_def
  cdm_new_def cdm_second_def prefix_lookup_def iter_prefix_def cdm_contains_key_def cdm_get_def
  cdm_get_mut_def cdm_write_def cdm_set_def cdm_remove_def cdm_load_def cdm_get_by_prefix_def
  cdm_reset_def map_filter_def

section \<open>A cached map against the plain map\<close>

text \<open>
  A client's calls to a double map cache, and the same calls answered by the storage itself:
  every read sees the last write, and \<open>commit\<close> has no visible effect.
\<close>

datatype ('k1, 'k2, 'v) cache_call =
    CallContains 'k1 'k2
  | CallGet 'k1 'k2
  | CallGetMut 'k1 'k2 "'v \<Rightarrow> 'v"
  | CallSet 'k1 'k2 'v
  | CallRemove 'k1 'k2
  | CallCommit

datatype 'v cache_answer = Answer bool "'v option"

fun cached_step ::
  "('k1::ord, 'k2::ord, 'v) cache_call \<Rightarrow> ('k1, 'k2, 'v) cache_double_map \<times> ('k1 \<times> 'k2, 'v) storage \<Rightarrow>
   'v cache_answer \<times> ('k1, 'k2, 'v) cache_double_map \<times> ('k1 \<times> 'k2, 'v) storage" where
  "cached_step (CallContains k1 k2) (c, s) = (Answer (cdm_contains_key s k1 k2 c) None, c, s)"
| "cached_step (CallGet k1 k2) (c, s) = (case cdm_get s k1 k2 c of (v, c') \<Rightarrow> (Answer True v, c', s))"
| "cached_step (CallGetMut k1 k2 f) (c, s) =
     (case cdm_get_mut s k1 k2 c of
        (None, c') \<Rightarrow> (Answer True None, c', s)
      | (Some v, c') \<Rightarrow> (Answer True (Some v), cdm_write k1 k2 (f v) c', s))"
| "cached_step (CallSet k1 k2 v) (c, s) = (Answer True None, cdm_set k1 k2 v c, s)"
| "cached_step (CallRemove k1 k2) (c, s) = (Answer True None, cdm_remove s k1 k2 c, s)"
| "cached_step CallCommit (c, s) = (Answer True None, cdm_commit c s)"

fun plain_step ::
  "('k1, 'k2, 'v) cache_call \<Rightarrow> ('k1 \<times> 'k2, 'v) storage \<Rightarrow> 'v cache_answer \<times> ('k1 \<times> 'k2, 'v) storage" where
  "plain_step (CallContains k1 k2) s = (Answer (map_of s (k1, k2) \<noteq> None) None, s)"
| "plain_step (CallGet k1 k2) s = (Answer True (map_of s (k1, k2)), s)"
| "plain_step (CallGetMut k1 k2 f) s =
     (Answer True (map_of s (k1, k2)),
      case map_of s (k1, k2) of None \<Rightarrow> s | Some v \<Rightarrow> AList.update (k1, k2) (f v) s)"
| "plain_step (CallSet k1 k2 v) s = (Answer True None, AList.update (k1, k2) v s)"
| "plain_step (CallRemove k1 k2) s = (Answer True None, AList.delete (k1, k2) s)"
| "plain_step CallCommit s = (Answer True None, s)"

fun run_calls :: "('a \<Rightarrow> 's \<Rightarrow> 'b \<times> 's) \<Rightarrow> 'a list \<Rightarrow> 's \<Rightarrow> 'b list \<times> 's" where
  "run_calls step [] s = ([], s)"
| "run_calls step (x # xs) s =
     (case step x s of (b, s1) \<Rightarrow> (case run_calls step xs s1 of (bs, s2) \<Rightarrow> (b # bs, s2)))"

definition cache_sim ::
  "('k1::linorder, 'k2::linorder, 'v) cache_double_map \<times> ('k1 \<times> 'k2, 'v) storage \<Rightarrow>
   ('k1 \<times> 'k2, 'v) storage \<Rightarrow> bool" where
  "cache_sim cs t \<longleftrightarrow>
     id_cache.cdm_ok (snd cs) (fst cs) \<and> (\<forall>k1 k2. cdm_view (snd cs) (fst cs) k1 k2 = map_of t (k1, k2))"

lemma cache_sim_step:
  assumes "cache_sim cs t"
  shows "fst (cached_step x cs) = fst (plain_step x t)"
    "cache_sim (snd (cached_step x cs)) (snd (plain_step x t))"
proof -
  obtain c s where cs: "cs = (c, s)" by (cases cs)
  have ok: "id_cache.cdm_ok s c" and view: "\<And>k1 k2. cdm_view s c k1 k2 = map_of t (k1, k2)"
    using assms by (auto simp: cache_sim_def cs)
  note get = id_cache.cdm_get [OF ok UNIV_I, simplified]
  note get_mut = id_cache.cdm_get_mut [OF ok UNIV_I, simplified]
  note set = id_cache.cdm_set [OF ok UNIV_I, simplified]
  note remove = id_cache.cdm_remove [OF ok UNIV_I, simplified]
  note commit = id_cache.cdm_commit [OF ok prod.collapse [symmetric] UNIV_I]
  have "fst (cached_step x cs) = fst (plain_step x t) \<and>
    cache_sim (snd (cached_step x cs)) (snd (plain_step x t))"
  proof (cases x)
    case (CallContains k1 k2)
    then show ?thesis
      using ok view by (simp add: cs cache_sim_def id_cache.cdm_contains_key_view)
  next
    case (CallGet k1 k2)
    then show ?thesis using view get by (simp add: cs cache_sim_def split_beta)
  next
    case (CallGetMut k1 k2 f)
    obtain r c1 where e: "cdm_get_mut s k1 k2 c = (r, c1)" by fastforce
    have r: "r = map_of t (k1, k2)" and ok1: "id_cache.cdm_ok s c1"
      and view1: "\<And>k1 k2. cdm_view s c1 k1 k2 = map_of t (k1, k2)"
      using get_mut [of k1 k2] view by (auto simp: e)
    note put = id_cache.cdm_write [OF ok1 UNIV_I, simplified]
    show ?thesis
      using put ok1 view1 r
      by (cases "map_of t (k1, k2)") (auto simp: CallGetMut e cs cache_sim_def update_conv')
  next
    case (CallSet k1 k2 v)
    then show ?thesis using view set by (auto simp: cs cache_sim_def update_conv')
  next
    case (CallRemove k1 k2)
    then show ?thesis using view remove by (auto simp: cs cache_sim_def delete_conv')
  next
    case CallCommit
    then show ?thesis using view commit by (simp add: cs cache_sim_def)
  qed
  then show "fst (cached_step x cs) = fst (plain_step x t)"
    "cache_sim (snd (cached_step x cs)) (snd (plain_step x t))" by simp_all
qed

lemma cache_sim_run:
  "cache_sim cs t \<Longrightarrow>
   fst (run_calls cached_step xs cs) = fst (run_calls plain_step xs t) \<and>
   cache_sim (snd (run_calls cached_step xs cs)) (snd (run_calls plain_step xs t))"
proof (induction xs arbitrary: cs t)
  case (Cons x xs)
  show ?case
    using Cons.IH [OF cache_sim_step(2) [OF Cons.prems, of x]] cache_sim_step(1) [OF Cons.prems, of x]
    by (simp add: split_beta)
qed simp



end
