(* ===== verification/Data_Layer.thy ===== *)
theory Data_Layer
  imports Order_Types Cache_Storage
begin

text \<open>
  What the order book asks of its storage: the trait \<open>DataLayer\<close> of
  \<open>pallets/order-book/src/traits.rs\<close> as a record of operations over the state \<open>'d\<close> of an
  implementation, the storage items of the pallet, and the specification of the trait.

  The specification describes an implementation by its \<open>book_view\<close>: the limit orders of each
  book, the queue of order ids at each price of each side, the aggregated volume of each side
  and the order ids of each user. \<open>spec_insert\<close>, \<open>spec_update\<close> and \<open>spec_delete\<close> say what the
  three changing operations do to a view, and \<open>view_inv\<close> is the consistency of the four indices
  that they keep.
\<close>

section \<open>Storage items\<close>

record book_storage =
  LimitOrders :: "(order_book_id \<times> order_id, limit_order) storage"
  Bids :: "(order_book_id \<times> order_price, price_orders) storage"
  Asks :: "(order_book_id \<times> order_price, price_orders) storage"
  AggregatedBids :: "(order_book_id, market_side) storage"
  AggregatedAsks :: "(order_book_id, market_side) storage"
  UserLimitOrders :: "(account_id \<times> order_book_id, user_orders) storage"

section \<open>The trait\<close>

record 'd data_layer =
  dl_get_limit_order :: "order_book_id \<Rightarrow> order_id \<Rightarrow> ('d, dispatch_error, limit_order) run"
  dl_get_all_limit_orders :: "order_book_id \<Rightarrow> 'd \<Rightarrow> limit_order list \<times> 'd"
  dl_insert_limit_order :: "order_book_id \<Rightarrow> limit_order \<Rightarrow> ('d, dispatch_error, unit) run"
  dl_update_limit_order_amount ::
    "order_book_id \<Rightarrow> order_id \<Rightarrow> order_volume \<Rightarrow> ('d, dispatch_error, unit) run"
  dl_delete_limit_order :: "order_book_id \<Rightarrow> order_id \<Rightarrow> ('d, dispatch_error, unit) run"
  dl_get_bids :: "order_book_id \<Rightarrow> order_price \<Rightarrow> 'd \<Rightarrow> price_orders option \<times> 'd"
  dl_is_bid_price_full :: "order_book_id \<Rightarrow> order_price \<Rightarrow> 'd \<Rightarrow> bool option \<times> 'd"
  dl_get_asks :: "order_book_id \<Rightarrow> order_price \<Rightarrow> 'd \<Rightarrow> price_orders option \<times> 'd"
  dl_is_ask_price_full :: "order_book_id \<Rightarrow> order_price \<Rightarrow> 'd \<Rightarrow> bool option \<times> 'd"
  dl_get_aggregated_bids :: "order_book_id \<Rightarrow> 'd \<Rightarrow> market_side \<times> 'd"
  dl_get_aggregated_bids_len :: "order_book_id \<Rightarrow> 'd \<Rightarrow> nat option \<times> 'd"
  dl_best_bid :: "order_book_id \<Rightarrow> 'd \<Rightarrow> (order_price \<times> order_volume) option \<times> 'd"
  dl_get_aggregated_asks :: "order_book_id \<Rightarrow> 'd \<Rightarrow> market_side \<times> 'd"
  dl_get_aggregated_asks_len :: "order_book_id \<Rightarrow> 'd \<Rightarrow> nat option \<times> 'd"
  dl_best_ask :: "order_book_id \<Rightarrow> 'd \<Rightarrow> (order_price \<times> order_volume) option \<times> 'd"
  dl_get_user_limit_orders :: "account_id \<Rightarrow> order_book_id \<Rightarrow> 'd \<Rightarrow> user_orders option \<times> 'd"
  dl_get_all_user_limit_orders :: "account_id \<Rightarrow> 'd \<Rightarrow> (order_book_id, user_orders) btree \<times> 'd"
  dl_is_user_limit_orders_full :: "account_id \<Rightarrow> order_book_id \<Rightarrow> 'd \<Rightarrow> bool option \<times> 'd"

text \<open>The default method of the trait.\<close>

definition get_limit_orders_by_price ::
  "'d data_layer \<Rightarrow> order_book_id \<Rightarrow> price_variant \<Rightarrow> order_price \<Rightarrow> 'd \<Rightarrow> price_orders option \<times> 'd" where
  "get_limit_orders_by_price dl obid side price =
     (case side of
        Buy \<Rightarrow> dl_get_bids dl obid price
      | Sell \<Rightarrow> dl_get_asks dl obid price)"

text \<open>
  \<open>iter().max()\<close> and \<open>iter().min()\<close> over the entries of a market side; entries compare by
  price, then by volume. Of equal entries \<open>max\<close> returns the last and \<open>min\<close> the first.
\<close>

definition entry_less :: "order_price \<times> order_volume \<Rightarrow> order_price \<times> order_volume \<Rightarrow> bool" where
  "entry_less x y \<longleftrightarrow>
     fst x < fst y \<or> \<not> fst y < fst x \<and> snd x < snd y"

fun side_max :: "market_side \<Rightarrow> (order_price \<times> order_volume) option" where
  "side_max [] = None"
| "side_max (x # m) =
     Some (case side_max m of None \<Rightarrow> x | Some y \<Rightarrow> if entry_less y x then x else y)"

fun side_min :: "market_side \<Rightarrow> (order_price \<times> order_volume) option" where
  "side_min [] = None"
| "side_min (x # m) =
     Some (case side_min m of None \<Rightarrow> x | Some y \<Rightarrow> if entry_less y x then y else x)"

text \<open>\<open>BoundedVec::try_push\<close>.\<close>

definition try_push :: "nat \<Rightarrow> 'a \<Rightarrow> 'a list \<Rightarrow> unit + 'a list" where
  "try_push bound x xs = (if length xs < bound then Inr (xs @ [x]) else Inl ())"

section \<open>The abstract book\<close>

record book_view =
  v_orders :: "order_book_id \<Rightarrow> order_id \<Rightarrow> limit_order option"
  v_level :: "price_variant \<Rightarrow> order_book_id \<Rightarrow> order_price \<Rightarrow> price_orders option"
  v_agg :: "price_variant \<Rightarrow> order_book_id \<Rightarrow> market_side"
  v_user :: "account_id \<Rightarrow> order_book_id \<Rightarrow> user_orders option"

definition upd2 :: "('a \<Rightarrow> 'b \<Rightarrow> 'c) \<Rightarrow> 'a \<Rightarrow> 'b \<Rightarrow> 'c \<Rightarrow> 'a \<Rightarrow> 'b \<Rightarrow> 'c" where
  "upd2 f a b c = f(a := (f a)(b := c))"

definition upd3 :: "('a \<Rightarrow> 'b \<Rightarrow> 'c \<Rightarrow> 'e) \<Rightarrow> 'a \<Rightarrow> 'b \<Rightarrow> 'c \<Rightarrow> 'e \<Rightarrow> 'a \<Rightarrow> 'b \<Rightarrow> 'c \<Rightarrow> 'e" where
  "upd3 f a b c e = f(a := upd2 (f a) b c e)"

lemma upd2_apply [simp]: "upd2 f a b c x y = (if x = a \<and> y = b then c else f x y)"
  by (simp add: upd2_def)

lemma upd3_apply [simp]: "upd3 f a b c e x y z = (if x = a \<and> y = b \<and> z = c then e else f x y z)"
  by (simp add: upd3_def)

text \<open>The queue of a price without the order, absent when it was the last one.\<close>

definition drop_id :: "order_id \<Rightarrow> order_id list option \<Rightarrow> order_id list option" where
  "drop_id i q =
     (case q of
        None \<Rightarrow> None
      | Some ids \<Rightarrow> (let ids' = filter (\<lambda>x. x \<noteq> i) ids in if ids' = [] then None else Some ids'))"

definition agg_add :: "nat \<Rightarrow> order_price \<Rightarrow> order_volume \<Rightarrow> market_side \<Rightarrow> market_side option" where
  "agg_add bound price volume m =
     (case bu_checked_add (unwrap_or (bt_get price m) bu_zero) volume of
        None \<Rightarrow> None
      | Some vol \<Rightarrow> ok (bt_try_insert bound price vol m))"

definition agg_sub :: "nat \<Rightarrow> order_price \<Rightarrow> order_volume \<Rightarrow> market_side \<Rightarrow> market_side option" where
  "agg_sub bound price volume m =
     (case bu_checked_sub (unwrap_or (bt_get price m) bu_zero) volume of
        None \<Rightarrow> None
      | Some vol \<Rightarrow>
          if bu_is_zero vol then Some (bt_remove price m)
          else ok (bt_try_insert bound price vol m))"

definition spec_insert ::
  "config \<Rightarrow> order_book_id \<Rightarrow> limit_order \<Rightarrow> book_view \<Rightarrow> dispatch_error + book_view" where
  "spec_insert cfg obid x v =
     (if v_orders v obid (lo_id x) \<noteq> None then Inl LimitOrderAlreadyExists
      else
        map_err (\<lambda>_. LimitOrderStorageOverflow)
          (and_then (try_push (MaxLimitOrdersForPrice cfg) (lo_id x)
                       (unwrap_or (v_level v (lo_side x) obid (lo_price x)) [])) (\<lambda>q.
           and_then (ok_or (agg_add (MaxSidePriceCount cfg) (lo_price x) (lo_amount x)
                       (v_agg v (lo_side x) obid)) ()) (\<lambda>agg.
           and_then (try_push (MaxOpenedLimitOrdersPerUser cfg) (lo_id x)
                       (unwrap_or (v_user v (lo_owner x) obid) [])) (\<lambda>u.
           Inr (v \<lparr> v_orders := upd2 (v_orders v) obid (lo_id x) (Some x),
                    v_level := upd3 (v_level v) (lo_side x) obid (lo_price x) (Some q),
                    v_agg := upd2 (v_agg v) (lo_side x) obid agg,
                    v_user := upd2 (v_user v) (lo_owner x) obid (Some u) \<rparr>))))))"

definition spec_delete ::
  "config \<Rightarrow> order_book_id \<Rightarrow> order_id \<Rightarrow> book_view \<Rightarrow> dispatch_error + book_view" where
  "spec_delete cfg obid i v =
     (case v_orders v obid i of
        None \<Rightarrow> Inl UnknownLimitOrder
      | Some x \<Rightarrow>
          (case agg_sub (MaxSidePriceCount cfg) (lo_price x) (lo_amount x) (v_agg v (lo_side x) obid) of
             None \<Rightarrow> Inl DeleteLimitOrderError
           | Some agg \<Rightarrow>
               if v_user v (lo_owner x) obid = None then Inl DeleteLimitOrderError
               else
                 Inr (v \<lparr> v_orders := upd2 (v_orders v) obid i None,
                          v_level := upd3 (v_level v) (lo_side x) obid (lo_price x)
                            (drop_id (lo_id x) (v_level v (lo_side x) obid (lo_price x))),
                          v_agg := upd2 (v_agg v) (lo_side x) obid agg,
                          v_user := upd2 (v_user v) (lo_owner x) obid
                            (drop_id (lo_id x) (v_user v (lo_owner x) obid)) \<rparr>)))"

definition spec_update ::
  "config \<Rightarrow> order_book_id \<Rightarrow> order_id \<Rightarrow> order_volume \<Rightarrow> book_view \<Rightarrow> dispatch_error + book_view" where
  "spec_update cfg obid i new_amount v =
     (case v_orders v obid i of
        None \<Rightarrow> Inl UnknownLimitOrder
      | Some x \<Rightarrow>
          if new_amount = lo_amount x then Inr v
          else if bu_is_zero new_amount then spec_delete cfg obid i v
          else if \<not> new_amount < lo_amount x then Inl UpdateLimitOrderError
          else
            (case bu_checked_sub (lo_amount x) new_amount of
               None \<Rightarrow> Inl AmountCalculationFailed
             | Some delta \<Rightarrow>
                 (case agg_sub (MaxSidePriceCount cfg) (lo_price x) delta (v_agg v (lo_side x) obid) of
                    None \<Rightarrow> Inl UpdateLimitOrderError
                  | Some agg \<Rightarrow>
                      Inr (v \<lparr> v_orders := upd2 (v_orders v) obid i (Some (x \<lparr> lo_amount := new_amount \<rparr>)),
                               v_agg := upd2 (v_agg v) (lo_side x) obid agg \<rparr>))))"

section \<open>Consistency of the indices\<close>

text \<open>
  \<open>dv\<close> tells whether the base asset of a book is divisible: all volumes of a book are read
  at the same precision.
\<close>

definition order_wf :: "bool \<Rightarrow> limit_order \<Rightarrow> bool" where
  "order_wf d x \<longleftrightarrow>
     is_divisible (lo_price x) \<and> 0 < inner (lo_price x) \<and> inner (lo_price x) \<le> u128_max \<and>
     is_divisible (lo_amount x) = d \<and> 0 < inner (lo_amount x) \<and> inner (lo_amount x) \<le> u128_max"

definition level_volume :: "(order_id \<Rightarrow> limit_order option) \<Rightarrow> order_id list \<Rightarrow> nat" where
  "level_volume orders q = sum_list (map (\<lambda>i. inner (lo_amount (the (orders i)))) q)"

definition level_inv ::
  "config \<Rightarrow> price_variant \<Rightarrow> (order_id \<Rightarrow> limit_order option) \<Rightarrow>
   (order_price \<Rightarrow> order_id list option) \<Rightarrow> bool" where
  "level_inv cfg side orders level \<longleftrightarrow>
     (\<forall>p q. level p = Some q \<longrightarrow>
        is_divisible p \<and> q \<noteq> [] \<and> distinct q \<and> length q \<le> MaxLimitOrdersForPrice cfg \<and>
        (\<forall>i \<in> set q. \<exists>x. orders i = Some x \<and> lo_side x = side \<and> lo_price x = p)) \<and>
     (\<forall>i x. orders i = Some x \<and> lo_side x = side \<longrightarrow>
        (\<exists>q. level (lo_price x) = Some q \<and> i \<in> set q))"

definition agg_wf :: "config \<Rightarrow> market_side \<Rightarrow> bool" where
  "agg_wf cfg agg \<longleftrightarrow>
     sorted_wrt (<) (map (bu_value \<circ> fst) agg) \<and> fst ` set agg \<subseteq> {p. is_divisible p} \<and>
     length agg \<le> MaxSidePriceCount cfg \<and> (\<forall>e \<in> set agg. inner (snd e) \<le> u128_max)"

definition agg_of ::
  "bool \<Rightarrow> (order_id \<Rightarrow> limit_order option) \<Rightarrow> (order_price \<Rightarrow> order_id list option) \<Rightarrow>
   market_side \<Rightarrow> bool" where
  "agg_of d orders level agg \<longleftrightarrow>
     (\<forall>p. is_divisible p \<longrightarrow>
        bt_get p agg = map_option (\<lambda>q. BalanceUnit (level_volume orders q) d) (level p))"

definition side_inv ::
  "config \<Rightarrow> bool \<Rightarrow> price_variant \<Rightarrow> (order_id \<Rightarrow> limit_order option) \<Rightarrow>
   (order_price \<Rightarrow> order_id list option) \<Rightarrow> market_side \<Rightarrow> bool" where
  "side_inv cfg d side orders level agg \<longleftrightarrow>
     level_inv cfg side orders level \<and> agg_wf cfg agg \<and> agg_of d orders level agg"

definition user_inv ::
  "config \<Rightarrow> (order_id \<Rightarrow> limit_order option) \<Rightarrow> (account_id \<Rightarrow> order_id list option) \<Rightarrow> bool" where
  "user_inv cfg orders user \<longleftrightarrow>
     (\<forall>a q. user a = Some q \<longrightarrow>
        q \<noteq> [] \<and> distinct q \<and> length q \<le> MaxOpenedLimitOrdersPerUser cfg \<and>
        (\<forall>i \<in> set q. \<exists>x. orders i = Some x \<and> lo_owner x = a)) \<and>
     (\<forall>i x. orders i = Some x \<longrightarrow> (\<exists>q. user (lo_owner x) = Some q \<and> i \<in> set q))"

definition book_inv :: "config \<Rightarrow> bool \<Rightarrow> order_book_id \<Rightarrow> book_view \<Rightarrow> bool" where
  "book_inv cfg d obid v \<longleftrightarrow>
     (\<forall>i x. v_orders v obid i = Some x \<longrightarrow> lo_id x = i \<and> order_wf d x) \<and>
     finite (dom (v_orders v obid)) \<and>
     (\<forall>side. side_inv cfg d side (v_orders v obid) (v_level v side obid) (v_agg v side obid)) \<and>
     user_inv cfg (v_orders v obid) (\<lambda>a. v_user v a obid)"

definition view_inv :: "config \<Rightarrow> (order_book_id \<Rightarrow> bool) \<Rightarrow> book_view \<Rightarrow> bool" where
  "view_inv cfg dv v \<longleftrightarrow> (\<forall>obid. book_inv cfg (dv obid) obid v)"

section \<open>The operations keep the indices consistent\<close>

lemma price_key_eq:
  "is_divisible p \<Longrightarrow> is_divisible p' \<Longrightarrow> bu_value p = bu_value p' \<longleftrightarrow> p = p'"
  by (simp add: bu_value_inject)

lemma checked_add_same_div:
  "bu_checked_add (BalanceUnit n d) (BalanceUnit m d) = Some z \<longleftrightarrow>
     n + m \<le> u128_max \<and> z = BalanceUnit (n + m) d"
  by (cases d) (auto simp: bu_checked_add_def bu_align_checked_def bu_new_def bal_simps)

lemma checked_add_zero:
  "bu_checked_add bu_zero (BalanceUnit m d) = Some z \<longleftrightarrow> m \<le> u128_max \<and> z = BalanceUnit m d"
  by (cases d)
    (auto simp: bu_checked_add_def bu_align_checked_def bu_new_def bu_zero_def bal_simps
      checked_mul_u_def)

lemma checked_sub_same_div:
  "bu_checked_sub (BalanceUnit n d) (BalanceUnit m d) = Some z \<longleftrightarrow>
     m \<le> n \<and> z = BalanceUnit (n - m) d"
  by (cases d) (auto simp: bu_checked_sub_def bu_align_checked_def bu_new_def bal_simps)

lemma agg_add_Some:
  "agg_add bound p vol m = Some m' \<longleftrightarrow>
     (\<exists>t. bu_checked_add (unwrap_or (bt_get p m) bu_zero) vol = Some t \<and>
          (length m < bound \<or> bt_contains_key p m) \<and> m' = bt_insert p t m)"
  by (auto simp: agg_add_def bt_try_insert_def split: option.splits)

lemma level_volume_cong:
  "i \<notin> set q \<Longrightarrow> level_volume (orders(i := z)) q = level_volume orders q"
  by (auto simp: level_volume_def intro!: arg_cong [where f = sum_list])

lemma level_volume_append:
  "level_volume orders (q @ [i]) = level_volume orders q + inner (lo_amount (the (orders i)))"
  by (simp add: level_volume_def)

lemma level_volume_drop:
  "distinct q \<Longrightarrow> i \<in> set q \<Longrightarrow>
   level_volume orders q =
     inner (lo_amount (the (orders i))) + level_volume orders (filter (\<lambda>x. x \<noteq> i) q)"
proof (induction q)
  case (Cons j q)
  show ?case
  proof (cases "j = i")
    case True
    with Cons.prems have "filter (\<lambda>x. x \<noteq> i) q = q" by (auto simp: filter_id_conv)
    with True show ?thesis by (simp add: level_volume_def)
  next
    case False
    with Cons show ?thesis by (simp add: level_volume_def)
  qed
qed simp

lemma agg_wf_insert:
  assumes "agg_wf cfg agg" "is_divisible p" "inner t \<le> u128_max"
    and room: "length agg < MaxSidePriceCount cfg \<or> bt_contains_key p agg"
  shows "agg_wf cfg (bt_insert p t agg)"
proof -
  have "length (bt_insert p t agg) \<le> MaxSidePriceCount cfg"
  proof (cases "bt_contains_key p agg")
    case True
    then have "length (bt_insert p t agg) = length agg"
      using assms(1)
      by (intro bu_key.bt_insert_length_key) (simp_all add: agg_wf_def bu_key.bt_contains_key_iff)
    with assms(1) show ?thesis by (simp add: agg_wf_def)
  next
    case False
    with room bu_key.bt_insert_length [of p t agg] show ?thesis by simp
  qed
  moreover have "\<forall>e \<in> set (bt_insert p t agg). inner (snd e) \<le> u128_max"
    using assms(1,3) price_cache.set_bt_insert [of p t agg] by (auto simp: agg_wf_def)
  ultimately show ?thesis
    using assms(1,2) price_cache.keys_insert_K [of p agg t]
    by (simp add: agg_wf_def bu_key.bt_insert_sorted)
qed

lemma agg_wf_remove:
  assumes "agg_wf cfg agg" shows "agg_wf cfg (bt_remove p agg)"
proof -
  have "set (bt_remove p agg) \<subseteq> set agg" "length (bt_remove p agg) \<le> length agg"
    by (induction agg) (auto split: if_splits)
  then show ?thesis
    using assms by (auto simp: agg_wf_def bu_key.bt_remove_sorted)
qed

lemma agg_get_insert:
  "is_divisible p \<Longrightarrow> is_divisible p' \<Longrightarrow>
   bt_get p (bt_insert p' t agg) = (if p = p' then Some t else bt_get p agg)"
  by (simp add: bu_key.bt_get_insert price_key_eq)

lemma agg_get_remove:
  "agg_wf cfg agg \<Longrightarrow> is_divisible p \<Longrightarrow> is_divisible p' \<Longrightarrow>
   bt_get p (bt_remove p' agg) = (if p = p' then None else bt_get p agg)"
  by (simp add: agg_wf_def bu_key.bt_get_remove price_key_eq)

lemma level_invD:
  assumes "level_inv cfg side orders level" "level p = Some q"
  shows "is_divisible p" "q \<noteq> []" "distinct q" "length q \<le> MaxLimitOrdersForPrice cfg"
    "i \<in> set q \<Longrightarrow> \<exists>x. orders i = Some x \<and> lo_side x = side \<and> lo_price x = p"
  using assms by (auto simp: level_inv_def)

lemma level_inv_mem:
  "level_inv cfg side orders level \<Longrightarrow> orders i = Some x \<Longrightarrow> lo_side x = side \<Longrightarrow>
   \<exists>q. level (lo_price x) = Some q \<and> i \<in> set q"
  by (simp add: level_inv_def)

lemma level_inv_insert:
  assumes inv: "level_inv cfg side orders level"
    and new: "orders i = None" "is_divisible (lo_price x)" "lo_side x = side"
    and push: "try_push (MaxLimitOrdersForPrice cfg) i (unwrap_or (level (lo_price x)) []) = Inr q"
  shows "level_inv cfg side (orders(i \<mapsto> x)) (level(lo_price x \<mapsto> q))"
proof -
  have q: "q = unwrap_or (level (lo_price x)) [] @ [i]"
    "length (unwrap_or (level (lo_price x)) []) < MaxLimitOrdersForPrice cfg"
    using push by (auto simp: try_push_def split: if_splits)
  have notin: "\<And>p q. level p = Some q \<Longrightarrow> i \<notin> set q"
    using level_invD(5) [OF inv] new(1) by fastforce
  show ?thesis
    unfolding level_inv_def
  proof (intro conjI allI impI)
    fix p r assume r: "(level(lo_price x \<mapsto> q)) p = Some r"
    show "is_divisible p" "r \<noteq> []" "distinct r" "length r \<le> MaxLimitOrdersForPrice cfg"
      using r new(2) q notin level_invD [OF inv]
      by (cases "level (lo_price x)"; cases "p = lo_price x"; auto)+
    show "\<forall>j \<in> set r. \<exists>y. (orders(i \<mapsto> x)) j = Some y \<and> lo_side y = side \<and> lo_price y = p"
      using r q new notin level_invD(5) [OF inv]
      by (cases "level (lo_price x)"; cases "p = lo_price x") fastforce+
  next
    fix j y assume "(orders(i \<mapsto> x)) j = Some y \<and> lo_side y = side"
    then show "\<exists>r. (level(lo_price x \<mapsto> q)) (lo_price y) = Some r \<and> j \<in> set r"
      using level_inv_mem [OF inv, of j y] q by (cases "j = i") (auto split: if_splits)
  qed
qed

lemma side_inv_insert:
  assumes inv: "side_inv cfg d side orders level agg"
    and new: "orders i = None" "order_wf d x" "lo_side x = side"
    and push: "try_push (MaxLimitOrdersForPrice cfg) i (unwrap_or (level (lo_price x)) []) = Inr q"
    and agg: "agg_add (MaxSidePriceCount cfg) (lo_price x) (lo_amount x) agg = Some agg'"
  shows "side_inv cfg d side (orders(i \<mapsto> x)) (level(lo_price x \<mapsto> q)) agg'"
proof -
  let ?p = "lo_price x" and ?o = "orders(i \<mapsto> x)"
  have level: "level_inv cfg side orders level" and wf: "agg_wf cfg agg" and ag: "agg_of d orders level agg"
    using inv by (auto simp: side_inv_def)
  obtain n where amt: "lo_amount x = BalanceUnit n d"
    using new(2) by (cases "lo_amount x") (auto simp: order_wf_def)
  have div: "is_divisible ?p" using new(2) by (simp add: order_wf_def)
  obtain t where t: "bu_checked_add (unwrap_or (bt_get ?p agg) bu_zero) (lo_amount x) = Some t"
    and room: "length agg < MaxSidePriceCount cfg \<or> bt_contains_key ?p agg"
    and agg': "agg' = bt_insert ?p t agg"
    using agg by (auto simp: agg_add_Some)
  have q: "q = unwrap_or (level ?p) [] @ [i]"
    using push by (auto simp: try_push_def split: if_splits)
  have notin: "\<And>p q. level p = Some q \<Longrightarrow> i \<notin> set q"
    using level_invD(5) [OF level] new(1) by fastforce
  have get: "bt_get ?p agg = map_option (\<lambda>q. BalanceUnit (level_volume orders q) d) (level ?p)"
    using ag div by (simp add: agg_of_def)
  have t_eq: "t = BalanceUnit (level_volume ?o q) d \<and> inner t \<le> u128_max"
  proof (cases "level ?p")
    case None
    with t get show ?thesis by (simp add: q amt checked_add_zero level_volume_def)
  next
    case (Some r)
    with t get notin [OF Some] show ?thesis
      by (simp add: q amt checked_add_same_div level_volume_append level_volume_cong)
  qed
  have "agg_of d ?o (level(?p \<mapsto> q)) agg'"
    unfolding agg_of_def
  proof (intro allI impI)
    fix p assume "is_divisible p"
    then show "bt_get p agg' =
        map_option (\<lambda>q. BalanceUnit (level_volume ?o q) d) ((level(?p \<mapsto> q)) p)"
      using ag div t_eq notin
      by (cases "level p") (auto simp: agg_of_def agg' agg_get_insert level_volume_cong)
  qed
  moreover have "agg_wf cfg agg'"
    unfolding agg' using t_eq by (intro agg_wf_insert [OF wf div _ room]) blast
  ultimately show ?thesis
    using level_inv_insert [OF level new(1) div new(3) push] by (simp add: side_inv_def)
qed

text \<open>An order of the other side is invisible to a side.\<close>

lemma side_inv_other:
  assumes "side_inv cfg d side orders level agg"
    and "\<And>x. orders i = Some x \<Longrightarrow> lo_side x \<noteq> side" "\<And>x. z = Some x \<Longrightarrow> lo_side x \<noteq> side"
  shows "side_inv cfg d side (orders(i := z)) level agg"
proof -
  have level: "level_inv cfg side orders level" and ag: "agg_of d orders level agg"
    using assms(1) by (auto simp: side_inv_def)
  have notin: "\<And>p q. level p = Some q \<Longrightarrow> i \<notin> set q"
    using level_invD(5) [OF level] assms(2) by fastforce
  have "level_inv cfg side (orders(i := z)) level"
    unfolding level_inv_def
  proof (intro conjI allI impI)
    fix p q assume q: "level p = Some q"
    show "is_divisible p" "q \<noteq> []" "distinct q" "length q \<le> MaxLimitOrdersForPrice cfg"
      using level_invD [OF level q] by auto
    show "\<forall>j \<in> set q. \<exists>y. (orders(i := z)) j = Some y \<and> lo_side y = side \<and> lo_price y = p"
      using level_invD(5) [OF level q] notin [OF q] by auto
  next
    fix j y assume "(orders(i := z)) j = Some y \<and> lo_side y = side"
    then show "\<exists>q. level (lo_price y) = Some q \<and> j \<in> set q"
      using level_inv_mem [OF level, of j y] assms(3) by (cases "j = i") auto
  qed
  moreover have "agg_of d (orders(i := z)) level agg"
    using ag notin by (auto simp: agg_of_def level_volume_cong intro!: option.map_cong0)
  ultimately show ?thesis using assms(1) by (simp add: side_inv_def)
qed

lemma agg_sub_result:
  assumes wf: "agg_wf cfg agg" and div: "is_divisible p"
    and get: "bt_get p agg = Some (BalanceUnit t d)" and le: "n \<le> t"
  obtains agg' where "agg_sub (MaxSidePriceCount cfg) p (BalanceUnit n d) agg = Some agg'" "agg_wf cfg agg'"
    "\<And>p'. is_divisible p' \<Longrightarrow> bt_get p' agg' =
       (if p' = p then (if t = n then None else Some (BalanceUnit (t - n) d)) else bt_get p' agg)"
proof -
  have sub: "bu_checked_sub (BalanceUnit t d) (BalanceUnit n d) = Some (BalanceUnit (t - n) d)"
    using le by (simp add: checked_sub_same_div)
  have key: "bt_contains_key p agg" using get by (simp add: bt_contains_key_def)
  show thesis
  proof (cases "t = n")
    case True
    show thesis
      by (rule that [of "bt_remove p agg"])
        (use wf div True sub in \<open>auto simp: agg_sub_def get bu_is_zero_def agg_wf_remove agg_get_remove\<close>)
  next
    case False
    have "t \<le> u128_max"
      using bu_key.bt_get_Some_in [OF get] wf by (force simp: agg_wf_def)
    then have "agg_wf cfg (bt_insert p (BalanceUnit (t - n) d) agg)"
      by (intro agg_wf_insert [OF wf div]) (use key in auto)
    then show thesis
      by (intro that [of "bt_insert p (BalanceUnit (t - n) d) agg"])
        (use div False le key in
          \<open>auto simp: agg_sub_def get sub bu_is_zero_def bt_try_insert_def agg_get_insert\<close>)
  qed
qed

lemma level_inv_delete:
  assumes inv: "level_inv cfg side orders level" and x: "orders i = Some x" "lo_side x = side"
  shows "level_inv cfg side (orders(i := None)) (level(lo_price x := drop_id i (level (lo_price x))))"
proof -
  let ?level = "level(lo_price x := drop_id i (level (lo_price x)))"
  have uniq: "p = lo_price x" if "level p = Some q" "i \<in> set q" for p q
    using level_invD(5) [OF inv that] x(1) by simp
  have sub: "\<exists>r. level p = Some r \<and> q = filter (\<lambda>j. j \<noteq> i) r \<and> q \<noteq> []" if "?level p = Some q" for p q
  proof (cases "p = lo_price x")
    case True
    with that show ?thesis by (auto simp: drop_id_def Let_def split: option.splits if_splits)
  next
    case False
    with that have l: "level p = Some q" by simp
    with False uniq have "i \<notin> set q" by blast
    then have "filter (\<lambda>j. j \<noteq> i) q = q" by (auto simp: filter_id_conv)
    with l level_invD(2) [OF inv l] show ?thesis by simp
  qed
  show ?thesis
    unfolding level_inv_def
  proof (intro conjI allI impI)
    fix p q assume "?level p = Some q"
    then obtain r where r: "level p = Some r" "q = filter (\<lambda>j. j \<noteq> i) r" "q \<noteq> []" using sub by blast
    note d = level_invD [OF inv r(1)]
    show "is_divisible p" "q \<noteq> []" "distinct q" using d r by auto
    show "length q \<le> MaxLimitOrdersForPrice cfg"
      using d(4) r(2) by (metis le_trans length_filter_le)
    show "\<forall>j \<in> set q. \<exists>y. (orders(i := None)) j = Some y \<and> lo_side y = side \<and> lo_price y = p"
      using d(5) r(2) by auto
  next
    fix j y assume j: "(orders(i := None)) j = Some y \<and> lo_side y = side"
    then obtain q where q: "level (lo_price y) = Some q" "j \<in> set q" "j \<noteq> i"
      using level_inv_mem [OF inv, of j y] by (auto split: if_splits)
    then have "j \<in> set (filter (\<lambda>j. j \<noteq> i) q)" by simp
    then have "filter (\<lambda>j. j \<noteq> i) q \<noteq> []" by (metis empty_iff empty_set)
    with q show "\<exists>q. ?level (lo_price y) = Some q \<and> j \<in> set q"
      by (auto simp: drop_id_def Let_def)
  qed
qed

lemma side_inv_delete:
  assumes inv: "side_inv cfg d side orders level agg"
    and x: "orders i = Some x" "lo_side x = side" and wf: "\<And>j y. orders j = Some y \<Longrightarrow> order_wf d y"
  obtains agg' where
    "agg_sub (MaxSidePriceCount cfg) (lo_price x) (lo_amount x) agg = Some agg'"
    "side_inv cfg d side (orders(i := None)) (level(lo_price x := drop_id i (level (lo_price x)))) agg'"
proof -
  let ?p = "lo_price x"
  have level: "level_inv cfg side orders level" and awf: "agg_wf cfg agg" and ag: "agg_of d orders level agg"
    using inv by (auto simp: side_inv_def)
  obtain n where amt: "lo_amount x = BalanceUnit n d"
    using wf [OF x(1)] by (cases "lo_amount x") (auto simp: order_wf_def)
  obtain q where q: "level ?p = Some q" "i \<in> set q" using level_inv_mem [OF level x] by blast
  note lq = level_invD [OF level q(1)]
  let ?r = "filter (\<lambda>j. j \<noteq> i) q"
  have vol: "level_volume orders q = n + level_volume orders ?r"
    using level_volume_drop [OF lq(3) q(2)] x(1) amt by simp
  have get: "bt_get ?p agg = Some (BalanceUnit (level_volume orders q) d)"
    using ag lq(1) q(1) by (simp add: agg_of_def)
  obtain agg' where agg': "agg_sub (MaxSidePriceCount cfg) ?p (BalanceUnit n d) agg = Some agg'"
    "agg_wf cfg agg'"
    and gets: "\<And>p'. is_divisible p' \<Longrightarrow> bt_get p' agg' =
       (if p' = ?p then (if level_volume orders q = n then None
          else Some (BalanceUnit (level_volume orders q - n) d)) else bt_get p' agg)"
    by (rule agg_sub_result [OF awf lq(1) get, of n]) (use vol in auto)
  have empty: "?r = [] \<longleftrightarrow> level_volume orders ?r = 0"
  proof
    assume zero: "level_volume orders ?r = 0"
    have "inner (lo_amount (the (orders j))) = 0" if "j \<in> set ?r" for j
      using zero that unfolding level_volume_def by (simp only: sum_list_eq_0_iff) auto
    moreover have "0 < inner (lo_amount (the (orders j)))" if "j \<in> set ?r" for j
      using that lq(5) [of j] wf by (auto simp: order_wf_def)
    ultimately show "?r = []" by (metis all_not_in_conv less_irrefl set_empty)
  qed (simp add: level_volume_def)
  have notin: "i \<notin> set r" if "level p = Some r" "p \<noteq> ?p" for p r
    using level_invD(5) [OF level that(1)] that(2) x(1) by fastforce
  have "agg_of d (orders(i := None)) (level(?p := drop_id i (level ?p))) agg'"
    unfolding agg_of_def
  proof (intro allI impI)
    fix p assume p: "is_divisible p"
    show "bt_get p agg' = map_option (\<lambda>q. BalanceUnit (level_volume (orders(i := None)) q) d)
        ((level(?p := drop_id i (level ?p))) p)"
    proof (cases "p = ?p")
      case True
      then show ?thesis
        using gets [OF p] vol empty q(1)
        by (auto simp: drop_id_def Let_def level_volume_cong)
    next
      case False
      then show ?thesis
        using gets [OF p] ag p notin
        by (cases "level p") (auto simp: agg_of_def level_volume_cong)
    qed
  qed
  with that [of agg'] agg' level_inv_delete [OF level x] show thesis
    by (simp add: side_inv_def amt)
qed

lemma level_volume_upd:
  "distinct q \<Longrightarrow> i \<in> set q \<Longrightarrow> orders i = Some x \<Longrightarrow> inner a \<le> inner (lo_amount x) \<Longrightarrow>
   level_volume (orders(i \<mapsto> x \<lparr> lo_amount := a \<rparr>)) q =
     level_volume orders q - (inner (lo_amount x) - inner a)"
  using level_volume_drop [of q i orders] level_volume_drop [of q i "orders(i \<mapsto> x \<lparr> lo_amount := a \<rparr>)"]
  by (simp add: level_volume_cong)

lemma level_inv_update:
  assumes "level_inv cfg side orders level" "orders i = Some x" "lo_side y = lo_side x"
    "lo_price y = lo_price x"
  shows "level_inv cfg side (orders(i \<mapsto> y)) level"
  using assms unfolding level_inv_def by (auto split: if_splits) fastforce+

lemma side_inv_update:
  assumes inv: "side_inv cfg d side orders level agg"
    and x: "orders i = Some x" "lo_side x = side" "order_wf d x"
    and a: "0 < m" "BalanceUnit m d < lo_amount x"
  obtains agg' where
    "agg_sub (MaxSidePriceCount cfg) (lo_price x) (BalanceUnit (inner (lo_amount x) - m) d) agg = Some agg'"
    "side_inv cfg d side (orders(i \<mapsto> x \<lparr> lo_amount := BalanceUnit m d \<rparr>)) level agg'"
proof -
  let ?p = "lo_price x" and ?y = "x \<lparr> lo_amount := BalanceUnit m d \<rparr>"
  have level: "level_inv cfg side orders level" and awf: "agg_wf cfg agg" and ag: "agg_of d orders level agg"
    using inv by (auto simp: side_inv_def)
  have lt: "m < inner (lo_amount x)"
    using a(2) x(3) by (auto simp: bu_less_value bu_value_def order_wf_def split: if_splits)
  obtain q where q: "level ?p = Some q" "i \<in> set q" using level_inv_mem [OF level x(1,2)] by blast
  note lq = level_invD [OF level q(1)]
  have ge: "inner (lo_amount x) \<le> level_volume orders q"
    using level_volume_drop [OF lq(3) q(2), of orders] x(1) by simp
  have get: "bt_get ?p agg = Some (BalanceUnit (level_volume orders q) d)"
    using ag lq(1) q(1) by (simp add: agg_of_def)
  obtain agg' where agg': "agg_sub (MaxSidePriceCount cfg) ?p (BalanceUnit (inner (lo_amount x) - m) d) agg = Some agg'"
    "agg_wf cfg agg'"
    and gets: "\<And>p'. is_divisible p' \<Longrightarrow> bt_get p' agg' =
       (if p' = ?p then (if level_volume orders q = inner (lo_amount x) - m then None
          else Some (BalanceUnit (level_volume orders q - (inner (lo_amount x) - m)) d)) else bt_get p' agg)"
    by (rule agg_sub_result [OF awf lq(1) get, of "inner (lo_amount x) - m"]) (use ge in auto)
  have notin: "i \<notin> set r" if "level p = Some r" "p \<noteq> ?p" for p r
    using level_invD(5) [OF level that(1)] that(2) x(1) by fastforce
  have "agg_of d (orders(i \<mapsto> ?y)) level agg'"
    unfolding agg_of_def
  proof (intro allI impI)
    fix p assume p: "is_divisible p"
    show "bt_get p agg' = map_option (\<lambda>q. BalanceUnit (level_volume (orders(i \<mapsto> ?y)) q) d) (level p)"
    proof (cases "p = ?p")
      case True
      then show ?thesis
        using gets [OF p] q(1) lt ge a(1) level_volume_upd [OF lq(3) q(2), of orders x "BalanceUnit m d"] x(1)
        by auto
    next
      case False
      then show ?thesis
        using gets [OF p] ag p notin
        by (cases "level p") (auto simp: agg_of_def level_volume_cong)
    qed
  qed
  moreover have "level_inv cfg side (orders(i \<mapsto> ?y)) level"
    by (rule level_inv_update [OF level x(1)]) simp_all
  ultimately show thesis
    using that [of agg'] agg' by (simp add: side_inv_def)
qed

text \<open>The user index.\<close>

lemma user_inv_insert:
  assumes inv: "user_inv cfg orders user" and new: "orders i = None"
    and push: "try_push (MaxOpenedLimitOrdersPerUser cfg) i (unwrap_or (user (lo_owner x)) []) = Inr q"
  shows "user_inv cfg (orders(i \<mapsto> x)) (user(lo_owner x \<mapsto> q))"
proof -
  have q: "q = unwrap_or (user (lo_owner x)) [] @ [i]"
    "length (unwrap_or (user (lo_owner x)) []) < MaxOpenedLimitOrdersPerUser cfg"
    using push by (auto simp: try_push_def split: if_splits)
  have notin: "i \<notin> set r" if "user a = Some r" for a r
    using inv that new unfolding user_inv_def by fastforce
  show ?thesis
    using inv q notin new unfolding user_inv_def
    by (cases "user (lo_owner x)") (auto split: if_splits, fastforce+)
qed

lemma user_inv_delete:
  assumes inv: "user_inv cfg orders user" and x: "orders i = Some x"
  shows "user_inv cfg (orders(i := None)) (user(lo_owner x := drop_id i (user (lo_owner x))))"
proof -
  let ?user = "user(lo_owner x := drop_id i (user (lo_owner x)))"
  have sub: "\<exists>r. user a = Some r \<and> set q = set r - {i} \<and> q \<noteq> [] \<and> distinct q \<and> length q \<le> length r"
    if "?user a = Some q" for a q
  proof (cases "a = lo_owner x")
    case True
    with that inv show ?thesis
      unfolding user_inv_def
      by (auto simp: drop_id_def Let_def length_filter_le split: option.splits if_splits)
  next
    case False
    with that have u: "user a = Some q" by simp
    with inv have "i \<notin> set q" "q \<noteq> []" "distinct q"
      using False x unfolding user_inv_def by fastforce+
    with u show ?thesis by auto
  qed
  show ?thesis
    unfolding user_inv_def
  proof (intro conjI allI impI)
    fix a q assume "?user a = Some q"
    then obtain r where r: "user a = Some r" "set q = set r - {i}" "q \<noteq> []" "distinct q"
      "length q \<le> length r" using sub by blast
    then show "q \<noteq> []" "distinct q" by auto
    show "length q \<le> MaxOpenedLimitOrdersPerUser cfg"
      using inv r(1,5) unfolding user_inv_def by (meson le_trans)
    show "\<forall>j \<in> set q. \<exists>y. (orders(i := None)) j = Some y \<and> lo_owner y = a"
      using inv r(1,2) unfolding user_inv_def by fastforce
  next
    fix j y assume j: "(orders(i := None)) j = Some y"
    then have "orders j = Some y" "j \<noteq> i" by (auto split: if_splits)
    then obtain r where r: "user (lo_owner y) = Some r" "j \<in> set r" "j \<noteq> i"
      using inv unfolding user_inv_def by blast
    then have "j \<in> set (filter (\<lambda>j. j \<noteq> i) r)" by simp
    then have "filter (\<lambda>j. j \<noteq> i) r \<noteq> []" by (metis empty_iff empty_set)
    with r show "\<exists>q. ?user (lo_owner y) = Some q \<and> j \<in> set q"
      by (auto simp: drop_id_def Let_def)
  qed
qed

lemma user_inv_update:
  "user_inv cfg orders user \<Longrightarrow> orders i = Some x \<Longrightarrow> lo_owner y = lo_owner x \<Longrightarrow>
   user_inv cfg (orders(i \<mapsto> y)) user"
  unfolding user_inv_def by (auto split: if_splits) fastforce+

text \<open>The three operations on a whole view.\<close>

lemma book_invD:
  assumes "book_inv cfg d obid v"
  shows "v_orders v obid i = Some x \<Longrightarrow> lo_id x = i" "v_orders v obid i = Some x \<Longrightarrow> order_wf d x"
    "finite (dom (v_orders v obid))"
    "side_inv cfg d side (v_orders v obid) (v_level v side obid) (v_agg v side obid)"
    "user_inv cfg (v_orders v obid) (\<lambda>a. v_user v a obid)"
  using assms by (auto simp: book_inv_def)

lemma book_inv_frame:
  assumes "book_inv cfg d obid v" "v_orders v' obid = v_orders v obid"
    "\<And>side. v_level v' side obid = v_level v side obid" "\<And>side. v_agg v' side obid = v_agg v side obid"
    "\<And>a. v_user v' a obid = v_user v a obid"
  shows "book_inv cfg d obid v'"
  using assms by (simp add: book_inv_def)

lemma spec_insert_Inr:
  "spec_insert cfg obid x v = Inr v' \<longleftrightarrow>
     v_orders v obid (lo_id x) = None \<and>
     (\<exists>q agg u.
        try_push (MaxLimitOrdersForPrice cfg) (lo_id x)
          (unwrap_or (v_level v (lo_side x) obid (lo_price x)) []) = Inr q \<and>
        agg_add (MaxSidePriceCount cfg) (lo_price x) (lo_amount x) (v_agg v (lo_side x) obid) = Some agg \<and>
        try_push (MaxOpenedLimitOrdersPerUser cfg) (lo_id x)
          (unwrap_or (v_user v (lo_owner x) obid) []) = Inr u \<and>
        v' = v \<lparr> v_orders := upd2 (v_orders v) obid (lo_id x) (Some x),
                 v_level := upd3 (v_level v) (lo_side x) obid (lo_price x) (Some q),
                 v_agg := upd2 (v_agg v) (lo_side x) obid agg,
                 v_user := upd2 (v_user v) (lo_owner x) obid (Some u) \<rparr>)"
  by (auto simp: spec_insert_def run_simps)

lemma upd2_row: "upd2 f a b c a = (f a)(b := c)"
  by (simp add: upd2_def)

lemma upd3_row: "upd3 f a b c e a b = (f a b)(c := e)"
  by (simp add: upd3_def upd2_def)

theorem spec_insert_inv:
  assumes inv: "view_inv cfg dv v" and wf: "order_wf (dv obid) x"
    and run: "spec_insert cfg obid x v = Inr v'"
  shows "view_inv cfg dv v'"
proof -
  obtain q agg u where new: "v_orders v obid (lo_id x) = None"
    and q: "try_push (MaxLimitOrdersForPrice cfg) (lo_id x)
          (unwrap_or (v_level v (lo_side x) obid (lo_price x)) []) = Inr q"
    and agg: "agg_add (MaxSidePriceCount cfg) (lo_price x) (lo_amount x) (v_agg v (lo_side x) obid) = Some agg"
    and u: "try_push (MaxOpenedLimitOrdersPerUser cfg) (lo_id x)
          (unwrap_or (v_user v (lo_owner x) obid) []) = Inr u"
    and v': "v' = v \<lparr> v_orders := upd2 (v_orders v) obid (lo_id x) (Some x),
                 v_level := upd3 (v_level v) (lo_side x) obid (lo_price x) (Some q),
                 v_agg := upd2 (v_agg v) (lo_side x) obid agg,
                 v_user := upd2 (v_user v) (lo_owner x) obid (Some u) \<rparr>"
    using run by (auto simp: spec_insert_Inr)
  have b: "book_inv cfg (dv obid') obid' v" for obid' using inv by (simp add: view_inv_def)
  note d = book_invD [OF b [of obid]]
  have "side_inv cfg (dv obid) side (v_orders v' obid) (v_level v' side obid) (v_agg v' side obid)" for side
  proof (cases "side = lo_side x")
    case True
    then show ?thesis
      using side_inv_insert [OF d(4) new wf refl q agg] by (simp add: v' upd2_row upd3_row)
  next
    case False
    then have "v_level v' side obid = v_level v side obid" "v_agg v' side obid = v_agg v side obid"
      by (auto simp: v' fun_eq_iff)
    then show ?thesis
      using side_inv_other [OF d(4) [of side], of "lo_id x" "Some x"] new False by (simp add: v' upd2_row)
  qed
  moreover have "user_inv cfg (v_orders v' obid) (\<lambda>a. v_user v' a obid)"
    using user_inv_insert [OF d(5) new u] by (simp add: v' upd2_row fun_upd_def)
  moreover have "\<forall>i y. v_orders v' obid i = Some y \<longrightarrow> lo_id y = i \<and> order_wf (dv obid) y"
    using d(1,2) wf by (auto simp: v')
  moreover have "finite (dom (v_orders v' obid))"
    using d(3) by (simp add: v' upd2_row)
  ultimately have "book_inv cfg (dv obid) obid v'"
    by (simp add: book_inv_def)
  moreover have "book_inv cfg (dv obid') obid' v'" if "obid' \<noteq> obid" for obid'
    by (rule book_inv_frame [OF b]) (use that in \<open>auto simp: v' fun_eq_iff\<close>)
  ultimately show ?thesis by (metis view_inv_def)
qed

text \<open>Under the invariant a deletion of a present order always succeeds.\<close>

lemma spec_delete_Inr:
  assumes inv: "view_inv cfg dv v" and x: "v_orders v obid i = Some x"
  obtains agg where
    "spec_delete cfg obid i v =
       Inr (v \<lparr> v_orders := upd2 (v_orders v) obid i None,
                v_level := upd3 (v_level v) (lo_side x) obid (lo_price x)
                  (drop_id i (v_level v (lo_side x) obid (lo_price x))),
                v_agg := upd2 (v_agg v) (lo_side x) obid agg,
                v_user := upd2 (v_user v) (lo_owner x) obid (drop_id i (v_user v (lo_owner x) obid)) \<rparr>)"
    "side_inv cfg (dv obid) (lo_side x) ((v_orders v obid)(i := None))
       ((v_level v (lo_side x) obid)(lo_price x := drop_id i (v_level v (lo_side x) obid (lo_price x)))) agg"
proof -
  have b: "book_inv cfg (dv obid) obid v" using inv by (simp add: view_inv_def)
  note d = book_invD [OF b]
  obtain agg where agg:
    "agg_sub (MaxSidePriceCount cfg) (lo_price x) (lo_amount x) (v_agg v (lo_side x) obid) = Some agg"
    "side_inv cfg (dv obid) (lo_side x) ((v_orders v obid)(i := None))
       ((v_level v (lo_side x) obid)(lo_price x := drop_id i (v_level v (lo_side x) obid (lo_price x)))) agg"
    by (rule side_inv_delete [OF d(4) x refl d(2)])
  have "v_user v (lo_owner x) obid \<noteq> None"
    using d(5) x unfolding user_inv_def by fastforce
  then have "spec_delete cfg obid i v =
       Inr (v \<lparr> v_orders := upd2 (v_orders v) obid i None,
                v_level := upd3 (v_level v) (lo_side x) obid (lo_price x)
                  (drop_id i (v_level v (lo_side x) obid (lo_price x))),
                v_agg := upd2 (v_agg v) (lo_side x) obid agg,
                v_user := upd2 (v_user v) (lo_owner x) obid (drop_id i (v_user v (lo_owner x) obid)) \<rparr>)"
    using agg(1) x d(1) [OF x] by (simp add: spec_delete_def)
  with agg(2) that show thesis by blast
qed

theorem spec_delete_inv:
  assumes inv: "view_inv cfg dv v" and run: "spec_delete cfg obid i v = Inr v'"
  shows "view_inv cfg dv v'"
proof -
  obtain x where x: "v_orders v obid i = Some x"
    using run by (auto simp: spec_delete_def split: option.splits)
  obtain agg where v': "v' = v \<lparr> v_orders := upd2 (v_orders v) obid i None,
                v_level := upd3 (v_level v) (lo_side x) obid (lo_price x)
                  (drop_id i (v_level v (lo_side x) obid (lo_price x))),
                v_agg := upd2 (v_agg v) (lo_side x) obid agg,
                v_user := upd2 (v_user v) (lo_owner x) obid (drop_id i (v_user v (lo_owner x) obid)) \<rparr>"
    and side: "side_inv cfg (dv obid) (lo_side x) ((v_orders v obid)(i := None))
       ((v_level v (lo_side x) obid)(lo_price x := drop_id i (v_level v (lo_side x) obid (lo_price x)))) agg"
    using spec_delete_Inr [OF inv x] run by (metis sum.inject(2))
  have b: "book_inv cfg (dv obid') obid' v" for obid' using inv by (simp add: view_inv_def)
  note d = book_invD [OF b [of obid]]
  have "side_inv cfg (dv obid) s (v_orders v' obid) (v_level v' s obid) (v_agg v' s obid)" for s
  proof (cases "s = lo_side x")
    case True
    with side show ?thesis by (simp add: v' upd2_row upd3_row)
  next
    case False
    then have "v_level v' s obid = v_level v s obid" "v_agg v' s obid = v_agg v s obid"
      by (auto simp: v' fun_eq_iff)
    then show ?thesis
      using side_inv_other [OF d(4) [of s], of i None] x False by (simp add: v' upd2_row)
  qed
  moreover have "user_inv cfg (v_orders v' obid) (\<lambda>a. v_user v' a obid)"
    using user_inv_delete [OF d(5) x] by (simp add: v' upd2_row fun_upd_def)
  moreover have "\<forall>i y. v_orders v' obid i = Some y \<longrightarrow> lo_id y = i \<and> order_wf (dv obid) y"
    using d(1,2) by (auto simp: v')
  moreover have "finite (dom (v_orders v' obid))"
    using d(3) by (simp add: v' upd2_row)
  ultimately have "book_inv cfg (dv obid) obid v'"
    by (simp add: book_inv_def)
  moreover have "book_inv cfg (dv obid') obid' v'" if "obid' \<noteq> obid" for obid'
    by (rule book_inv_frame [OF b]) (use that in \<open>auto simp: v' fun_eq_iff\<close>)
  ultimately show ?thesis by (metis view_inv_def)
qed

text \<open>A proper reduction of the amount also succeeds; only the amount and its volume change.\<close>

lemma spec_update_Inr:
  assumes inv: "view_inv cfg dv v" and x: "v_orders v obid i = Some x"
    and a: "0 < m" "BalanceUnit m (dv obid) < lo_amount x"
  obtains agg where
    "spec_update cfg obid i (BalanceUnit m (dv obid)) v =
       Inr (v \<lparr> v_orders := upd2 (v_orders v) obid i (Some (x \<lparr> lo_amount := BalanceUnit m (dv obid) \<rparr>)),
                v_agg := upd2 (v_agg v) (lo_side x) obid agg \<rparr>)"
    "side_inv cfg (dv obid) (lo_side x)
       ((v_orders v obid)(i \<mapsto> x \<lparr> lo_amount := BalanceUnit m (dv obid) \<rparr>))
       (v_level v (lo_side x) obid) agg"
proof -
  have b: "book_inv cfg (dv obid) obid v" using inv by (simp add: view_inv_def)
  note d = book_invD [OF b]
  have wf: "order_wf (dv obid) x" using d(2) [OF x] .
  obtain agg where agg:
    "agg_sub (MaxSidePriceCount cfg) (lo_price x) (BalanceUnit (inner (lo_amount x) - m) (dv obid))
       (v_agg v (lo_side x) obid) = Some agg"
    "side_inv cfg (dv obid) (lo_side x)
       ((v_orders v obid)(i \<mapsto> x \<lparr> lo_amount := BalanceUnit m (dv obid) \<rparr>))
       (v_level v (lo_side x) obid) agg"
    by (rule side_inv_update [OF d(4) x refl wf a])
  have amt: "lo_amount x = BalanceUnit (inner (lo_amount x)) (dv obid)"
    using wf by (simp add: order_wf_def bu_eq_iff)
  have lt: "m < inner (lo_amount x)"
    using a(2) wf by (auto simp: bu_less_value bu_value_def order_wf_def split: if_splits)
  have "bu_checked_sub (lo_amount x) (BalanceUnit m (dv obid)) =
      Some (BalanceUnit (inner (lo_amount x) - m) (dv obid))"
    using lt by (subst amt) (simp add: checked_sub_same_div)
  then have "spec_update cfg obid i (BalanceUnit m (dv obid)) v =
       Inr (v \<lparr> v_orders := upd2 (v_orders v) obid i (Some (x \<lparr> lo_amount := BalanceUnit m (dv obid) \<rparr>)),
                v_agg := upd2 (v_agg v) (lo_side x) obid agg \<rparr>)"
    using x agg(1) a lt by (auto simp: spec_update_def bu_is_zero_def)
  with agg(2) that show thesis by blast
qed

theorem spec_update_inv:
  assumes inv: "view_inv cfg dv v" and div: "is_divisible a = dv obid"
    and run: "spec_update cfg obid i a v = Inr v'"
  shows "view_inv cfg dv v'"
proof -
  obtain x where x: "v_orders v obid i = Some x"
    using run by (auto simp: spec_update_def split: option.splits)
  consider "a = lo_amount x" | "bu_is_zero a" "a \<noteq> lo_amount x"
    | "a < lo_amount x" "\<not> bu_is_zero a" "a \<noteq> lo_amount x"
    using run x by (auto simp: spec_update_def split: if_splits)
  then show ?thesis
  proof cases
    case 1
    with run x inv show ?thesis by (simp add: spec_update_def)
  next
    case 2
    with run x spec_delete_inv [OF inv] show ?thesis by (simp add: spec_update_def)
  next
    case 3
    obtain m where a: "a = BalanceUnit m (dv obid)" using div by (cases a) simp
    have m: "0 < m" "BalanceUnit m (dv obid) < lo_amount x" using 3 a by (auto simp: bu_is_zero_def)
    let ?y = "x \<lparr> lo_amount := BalanceUnit m (dv obid) \<rparr>"
    obtain agg where v': "v' = v \<lparr> v_orders := upd2 (v_orders v) obid i (Some ?y),
                v_agg := upd2 (v_agg v) (lo_side x) obid agg \<rparr>"
      and side: "side_inv cfg (dv obid) (lo_side x) ((v_orders v obid)(i \<mapsto> ?y))
         (v_level v (lo_side x) obid) agg"
      using spec_update_Inr [OF inv x m] run a by (metis sum.inject(2))
    have b: "book_inv cfg (dv obid') obid' v" for obid' using inv by (simp add: view_inv_def)
    note d = book_invD [OF b [of obid]]
    have wf: "order_wf (dv obid) ?y" "lo_id ?y = i"
      using d(1,2) [OF x] m
      by (auto simp: order_wf_def bu_less_value bu_value_def split: if_splits)
    have "side_inv cfg (dv obid) s (v_orders v' obid) (v_level v' s obid) (v_agg v' s obid)" for s
    proof (cases "s = lo_side x")
      case True
      with side show ?thesis by (simp add: v' upd2_row)
    next
      case False
      then show ?thesis
        using side_inv_other [OF d(4) [of s], of i "Some ?y"] x by (simp add: v' upd2_row)
    qed
    moreover have "user_inv cfg (v_orders v' obid) (\<lambda>a. v_user v' a obid)"
      using user_inv_update [OF d(5) x, of ?y] by (simp add: v' upd2_row)
    moreover have "\<forall>i y. v_orders v' obid i = Some y \<longrightarrow> lo_id y = i \<and> order_wf (dv obid) y"
      using d(1,2) wf by (auto simp: v')
    moreover have "finite (dom (v_orders v' obid))"
      using d(3) by (simp add: v' upd2_row)
    ultimately have "book_inv cfg (dv obid) obid v'" by (simp add: book_inv_def)
    moreover have "book_inv cfg (dv obid') obid' v'" if "obid' \<noteq> obid" for obid'
      by (rule book_inv_frame [OF b]) (use that in \<open>auto simp: v' fun_eq_iff\<close>)
    ultimately show ?thesis by (metis view_inv_def)
  qed
qed

lemma present_agg:
  assumes "view_inv cfg dv v" "v_orders v obid i = Some x"
  shows "bt_get (lo_price x) (v_agg v (lo_side x) obid) \<noteq> None"
proof -
  have b: "book_inv cfg (dv obid) obid v" using assms(1) by (simp add: view_inv_def)
  have side: "side_inv cfg (dv obid) (lo_side x) (v_orders v obid) (v_level v (lo_side x) obid) (v_agg v (lo_side x) obid)"
    and wf: "order_wf (dv obid) x"
    using book_invD(4) [OF b] book_invD(2) [OF b assms(2)] by auto
  then obtain q where "v_level v (lo_side x) obid (lo_price x) = Some q"
    using level_inv_mem assms(2) by (fastforce simp: side_inv_def)
  with side wf show ?thesis by (simp add: side_inv_def agg_of_def order_wf_def)
qed

section \<open>The contract of an implementation\<close>

text \<open>A read returns the value and changes at most what is cached.\<close>

definition reads :: "('d \<Rightarrow> bool) \<Rightarrow> ('d \<Rightarrow> book_view) \<Rightarrow> ('d \<Rightarrow> 'a \<times> 'd) \<Rightarrow> 'a \<Rightarrow> 'd \<Rightarrow> bool" where
  "reads coh view f r d \<longleftrightarrow> fst (f d) = r \<and> coh (snd (f d)) \<and> view (snd (f d)) = view d"

text \<open>A write does what its specification does to the view, and fails when that fails.\<close>

definition writes ::
  "('d \<Rightarrow> bool) \<Rightarrow> ('d \<Rightarrow> book_view) \<Rightarrow> ('d, dispatch_error, unit) run \<Rightarrow>
   (book_view \<Rightarrow> dispatch_error + book_view) \<Rightarrow> 'd \<Rightarrow> bool" where
  "writes coh view f spec d \<longleftrightarrow>
     coh (snd (f d)) \<and>
     (case spec (view d) of
        Inl e \<Rightarrow> fst (f d) = Inl e
      | Inr v \<Rightarrow> fst (f d) = Inr () \<and> view (snd (f d)) = v)"

definition lists_orders :: "(order_id \<Rightarrow> limit_order option) \<Rightarrow> limit_order list \<Rightarrow> bool" where
  "lists_orders orders xs \<longleftrightarrow>
     (\<exists>ids. distinct ids \<and> set ids = dom orders \<and> xs = map (\<lambda>i. the (orders i)) ids)"

locale DataLayer =
  fixes cfg :: config
    and dl :: "'d data_layer"
    and view :: "'d \<Rightarrow> book_view"
    and coh :: "'d \<Rightarrow> bool"
  assumes get_limit_order:
    "coh d \<Longrightarrow> reads coh view (dl_get_limit_order dl obid i) (ok_or (v_orders (view d) obid i) UnknownLimitOrder) d"
  and get_all_limit_orders:
    "coh d \<Longrightarrow> finite (dom (v_orders (view d) obid)) \<Longrightarrow>
     \<exists>xs. reads coh view (dl_get_all_limit_orders dl obid) xs d \<and> lists_orders (v_orders (view d) obid) xs"
  and insert_limit_order:
    "coh d \<Longrightarrow> view_inv cfg dv (view d) \<Longrightarrow> order_wf (dv obid) x \<Longrightarrow>
     writes coh view (dl_insert_limit_order dl obid x) (spec_insert cfg obid x) d"
  and update_limit_order_amount:
    "coh d \<Longrightarrow> view_inv cfg dv (view d) \<Longrightarrow> is_divisible a = dv obid \<Longrightarrow>
     writes coh view (dl_update_limit_order_amount dl obid i a) (spec_update cfg obid i a) d"
  and delete_limit_order:
    "coh d \<Longrightarrow> view_inv cfg dv (view d) \<Longrightarrow>
     writes coh view (dl_delete_limit_order dl obid i) (spec_delete cfg obid i) d"
  and get_bids:
    "coh d \<Longrightarrow> is_divisible p \<Longrightarrow> reads coh view (dl_get_bids dl obid p) (v_level (view d) Buy obid p) d"
  and get_asks:
    "coh d \<Longrightarrow> is_divisible p \<Longrightarrow> reads coh view (dl_get_asks dl obid p) (v_level (view d) Sell obid p) d"
  and is_bid_price_full:
    "coh d \<Longrightarrow> is_divisible p \<Longrightarrow> reads coh view (dl_is_bid_price_full dl obid p)
       (map_option (\<lambda>q. MaxLimitOrdersForPrice cfg \<le> length q) (v_level (view d) Buy obid p)) d"
  and is_ask_price_full:
    "coh d \<Longrightarrow> is_divisible p \<Longrightarrow> reads coh view (dl_is_ask_price_full dl obid p)
       (map_option (\<lambda>q. MaxLimitOrdersForPrice cfg \<le> length q) (v_level (view d) Sell obid p)) d"
  and get_aggregated_bids:
    "coh d \<Longrightarrow> reads coh view (dl_get_aggregated_bids dl obid) (v_agg (view d) Buy obid) d"
  and get_aggregated_asks:
    "coh d \<Longrightarrow> reads coh view (dl_get_aggregated_asks dl obid) (v_agg (view d) Sell obid) d"
  and get_aggregated_bids_len:
    "coh d \<Longrightarrow> \<exists>n. reads coh view (dl_get_aggregated_bids_len dl obid) n d \<and>
       unwrap_or n 0 = length (v_agg (view d) Buy obid)"
  and get_aggregated_asks_len:
    "coh d \<Longrightarrow> \<exists>n. reads coh view (dl_get_aggregated_asks_len dl obid) n d \<and>
       unwrap_or n 0 = length (v_agg (view d) Sell obid)"
  and best_bid:
    "coh d \<Longrightarrow> reads coh view (dl_best_bid dl obid) (side_max (v_agg (view d) Buy obid)) d"
  and best_ask:
    "coh d \<Longrightarrow> reads coh view (dl_best_ask dl obid) (side_min (v_agg (view d) Sell obid)) d"
  and get_user_limit_orders:
    "coh d \<Longrightarrow> reads coh view (dl_get_user_limit_orders dl acc obid) (v_user (view d) acc obid) d"
  and is_user_limit_orders_full:
    "coh d \<Longrightarrow> reads coh view (dl_is_user_limit_orders_full dl acc obid)
       (map_option (\<lambda>q. MaxOpenedLimitOrdersPerUser cfg \<le> length q) (v_user (view d) acc obid)) d"
  and get_all_user_limit_orders:
    "coh d \<Longrightarrow> \<exists>m. reads coh view (dl_get_all_user_limit_orders dl acc) m d \<and>
       sorted_wrt (<) (map fst m) \<and> (\<forall>obid. bt_get obid m = v_user (view d) acc obid)"

end
