(* ===== verification/Storage_Data_Layer.thy ===== *)
theory Storage_Data_Layer
  imports Data_Layer
begin

text \<open>
  \<open>pallets/order-book/src/storage_data_layer.rs\<close>: the data layer that works directly on the
  storage items. A \<open>mutate\<close> writes its value back even when the closure fails, so a failed
  change of an aggregated side still stores the side it read.
\<close>

section \<open>StorageDataLayer\<close>

definition sl_remove_from_bids :: "order_book_id \<Rightarrow> limit_order \<Rightarrow> (book_storage, unit, unit) run" where
  "sl_remove_from_bids obid x s =
     (case map_of (Bids s) (obid, lo_price x) of
        None \<Rightarrow> (Inr (), s)
      | Some bids \<Rightarrow>
          let bids' = filter (\<lambda>i. i \<noteq> lo_id x) bids in
          if bids' = [] then (Inr (), s \<lparr> Bids := AList.delete (obid, lo_price x) (Bids s) \<rparr>)
          else (Inr (), s \<lparr> Bids := AList.update (obid, lo_price x) bids' (Bids s) \<rparr>))"

definition sl_remove_from_asks :: "order_book_id \<Rightarrow> limit_order \<Rightarrow> (book_storage, unit, unit) run" where
  "sl_remove_from_asks obid x s =
     (case map_of (Asks s) (obid, lo_price x) of
        None \<Rightarrow> (Inr (), s)
      | Some asks \<Rightarrow>
          let asks' = filter (\<lambda>i. i \<noteq> lo_id x) asks in
          if asks' = [] then (Inr (), s \<lparr> Asks := AList.delete (obid, lo_price x) (Asks s) \<rparr>)
          else (Inr (), s \<lparr> Asks := AList.update (obid, lo_price x) asks' (Asks s) \<rparr>))"

definition sl_add_to_aggregated_bids ::
  "config \<Rightarrow> order_book_id \<Rightarrow> order_price \<Rightarrow> order_volume \<Rightarrow> (book_storage, unit, unit) run" where
  "sl_add_to_aggregated_bids cfg obid price v s =
     (let bids = unwrap_or (map_of (AggregatedBids s) obid) [];
          write = (\<lambda>m. s \<lparr> AggregatedBids := AList.update obid m (AggregatedBids s) \<rparr>)
      in case bu_checked_add (unwrap_or (bt_get price bids) bu_zero) v of
           None \<Rightarrow> (Inl (), write bids)
         | Some volume \<Rightarrow>
             (case bt_try_insert (MaxSidePriceCount cfg) price volume bids of
                Inl _ \<Rightarrow> (Inl (), write bids)
              | Inr bids' \<Rightarrow> (Inr (), write bids')))"

definition sl_sub_from_aggregated_bids ::
  "config \<Rightarrow> order_book_id \<Rightarrow> order_price \<Rightarrow> order_volume \<Rightarrow> (book_storage, unit, unit) run" where
  "sl_sub_from_aggregated_bids cfg obid price v s =
     (let agg_bids = unwrap_or (map_of (AggregatedBids s) obid) [];
          write = (\<lambda>m. s \<lparr> AggregatedBids := AList.update obid m (AggregatedBids s) \<rparr>)
      in case bt_get price agg_bids of
           None \<Rightarrow> (Inl (), write agg_bids)
         | Some current \<Rightarrow>
             (case bu_checked_sub current v of
                None \<Rightarrow> (Inl (), write agg_bids)
              | Some volume \<Rightarrow>
                  if bu_is_zero volume then
                    (if bt_contains_key price agg_bids then (Inr (), write (bt_remove price agg_bids))
                     else (Inl (), write agg_bids))
                  else
                    (case bt_try_insert (MaxSidePriceCount cfg) price volume agg_bids of
                       Inl _ \<Rightarrow> (Inl (), write agg_bids)
                     | Inr m \<Rightarrow> (Inr (), write m))))"

definition sl_add_to_aggregated_asks ::
  "config \<Rightarrow> order_book_id \<Rightarrow> order_price \<Rightarrow> order_volume \<Rightarrow> (book_storage, unit, unit) run" where
  "sl_add_to_aggregated_asks cfg obid price v s =
     (let asks = unwrap_or (map_of (AggregatedAsks s) obid) [];
          write = (\<lambda>m. s \<lparr> AggregatedAsks := AList.update obid m (AggregatedAsks s) \<rparr>)
      in case bu_checked_add (unwrap_or (bt_get price asks) bu_zero) v of
           None \<Rightarrow> (Inl (), write asks)
         | Some volume \<Rightarrow>
             (case bt_try_insert (MaxSidePriceCount cfg) price volume asks of
                Inl _ \<Rightarrow> (Inl (), write asks)
              | Inr asks' \<Rightarrow> (Inr (), write asks')))"

definition sl_sub_from_aggregated_asks ::
  "config \<Rightarrow> order_book_id \<Rightarrow> order_price \<Rightarrow> order_volume \<Rightarrow> (book_storage, unit, unit) run" where
  "sl_sub_from_aggregated_asks cfg obid price v s =
     (let agg_asks = unwrap_or (map_of (AggregatedAsks s) obid) [];
          write = (\<lambda>m. s \<lparr> AggregatedAsks := AList.update obid m (AggregatedAsks s) \<rparr>)
      in case bt_get price agg_asks of
           None \<Rightarrow> (Inl (), write agg_asks)
         | Some current \<Rightarrow>
             (case bu_checked_sub current v of
                None \<Rightarrow> (Inl (), write agg_asks)
              | Some volume \<Rightarrow>
                  if bu_is_zero volume then
                    (if bt_contains_key price agg_asks then (Inr (), write (bt_remove price agg_asks))
                     else (Inl (), write agg_asks))
                  else
                    (case bt_try_insert (MaxSidePriceCount cfg) price volume agg_asks of
                       Inl _ \<Rightarrow> (Inl (), write agg_asks)
                     | Inr m \<Rightarrow> (Inr (), write m))))"

definition sl_get_limit_order ::
  "order_book_id \<Rightarrow> order_id \<Rightarrow> (book_storage, dispatch_error, limit_order) run" where
  "sl_get_limit_order obid i s = (ok_or (map_of (LimitOrders s) (obid, i)) UnknownLimitOrder, s)"

definition sl_get_all_limit_orders :: "order_book_id \<Rightarrow> book_storage \<Rightarrow> limit_order list \<times> book_storage" where
  "sl_get_all_limit_orders obid s = (map snd (iter_prefix (LimitOrders s) obid), s)"

text \<open>\<open>try_append\<close> of the three bounded vectors.\<close>

definition sl_append_bids :: "config \<Rightarrow> order_book_id \<Rightarrow> order_price \<Rightarrow> order_id \<Rightarrow> (book_storage, unit, unit) run" where
  "sl_append_bids cfg obid price i s =
     (case try_push (MaxLimitOrdersForPrice cfg) i (unwrap_or (map_of (Bids s) (obid, price)) []) of
        Inl _ \<Rightarrow> (Inl (), s)
      | Inr q \<Rightarrow> (Inr (), s \<lparr> Bids := AList.update (obid, price) q (Bids s) \<rparr>))"

definition sl_append_asks :: "config \<Rightarrow> order_book_id \<Rightarrow> order_price \<Rightarrow> order_id \<Rightarrow> (book_storage, unit, unit) run" where
  "sl_append_asks cfg obid price i s =
     (case try_push (MaxLimitOrdersForPrice cfg) i (unwrap_or (map_of (Asks s) (obid, price)) []) of
        Inl _ \<Rightarrow> (Inl (), s)
      | Inr q \<Rightarrow> (Inr (), s \<lparr> Asks := AList.update (obid, price) q (Asks s) \<rparr>))"

definition sl_append_user :: "config \<Rightarrow> account_id \<Rightarrow> order_book_id \<Rightarrow> order_id \<Rightarrow> (book_storage, unit, unit) run" where
  "sl_append_user cfg owner obid i s =
     (case try_push (MaxOpenedLimitOrdersPerUser cfg) i (unwrap_or (map_of (UserLimitOrders s) (owner, obid)) []) of
        Inl _ \<Rightarrow> (Inl (), s)
      | Inr q \<Rightarrow> (Inr (), s \<lparr> UserLimitOrders := AList.update (owner, obid) q (UserLimitOrders s) \<rparr>))"

definition sl_insert_limit_order ::
  "config \<Rightarrow> order_book_id \<Rightarrow> limit_order \<Rightarrow> (book_storage, dispatch_error, unit) run" where
  "sl_insert_limit_order cfg obid x s =
     (if map_of (LimitOrders s) (obid, lo_id x) \<noteq> None then (Inl LimitOrderAlreadyExists, s)
      else
        sbind
          (smap_err (\<lambda>_. LimitOrderStorageOverflow)
             (case lo_side x of
                Buy \<Rightarrow>
                  sbind (sl_append_bids cfg obid (lo_price x) (lo_id x)) (\<lambda>_.
                  sl_add_to_aggregated_bids cfg obid (lo_price x) (lo_amount x))
              | Sell \<Rightarrow>
                  sbind (sl_append_asks cfg obid (lo_price x) (lo_id x)) (\<lambda>_.
                  sl_add_to_aggregated_asks cfg obid (lo_price x) (lo_amount x)))) (\<lambda>_.
        sbind (smap_err (\<lambda>_. LimitOrderStorageOverflow) (sl_append_user cfg (lo_owner x) obid (lo_id x))) (\<lambda>_.
        smodify (\<lambda>s. s \<lparr> LimitOrders := AList.update (obid, lo_id x) x (LimitOrders s) \<rparr>))) s)"

definition sl_delete_limit_order ::
  "config \<Rightarrow> order_book_id \<Rightarrow> order_id \<Rightarrow> (book_storage, dispatch_error, unit) run" where
  "sl_delete_limit_order cfg obid i s =
     (case map_of (LimitOrders s) (obid, i) of
        None \<Rightarrow> (Inl UnknownLimitOrder, s)
      | Some x \<Rightarrow>
          let s1 = s \<lparr> LimitOrders := AList.delete (obid, i) (LimitOrders s) \<rparr> in
          (case map_of (UserLimitOrders s1) (lo_owner x, obid) of
             None \<Rightarrow> (Inl DeleteLimitOrderError, s1)
           | Some user_orders \<Rightarrow>
               let user' = filter (\<lambda>j. j \<noteq> lo_id x) user_orders;
                   s2 = (if user' = []
                         then s1 \<lparr> UserLimitOrders := AList.delete (lo_owner x, obid) (UserLimitOrders s1) \<rparr>
                         else s1 \<lparr> UserLimitOrders := AList.update (lo_owner x, obid) user' (UserLimitOrders s1) \<rparr>)
               in smap_err (\<lambda>_. DeleteLimitOrderError)
                    (case lo_side x of
                       Buy \<Rightarrow>
                         sbind (sl_remove_from_bids obid x) (\<lambda>_.
                         sl_sub_from_aggregated_bids cfg obid (lo_price x) (lo_amount x))
                     | Sell \<Rightarrow>
                         sbind (sl_remove_from_asks obid x) (\<lambda>_.
                         sl_sub_from_aggregated_asks cfg obid (lo_price x) (lo_amount x))) s2))"

definition sl_update_limit_order_amount ::
  "config \<Rightarrow> order_book_id \<Rightarrow> order_id \<Rightarrow> order_volume \<Rightarrow> (book_storage, dispatch_error, unit) run" where
  "sl_update_limit_order_amount cfg obid i new_amount s =
     (case map_of (LimitOrders s) (obid, i) of
        None \<Rightarrow> (Inl UnknownLimitOrder, s)
      | Some x \<Rightarrow>
          if new_amount = lo_amount x then (Inr (), s)
          else if bu_is_zero new_amount then sl_delete_limit_order cfg obid i s
          else
            sbind (slift (ensure (new_amount < lo_amount x) UpdateLimitOrderError)) (\<lambda>_.
            sbind (slift (ok_or (bu_checked_sub (lo_amount x) new_amount) AmountCalculationFailed)) (\<lambda>delta.
            sbind
              (smap_err (\<lambda>_. UpdateLimitOrderError)
                 (case lo_side x of
                    Buy \<Rightarrow> sl_sub_from_aggregated_bids cfg obid (lo_price x) delta
                  | Sell \<Rightarrow> sl_sub_from_aggregated_asks cfg obid (lo_price x) delta)) (\<lambda>_.
            smodify (\<lambda>s. s \<lparr> LimitOrders :=
              AList.update (obid, i) (x \<lparr> lo_amount := new_amount \<rparr>) (LimitOrders s) \<rparr>)))) s)"

definition storage_data_layer :: "config \<Rightarrow> book_storage data_layer" where
  "storage_data_layer cfg =
     \<lparr> dl_get_limit_order = sl_get_limit_order,
       dl_get_all_limit_orders = sl_get_all_limit_orders,
       dl_insert_limit_order = sl_insert_limit_order cfg,
       dl_update_limit_order_amount = sl_update_limit_order_amount cfg,
       dl_delete_limit_order = sl_delete_limit_order cfg,
       dl_get_bids = (\<lambda>obid p s. (map_of (Bids s) (obid, p), s)),
       dl_is_bid_price_full =
         (\<lambda>obid p s. (map_option (\<lambda>q. MaxLimitOrdersForPrice cfg \<le> length q) (map_of (Bids s) (obid, p)), s)),
       dl_get_asks = (\<lambda>obid p s. (map_of (Asks s) (obid, p), s)),
       dl_is_ask_price_full =
         (\<lambda>obid p s. (map_option (\<lambda>q. MaxLimitOrdersForPrice cfg \<le> length q) (map_of (Asks s) (obid, p)), s)),
       dl_get_aggregated_bids = (\<lambda>obid s. (unwrap_or (map_of (AggregatedBids s) obid) [], s)),
       dl_get_aggregated_bids_len = (\<lambda>obid s. (map_option length (map_of (AggregatedBids s) obid), s)),
       dl_best_bid = (\<lambda>obid s. (side_max (unwrap_or (map_of (AggregatedBids s) obid) []), s)),
       dl_get_aggregated_asks = (\<lambda>obid s. (unwrap_or (map_of (AggregatedAsks s) obid) [], s)),
       dl_get_aggregated_asks_len = (\<lambda>obid s. (map_option length (map_of (AggregatedAsks s) obid), s)),
       dl_best_ask = (\<lambda>obid s. (side_min (unwrap_or (map_of (AggregatedAsks s) obid) []), s)),
       dl_get_user_limit_orders = (\<lambda>a obid s. (map_of (UserLimitOrders s) (a, obid), s)),
       dl_get_all_user_limit_orders = (\<lambda>a s. (bt_from_list (iter_prefix (UserLimitOrders s) a), s)),
       dl_is_user_limit_orders_full =
         (\<lambda>a obid s. (map_option (\<lambda>q. MaxOpenedLimitOrdersPerUser cfg \<le> length q)
            (map_of (UserLimitOrders s) (a, obid)), s)) \<rparr>"

section \<open>It implements the specification\<close>

definition storage_view :: "book_storage \<Rightarrow> book_view" where
  "storage_view s =
     \<lparr> v_orders = (\<lambda>obid i. map_of (LimitOrders s) (obid, i)),
       v_level = (\<lambda>side obid p. map_of (case side of Buy \<Rightarrow> Bids s | Sell \<Rightarrow> Asks s) (obid, p)),
       v_agg = (\<lambda>side obid. unwrap_or (map_of (case side of Buy \<Rightarrow> AggregatedBids s | Sell \<Rightarrow> AggregatedAsks s) obid) []),
       v_user = (\<lambda>a obid. map_of (UserLimitOrders s) (a, obid)) \<rparr>"

definition storage_ok :: "book_storage \<Rightarrow> bool" where
  "storage_ok s \<longleftrightarrow>
     distinct (map fst (LimitOrders s)) \<and> distinct (map fst (Bids s)) \<and> distinct (map fst (Asks s)) \<and>
     distinct (map fst (AggregatedBids s)) \<and> distinct (map fst (AggregatedAsks s)) \<and>
     distinct (map fst (UserLimitOrders s)) \<and>
     snd ` fst ` set (Bids s) \<subseteq> {p. is_divisible p} \<and> snd ` fst ` set (Asks s) \<subseteq> {p. is_divisible p}"

lemmas alist_simps = update_conv' delete_conv' distinct_update distinct_delete

lemma keys_update_divisible:
  "snd ` fst ` set m \<subseteq> {p. is_divisible p} \<Longrightarrow> is_divisible p \<Longrightarrow>
   snd ` fst ` set (AList.update (obid, p) q m) \<subseteq> {p. is_divisible p}"
  by (simp add: dom_update)

lemma keys_delete_divisible:
  "snd ` fst ` set m \<subseteq> {p. is_divisible p} \<Longrightarrow>
   snd ` fst ` set (AList.delete k m) \<subseteq> {p. is_divisible p}"
  by (auto simp: AList.delete_eq)

lemma storage_view_simps [simp]:
  "v_orders (storage_view s) obid i = map_of (LimitOrders s) (obid, i)"
  "v_level (storage_view s) Buy obid p = map_of (Bids s) (obid, p)"
  "v_level (storage_view s) Sell obid p = map_of (Asks s) (obid, p)"
  "v_agg (storage_view s) Buy obid = unwrap_or (map_of (AggregatedBids s) obid) []"
  "v_agg (storage_view s) Sell obid = unwrap_or (map_of (AggregatedAsks s) obid) []"
  "v_user (storage_view s) a obid = map_of (UserLimitOrders s) (a, obid)"
  by (simp_all add: storage_view_def)

text \<open>What replacing one storage item does to the view.\<close>

lemma view_write:
  "storage_view (s \<lparr> LimitOrders := lo \<rparr>) =
     (storage_view s) \<lparr> v_orders := (\<lambda>obid i. map_of lo (obid, i)) \<rparr>"
  "storage_view (s \<lparr> Bids := qs \<rparr>) =
     (storage_view s) \<lparr> v_level := (v_level (storage_view s))(Buy := (\<lambda>obid p. map_of qs (obid, p))) \<rparr>"
  "storage_view (s \<lparr> Asks := qs \<rparr>) =
     (storage_view s) \<lparr> v_level := (v_level (storage_view s))(Sell := (\<lambda>obid p. map_of qs (obid, p))) \<rparr>"
  "storage_view (s \<lparr> AggregatedBids := ms \<rparr>) =
     (storage_view s) \<lparr> v_agg := (v_agg (storage_view s))(Buy := (\<lambda>obid. unwrap_or (map_of ms obid) [])) \<rparr>"
  "storage_view (s \<lparr> AggregatedAsks := ms \<rparr>) =
     (storage_view s) \<lparr> v_agg := (v_agg (storage_view s))(Sell := (\<lambda>obid. unwrap_or (map_of ms obid) [])) \<rparr>"
  "storage_view (s \<lparr> UserLimitOrders := us \<rparr>) =
     (storage_view s) \<lparr> v_user := (\<lambda>a obid. map_of us (a, obid)) \<rparr>"
  by (auto simp: storage_view_def fun_eq_iff split: price_variant.splits)

lemma ok_write:
  assumes "storage_ok s"
  shows "distinct (map fst lo) \<Longrightarrow> storage_ok (s \<lparr> LimitOrders := lo \<rparr>)"
    "distinct (map fst qs) \<Longrightarrow> snd ` fst ` set qs \<subseteq> {p. is_divisible p} \<Longrightarrow> storage_ok (s \<lparr> Bids := qs \<rparr>)"
    "distinct (map fst qs) \<Longrightarrow> snd ` fst ` set qs \<subseteq> {p. is_divisible p} \<Longrightarrow> storage_ok (s \<lparr> Asks := qs \<rparr>)"
    "distinct (map fst ms) \<Longrightarrow> storage_ok (s \<lparr> AggregatedBids := ms \<rparr>)"
    "distinct (map fst ms) \<Longrightarrow> storage_ok (s \<lparr> AggregatedAsks := ms \<rparr>)"
    "distinct (map fst us) \<Longrightarrow> storage_ok (s \<lparr> UserLimitOrders := us \<rparr>)"
  using assms by (simp_all add: storage_ok_def)

lemma ok_items:
  assumes "storage_ok s"
  shows "distinct (map fst (LimitOrders s))" "distinct (map fst (Bids s))" "distinct (map fst (Asks s))"
    "distinct (map fst (AggregatedBids s))" "distinct (map fst (AggregatedAsks s))"
    "distinct (map fst (UserLimitOrders s))"
    "snd ` fst ` set (Bids s) \<subseteq> {p. is_divisible p}" "snd ` fst ` set (Asks s) \<subseteq> {p. is_divisible p}"
  using assms by (simp_all add: storage_ok_def)

lemma upd_views:
  "(\<lambda>a b. map_of (AList.update (a', b') x m) (a, b)) = upd2 (\<lambda>a b. map_of m (a, b)) a' b' (Some x)"
  "(\<lambda>a b. map_of (AList.delete (a', b') m) (a, b)) = upd2 (\<lambda>a b. map_of m (a, b)) a' b' None"
  "(\<lambda>b. unwrap_or (map_of (AList.update b' y m') b) []) = (\<lambda>b. unwrap_or (map_of m' b) [])(b' := y)"
  by (auto simp: fun_eq_iff alist_simps)

lemma view_rows:
  "(\<lambda>obid i. map_of (LimitOrders s) (obid, i)) = v_orders (storage_view s)"
  "(\<lambda>obid p. map_of (Bids s) (obid, p)) = v_level (storage_view s) Buy"
  "(\<lambda>obid p. map_of (Asks s) (obid, p)) = v_level (storage_view s) Sell"
  "(\<lambda>obid. unwrap_or (map_of (AggregatedBids s) obid) []) = v_agg (storage_view s) Buy"
  "(\<lambda>obid. unwrap_or (map_of (AggregatedAsks s) obid) []) = v_agg (storage_view s) Sell"
  "(\<lambda>a obid. map_of (UserLimitOrders s) (a, obid)) = v_user (storage_view s)"
  by (simp_all add: storage_view_def)

lemma upd_rows:
  "f(a := upd2 (f a) b c e) = upd3 f a b c e"
  "g(a := (g a)(b := h)) = upd2 g a b h"
  by (simp_all add: upd3_def upd2_def)

lemmas view_simps = view_write upd_views view_rows upd_rows
lemmas ok_simps' = ok_write ok_items distinct_update distinct_delete keys_update_divisible keys_delete_divisible

lemma sl_add_to_aggregated:
  "sl_add_to_aggregated_bids cfg obid p a s =
     (case agg_add (MaxSidePriceCount cfg) p a (v_agg (storage_view s) Buy obid) of
        None \<Rightarrow> (Inl (), s \<lparr> AggregatedBids := AList.update obid (v_agg (storage_view s) Buy obid) (AggregatedBids s) \<rparr>)
      | Some m \<Rightarrow> (Inr (), s \<lparr> AggregatedBids := AList.update obid m (AggregatedBids s) \<rparr>))"
  "sl_add_to_aggregated_asks cfg obid p a s =
     (case agg_add (MaxSidePriceCount cfg) p a (v_agg (storage_view s) Sell obid) of
        None \<Rightarrow> (Inl (), s \<lparr> AggregatedAsks := AList.update obid (v_agg (storage_view s) Sell obid) (AggregatedAsks s) \<rparr>)
      | Some m \<Rightarrow> (Inr (), s \<lparr> AggregatedAsks := AList.update obid m (AggregatedAsks s) \<rparr>))"
  by (simp_all add: sl_add_to_aggregated_bids_def sl_add_to_aggregated_asks_def agg_add_def Let_def
      split: option.splits sum.splits)

lemma sl_sub_from_aggregated:
  "bt_get p (v_agg (storage_view s) Buy obid) \<noteq> None \<Longrightarrow>
   sl_sub_from_aggregated_bids cfg obid p a s =
     (case agg_sub (MaxSidePriceCount cfg) p a (v_agg (storage_view s) Buy obid) of
        None \<Rightarrow> (Inl (), s \<lparr> AggregatedBids := AList.update obid (v_agg (storage_view s) Buy obid) (AggregatedBids s) \<rparr>)
      | Some m \<Rightarrow> (Inr (), s \<lparr> AggregatedBids := AList.update obid m (AggregatedBids s) \<rparr>))"
  "bt_get p (v_agg (storage_view s) Sell obid) \<noteq> None \<Longrightarrow>
   sl_sub_from_aggregated_asks cfg obid p a s =
     (case agg_sub (MaxSidePriceCount cfg) p a (v_agg (storage_view s) Sell obid) of
        None \<Rightarrow> (Inl (), s \<lparr> AggregatedAsks := AList.update obid (v_agg (storage_view s) Sell obid) (AggregatedAsks s) \<rparr>)
      | Some m \<Rightarrow> (Inr (), s \<lparr> AggregatedAsks := AList.update obid m (AggregatedAsks s) \<rparr>))"
  by (auto simp: sl_sub_from_aggregated_bids_def sl_sub_from_aggregated_asks_def agg_sub_def Let_def
      bt_contains_key_def split: option.splits sum.splits)

lemma sl_insert_writes:
  assumes ok: "storage_ok s" and wf: "order_wf d x"
  shows "writes storage_ok storage_view (sl_insert_limit_order cfg obid x) (spec_insert cfg obid x) s"
proof -
  have div: "is_divisible (lo_price x)" using wf by (simp add: order_wf_def)
  show ?thesis
    using ok div
    by (cases "lo_side x")
      (auto simp: writes_def spec_insert_def sl_insert_limit_order_def sl_append_bids_def
        sl_append_asks_def sl_append_user_def sbind_def smap_err_def smodify_def sl_add_to_aggregated
        view_simps ok_simps' split: sum.splits option.splits intro!: book_view.equality)
qed

lemma sl_remove_from:
  assumes "storage_ok s" "is_divisible (lo_price x)"
  shows "\<exists>t. sl_remove_from_bids obid x s = (Inr (), t) \<and> storage_ok t \<and>
     storage_view t = (storage_view s) \<lparr> v_level := upd3 (v_level (storage_view s)) Buy obid (lo_price x)
        (drop_id (lo_id x) (v_level (storage_view s) Buy obid (lo_price x))) \<rparr>"
    "\<exists>t. sl_remove_from_asks obid x s = (Inr (), t) \<and> storage_ok t \<and>
     storage_view t = (storage_view s) \<lparr> v_level := upd3 (v_level (storage_view s)) Sell obid (lo_price x)
        (drop_id (lo_id x) (v_level (storage_view s) Sell obid (lo_price x))) \<rparr>"
proof -
  have same: "upd3 f a b c (f a b c) = f" for f :: "price_variant \<Rightarrow> order_book_id \<Rightarrow> order_price \<Rightarrow> price_orders option" and a b c
    by (auto simp: fun_eq_iff)
  have noop: "drop_id i None = None" for i by (simp add: drop_id_def)
  show "\<exists>t. sl_remove_from_bids obid x s = (Inr (), t) \<and> storage_ok t \<and>
     storage_view t = (storage_view s) \<lparr> v_level := upd3 (v_level (storage_view s)) Buy obid (lo_price x)
        (drop_id (lo_id x) (v_level (storage_view s) Buy obid (lo_price x))) \<rparr>"
  proof (cases "map_of (Bids s) (obid, lo_price x)")
    case None
    then have "v_level (storage_view s) Buy obid (lo_price x) = None" by simp
    with None assms(1) same [of "v_level (storage_view s)" Buy obid "lo_price x"] show ?thesis
      by (simp add: sl_remove_from_bids_def noop)
  next
    case (Some q)
    with assms show ?thesis
      by (auto simp: sl_remove_from_bids_def drop_id_def Let_def view_simps ok_simps')
  qed
  show "\<exists>t. sl_remove_from_asks obid x s = (Inr (), t) \<and> storage_ok t \<and>
     storage_view t = (storage_view s) \<lparr> v_level := upd3 (v_level (storage_view s)) Sell obid (lo_price x)
        (drop_id (lo_id x) (v_level (storage_view s) Sell obid (lo_price x))) \<rparr>"
  proof (cases "map_of (Asks s) (obid, lo_price x)")
    case None
    then have "v_level (storage_view s) Sell obid (lo_price x) = None" by simp
    with None assms(1) same [of "v_level (storage_view s)" Sell obid "lo_price x"] show ?thesis
      by (simp add: sl_remove_from_asks_def noop)
  next
    case (Some q)
    with assms show ?thesis
      by (auto simp: sl_remove_from_asks_def drop_id_def Let_def view_simps ok_simps')
  qed
qed

lemma sl_sub_from_aggregated_Some:
  assumes "storage_ok s" "bt_get p (v_agg (storage_view s) side obid) \<noteq> None"
    "agg_sub (MaxSidePriceCount cfg) p a (v_agg (storage_view s) side obid) = Some m"
  shows "\<exists>t. (case side of Buy \<Rightarrow> sl_sub_from_aggregated_bids cfg obid p a
      | Sell \<Rightarrow> sl_sub_from_aggregated_asks cfg obid p a) s = (Inr (), t) \<and> storage_ok t \<and>
     storage_view t = (storage_view s) \<lparr> v_agg := upd2 (v_agg (storage_view s)) side obid m \<rparr>"
  using assms
  by (cases side) (auto simp: sl_sub_from_aggregated view_simps ok_simps')

lemma sl_delete_writes:
  assumes ok: "storage_ok s" and inv: "view_inv cfg dv (storage_view s)"
  shows "writes storage_ok storage_view (sl_delete_limit_order cfg obid i) (spec_delete cfg obid i) s"
proof (cases "map_of (LimitOrders s) (obid, i)")
  case None
  with ok show ?thesis by (simp add: writes_def spec_delete_def sl_delete_limit_order_def)
next
  case (Some x)
  then have vx: "v_orders (storage_view s) obid i = Some x" by simp
  have b: "book_inv cfg (dv obid) obid (storage_view s)" using inv by (simp add: view_inv_def)
  have id: "lo_id x = i" using book_invD(1) [OF b vx] .
  have div: "is_divisible (lo_price x)" using book_invD(2) [OF b vx] by (simp add: order_wf_def)
  obtain v' where spec: "spec_delete cfg obid i (storage_view s) = Inr v'"
    using spec_delete_Inr [OF inv vx] by metis
  then obtain agg u where agg: "agg_sub (MaxSidePriceCount cfg) (lo_price x) (lo_amount x)
        (v_agg (storage_view s) (lo_side x) obid) = Some agg"
    and u: "map_of (UserLimitOrders s) (lo_owner x, obid) = Some u"
    using vx by (auto simp: spec_delete_def split: option.splits if_splits)
  define s1 where "s1 = s \<lparr> LimitOrders := AList.delete (obid, i) (LimitOrders s) \<rparr>"
  define user' where "user' = filter (\<lambda>j. j \<noteq> lo_id x) u"
  define s2 where "s2 = (if user' = []
    then s1 \<lparr> UserLimitOrders := AList.delete (lo_owner x, obid) (UserLimitOrders s1) \<rparr>
    else s1 \<lparr> UserLimitOrders := AList.update (lo_owner x, obid) user' (UserLimitOrders s1) \<rparr>)"
  have ok2: "storage_ok s2" using ok by (simp add: s2_def s1_def ok_simps')
  have view2: "storage_view s2 = (storage_view s) \<lparr> v_orders := upd2 (v_orders (storage_view s)) obid i None,
      v_user := upd2 (v_user (storage_view s)) (lo_owner x) obid (drop_id (lo_id x) (Some u)) \<rparr>"
    by (simp add: s2_def s1_def view_simps drop_id_def user'_def Let_def)
  obtain s3 where s3: "(case lo_side x of Buy \<Rightarrow> sl_remove_from_bids obid x | Sell \<Rightarrow> sl_remove_from_asks obid x) s2 = (Inr (), s3)"
    "storage_ok s3"
    "storage_view s3 = (storage_view s2) \<lparr> v_level := upd3 (v_level (storage_view s2)) (lo_side x) obid (lo_price x)
        (drop_id (lo_id x) (v_level (storage_view s2) (lo_side x) obid (lo_price x))) \<rparr>"
    using sl_remove_from [OF ok2 div, of obid] by (cases "lo_side x") auto
  have same: "v_agg (storage_view s3) (lo_side x) obid = v_agg (storage_view s) (lo_side x) obid"
    by (simp add: s3(3) view2)
  obtain s4 where s4: "(case lo_side x of Buy \<Rightarrow> sl_sub_from_aggregated_bids cfg obid (lo_price x) (lo_amount x)
      | Sell \<Rightarrow> sl_sub_from_aggregated_asks cfg obid (lo_price x) (lo_amount x)) s3 = (Inr (), s4)"
    "storage_ok s4"
    "storage_view s4 = (storage_view s3) \<lparr> v_agg := upd2 (v_agg (storage_view s3)) (lo_side x) obid agg \<rparr>"
    using sl_sub_from_aggregated_Some [OF s3(2), of "lo_price x" "lo_side x" obid cfg "lo_amount x" agg]
      agg present_agg [OF inv vx] same by auto
  have "sl_delete_limit_order cfg obid i s = (Inr (), s4)"
  proof -
    have "map_of (UserLimitOrders s1) (lo_owner x, obid) = Some u" using u by (simp add: s1_def)
    then have "sl_delete_limit_order cfg obid i s = smap_err (\<lambda>_. DeleteLimitOrderError)
      (case lo_side x of
         Buy \<Rightarrow> sbind (sl_remove_from_bids obid x) (\<lambda>_.
           sl_sub_from_aggregated_bids cfg obid (lo_price x) (lo_amount x))
       | Sell \<Rightarrow> sbind (sl_remove_from_asks obid x) (\<lambda>_.
           sl_sub_from_aggregated_asks cfg obid (lo_price x) (lo_amount x))) s2"
      unfolding sl_delete_limit_order_def Some s1_def [symmetric] s2_def user'_def Let_def by simp
    with s3(1) s4(1) show ?thesis
      by (cases "lo_side x") (simp_all add: smap_err_def sbind_def)
  qed
  moreover have "storage_view s4 = v'"
    using spec vx agg u id
    by (auto simp: spec_delete_def s4(3) s3(3) view2 intro!: book_view.equality)
  ultimately show ?thesis using s4(2) spec by (simp add: writes_def)
qed

lemma sl_update_writes:
  assumes ok: "storage_ok s" and inv: "view_inv cfg dv (storage_view s)" and a: "is_divisible a = dv obid"
  shows "writes storage_ok storage_view (sl_update_limit_order_amount cfg obid i a) (spec_update cfg obid i a) s"
proof (cases "map_of (LimitOrders s) (obid, i)")
  case None
  with ok show ?thesis by (simp add: writes_def spec_update_def sl_update_limit_order_amount_def)
next
  case (Some x)
  then have vx: "v_orders (storage_view s) obid i = Some x" by simp
  consider "a = lo_amount x" | "bu_is_zero a" "a \<noteq> lo_amount x"
    | "\<not> a < lo_amount x" "\<not> bu_is_zero a" "a \<noteq> lo_amount x"
    | "a < lo_amount x" "\<not> bu_is_zero a" "a \<noteq> lo_amount x" by blast
  then show ?thesis
  proof cases
    case 1
    with ok Some show ?thesis by (simp add: writes_def spec_update_def sl_update_limit_order_amount_def)
  next
    case 2
    then have "sl_update_limit_order_amount cfg obid i a s = sl_delete_limit_order cfg obid i s"
      "spec_update cfg obid i a (storage_view s) = spec_delete cfg obid i (storage_view s)"
      using Some by (simp_all add: spec_update_def sl_update_limit_order_amount_def)
    with sl_delete_writes [OF ok inv, of obid i] show ?thesis unfolding writes_def by (simp only:)
  next
    case 3
    with ok Some show ?thesis
      by (simp add: writes_def spec_update_def sl_update_limit_order_amount_def sbind_def slift_def)
  next
    case 4
    obtain m where am: "a = BalanceUnit m (dv obid)" using a by (cases a) simp
    have m: "0 < m" "BalanceUnit m (dv obid) < lo_amount x" using 4 am by (auto simp: bu_is_zero_def)
    obtain v' where spec: "spec_update cfg obid i a (storage_view s) = Inr v'"
      using spec_update_Inr [OF inv vx m] am by metis
    then obtain delta agg where delta: "bu_checked_sub (lo_amount x) a = Some delta"
      and agg: "agg_sub (MaxSidePriceCount cfg) (lo_price x) delta (v_agg (storage_view s) (lo_side x) obid) = Some agg"
      using 4 vx by (auto simp: spec_update_def split: option.splits)
    obtain t where t: "(case lo_side x of Buy \<Rightarrow> sl_sub_from_aggregated_bids cfg obid (lo_price x) delta
        | Sell \<Rightarrow> sl_sub_from_aggregated_asks cfg obid (lo_price x) delta) s = (Inr (), t)" "storage_ok t"
      "storage_view t = (storage_view s) \<lparr> v_agg := upd2 (v_agg (storage_view s)) (lo_side x) obid agg \<rparr>"
      using sl_sub_from_aggregated_Some [OF ok present_agg [OF inv vx] agg] by blast
    let ?t = "t \<lparr> LimitOrders := AList.update (obid, i) (x \<lparr> lo_amount := a \<rparr>) (LimitOrders t) \<rparr>"
    have "sl_update_limit_order_amount cfg obid i a s = (Inr (), ?t)"
      using Some 4 delta t(1)
      by (cases "lo_side x")
        (simp_all add: sl_update_limit_order_amount_def sbind_def slift_def smap_err_def smodify_def)
    moreover have "storage_view ?t = v'"
      using spec vx delta agg 4
      by (auto simp: spec_update_def view_simps t(3) intro!: book_view.equality)
    ultimately show ?thesis using t(2) spec by (simp add: writes_def ok_simps')
  qed
qed

lemma iter_prefix_simps [simp]:
  "iter_prefix [] k = []"
  "iter_prefix (((a, b), v) # s) k = (if a = k then (b, v) # iter_prefix s k else iter_prefix s k)"
  by (simp_all add: iter_prefix_def)

lemma distinct_iter_prefix:
  "distinct (map fst s) \<Longrightarrow> distinct (map fst (iter_prefix s k))"
proof (induction s)
  case (Cons x s)
  obtain a b v where x: "x = ((a, b), v)" by (metis surj_pair)
  have "b \<notin> fst ` set (iter_prefix s k)" if "a = k"
    using Cons.prems that x id_cache.set_iter_prefix [of b _ s k] by force
  with Cons x show ?case by simp
qed simp

lemma map_of_iter_prefix:
  "map_of (iter_prefix s k) = (\<lambda>b. map_of s (k, b))"
  by (induction s) (auto simp: fun_eq_iff)

lemma sl_lists_orders:
  assumes "storage_ok s"
  shows "lists_orders (\<lambda>i. map_of (LimitOrders s) (obid, i)) (map snd (iter_prefix (LimitOrders s) obid))"
proof -
  let ?p = "iter_prefix (LimitOrders s) obid"
  have d: "distinct (map fst (LimitOrders s))" using assms by (simp add: ok_items)
  have m: "map_of ?p = (\<lambda>i. map_of (LimitOrders s) (obid, i))" by (rule map_of_iter_prefix)
  have dp: "distinct (map fst ?p)" by (rule distinct_iter_prefix [OF d])
  then have "map snd ?p = map (\<lambda>i. the (map_of ?p i)) (map fst ?p)"
    by (auto intro!: map_cong simp: map_of_is_SomeI [OF dp])
  then show ?thesis
    unfolding lists_orders_def m [symmetric] using dp by (metis dom_map_of_conv_image_fst set_map)
qed

lemma bt_get_append_list:
  "distinct (map fst xs) \<Longrightarrow>
   bt_get k (bt_append m xs) = (case map_of xs k of None \<Rightarrow> bt_get k m | Some v \<Rightarrow> Some v)"
  for k :: "'k::linorder"
proof (induction m xs rule: bt_append.induct)
  case (2 m k' v m')
  then have "map_of m' k' = None" by (simp add: map_of_eq_None_iff)
  moreover have "bt_get k (bt_append (bt_insert k' v m) m') =
      (case map_of m' k of None \<Rightarrow> bt_get k (bt_insert k' v m) | Some v \<Rightarrow> Some v)"
    using 2 by simp
  ultimately show ?case
    by (cases "map_of m' k") (auto simp: lin_key.bt_get_insert)
qed simp

interpretation storage_layer: DataLayer cfg "storage_data_layer cfg" storage_view storage_ok for cfg
proof (unfold_locales, goal_cases)
  case 3
  then show ?case by (simp add: storage_data_layer_def sl_insert_writes)
next
  case 4
  then show ?case by (simp add: storage_data_layer_def sl_update_writes)
next
  case 5
  then show ?case by (simp add: storage_data_layer_def sl_delete_writes)
next
  case (2 d obid)
  then show ?case
    using sl_lists_orders [of d obid]
    by (simp add: storage_data_layer_def sl_get_all_limit_orders_def reads_def storage_view_def)
next
  case (18 d acc)
  let ?m = "bt_from_list (iter_prefix (UserLimitOrders d) acc)"
  have d: "distinct (map fst (UserLimitOrders d))" using 18 by (simp add: ok_items)
  have "bt_get obid ?m = map_of (UserLimitOrders d) (acc, obid)" for obid
    using distinct_iter_prefix [OF d, of acc] map_of_iter_prefix [of "UserLimitOrders d" acc]
    by (simp add: bt_from_list_def bt_get_append_list split: option.splits)
  moreover have "sorted_wrt (<) (map fst ?m)"
    using lin_key.bt_append_sorted [of "[]"] by (simp add: bt_from_list_def comp_def)
  ultimately show ?case using 18 by (simp add: storage_data_layer_def reads_def)
qed (auto simp: storage_data_layer_def reads_def sl_get_limit_order_def unwrap_or_def split: option.splits)

end
