(* ===== verification/Cache_Data_Layer.thy ===== *)
theory Cache_Data_Layer
  imports Storage_Data_Layer
begin

text \<open>
  \<open>pallets/order-book/src/cache_data_layer.rs\<close>: the data layer every extrinsic uses, with a
  write-back cache in front of each storage item. A state is the layer's caches together with
  the storage behind them; only \<open>commit\<close> writes to the storage.
\<close>

section \<open>CacheDataLayer\<close>

record cache_layer =
  cl_limit_orders :: "(order_book_id, order_id, limit_order) cache_double_map"
  cl_bids :: "(order_book_id, order_price, price_orders) cache_double_map"
  cl_asks :: "(order_book_id, order_price, price_orders) cache_double_map"
  cl_aggregated_bids :: "(order_book_id, market_side) cache_map"
  cl_aggregated_asks :: "(order_book_id, market_side) cache_map"
  cl_user_limit_orders :: "(account_id, order_book_id, user_orders) cache_double_map"

type_synonym cached = "cache_layer \<times> book_storage"

definition cl_new :: cache_layer where
  "cl_new =
     \<lparr> cl_limit_orders = cdm_new, cl_bids = cdm_new, cl_asks = cdm_new, cl_aggregated_bids = cm_new,
       cl_aggregated_asks = cm_new, cl_user_limit_orders = cdm_new \<rparr>"

definition cl_commit :: "cached \<Rightarrow> cached" where
  "cl_commit = (\<lambda>(c, s).
     case cdm_commit (cl_limit_orders c) (LimitOrders s) of (lo, sLo) \<Rightarrow>
     case cdm_commit (cl_bids c) (Bids s) of (bids, sBids) \<Rightarrow>
     case cdm_commit (cl_asks c) (Asks s) of (asks, sAsks) \<Rightarrow>
     case cm_commit (cl_aggregated_bids c) (AggregatedBids s) of (ab, sAb) \<Rightarrow>
     case cm_commit (cl_aggregated_asks c) (AggregatedAsks s) of (aa, sAa) \<Rightarrow>
     case cdm_commit (cl_user_limit_orders c) (UserLimitOrders s) of (us, sUs) \<Rightarrow>
       (\<lparr> cl_limit_orders = lo, cl_bids = bids, cl_asks = asks, cl_aggregated_bids = ab,
          cl_aggregated_asks = aa, cl_user_limit_orders = us \<rparr>,
        \<lparr> LimitOrders = sLo, Bids = sBids, Asks = sAsks, AggregatedBids = sAb,
          AggregatedAsks = sAa, UserLimitOrders = sUs \<rparr>))"

definition cl_reset :: "cache_layer \<Rightarrow> cache_layer" where
  "cl_reset c =
     \<lparr> cl_limit_orders = cdm_reset (cl_limit_orders c), cl_bids = cdm_reset (cl_bids c),
       cl_asks = cdm_reset (cl_asks c), cl_aggregated_bids = cm_reset (cl_aggregated_bids c),
       cl_aggregated_asks = cm_reset (cl_aggregated_asks c),
       cl_user_limit_orders = cdm_reset (cl_user_limit_orders c) \<rparr>"

definition cl_add_to_bids :: "config \<Rightarrow> order_book_id \<Rightarrow> limit_order \<Rightarrow> (cached, unit, unit) run" where
  "cl_add_to_bids cfg obid x = (\<lambda>(c, s).
     case cdm_get_mut (Bids s) obid (lo_price x) (cl_bids c) of
       (Some bids, m) \<Rightarrow>
         (case try_push (MaxLimitOrdersForPrice cfg) (lo_id x) bids of
            Inl _ \<Rightarrow> (Inl (), c \<lparr> cl_bids := m \<rparr>, s)
          | Inr bids' \<Rightarrow> (Inr (), c \<lparr> cl_bids := cdm_write obid (lo_price x) bids' m \<rparr>, s))
     | (None, m) \<Rightarrow>
         (if 1 \<le> MaxLimitOrdersForPrice cfg
          then (Inr (), c \<lparr> cl_bids := cdm_set obid (lo_price x) [lo_id x] m \<rparr>, s)
          else (Inl (), c \<lparr> cl_bids := m \<rparr>, s)))"

definition cl_remove_from_bids :: "order_book_id \<Rightarrow> limit_order \<Rightarrow> cached \<Rightarrow> cached" where
  "cl_remove_from_bids obid x = (\<lambda>(c, s).
     case cdm_get_mut (Bids s) obid (lo_price x) (cl_bids c) of
       (Some bids, m) \<Rightarrow>
         let bids' = filter (\<lambda>i. i \<noteq> lo_id x) bids;
             m' = cdm_write obid (lo_price x) bids' m
         in if bids' = [] then (c \<lparr> cl_bids := cdm_remove (Bids s) obid (lo_price x) m' \<rparr>, s)
            else (c \<lparr> cl_bids := m' \<rparr>, s)
     | (None, m) \<Rightarrow> (c \<lparr> cl_bids := m \<rparr>, s))"

definition cl_add_to_asks :: "config \<Rightarrow> order_book_id \<Rightarrow> limit_order \<Rightarrow> (cached, unit, unit) run" where
  "cl_add_to_asks cfg obid x = (\<lambda>(c, s).
     case cdm_get_mut (Asks s) obid (lo_price x) (cl_asks c) of
       (Some asks, m) \<Rightarrow>
         (case try_push (MaxLimitOrdersForPrice cfg) (lo_id x) asks of
            Inl _ \<Rightarrow> (Inl (), c \<lparr> cl_asks := m \<rparr>, s)
          | Inr asks' \<Rightarrow> (Inr (), c \<lparr> cl_asks := cdm_write obid (lo_price x) asks' m \<rparr>, s))
     | (None, m) \<Rightarrow>
         (if 1 \<le> MaxLimitOrdersForPrice cfg
          then (Inr (), c \<lparr> cl_asks := cdm_set obid (lo_price x) [lo_id x] m \<rparr>, s)
          else (Inl (), c \<lparr> cl_asks := m \<rparr>, s)))"

definition cl_remove_from_asks :: "order_book_id \<Rightarrow> limit_order \<Rightarrow> cached \<Rightarrow> cached" where
  "cl_remove_from_asks obid x = (\<lambda>(c, s).
     case cdm_get_mut (Asks s) obid (lo_price x) (cl_asks c) of
       (Some asks, m) \<Rightarrow>
         let asks' = filter (\<lambda>i. i \<noteq> lo_id x) asks;
             m' = cdm_write obid (lo_price x) asks' m
         in if asks' = [] then (c \<lparr> cl_asks := cdm_remove (Asks s) obid (lo_price x) m' \<rparr>, s)
            else (c \<lparr> cl_asks := m' \<rparr>, s)
     | (None, m) \<Rightarrow> (c \<lparr> cl_asks := m \<rparr>, s))"

definition cl_add_to_aggregated_bids ::
  "config \<Rightarrow> order_book_id \<Rightarrow> order_price \<Rightarrow> order_volume \<Rightarrow> (cached, unit, unit) run" where
  "cl_add_to_aggregated_bids cfg obid price v = (\<lambda>(c, s).
     case cm_get_mut (map_of (AggregatedBids s)) obid (cl_aggregated_bids c) of
       (Some agg_bids, m) \<Rightarrow>
         (case bu_checked_add (unwrap_or (bt_get price agg_bids) bu_zero) v of
            None \<Rightarrow> (Inl (), c \<lparr> cl_aggregated_bids := m \<rparr>, s)
          | Some volume \<Rightarrow>
              (case bt_try_insert (MaxSidePriceCount cfg) price volume agg_bids of
                 Inl _ \<Rightarrow> (Inl (), c \<lparr> cl_aggregated_bids := m \<rparr>, s)
               | Inr agg' \<Rightarrow> (Inr (), c \<lparr> cl_aggregated_bids := cm_write obid agg' m \<rparr>, s)))
     | (None, m) \<Rightarrow>
         (if 1 \<le> MaxSidePriceCount cfg
          then (Inr (), c \<lparr> cl_aggregated_bids := cm_set obid [(price, v)] m \<rparr>, s)
          else (Inl (), c \<lparr> cl_aggregated_bids := m \<rparr>, s)))"

definition cl_sub_from_aggregated_bids ::
  "config \<Rightarrow> order_book_id \<Rightarrow> order_price \<Rightarrow> order_volume \<Rightarrow> (cached, unit, unit) run" where
  "cl_sub_from_aggregated_bids cfg obid price v = (\<lambda>(c, s).
     case cm_get_mut (map_of (AggregatedBids s)) obid (cl_aggregated_bids c) of
       (Some agg_bids, m) \<Rightarrow>
         (case bu_checked_sub (unwrap_or (bt_get price agg_bids) bu_zero) v of
            None \<Rightarrow> (Inl (), c \<lparr> cl_aggregated_bids := m \<rparr>, s)
          | Some volume \<Rightarrow>
              if bu_is_zero volume
              then (Inr (), c \<lparr> cl_aggregated_bids := cm_write obid (bt_remove price agg_bids) m \<rparr>, s)
              else
                (case bt_try_insert (MaxSidePriceCount cfg) price volume agg_bids of
                   Inl _ \<Rightarrow> (Inl (), c \<lparr> cl_aggregated_bids := m \<rparr>, s)
                 | Inr agg' \<Rightarrow> (Inr (), c \<lparr> cl_aggregated_bids := cm_write obid agg' m \<rparr>, s)))
     | (None, m) \<Rightarrow>
         (if \<not> bu_is_zero price then (Inl (), c \<lparr> cl_aggregated_bids := m \<rparr>, s)
          else (Inr (), c \<lparr> cl_aggregated_bids := m \<rparr>, s)))"

definition cl_add_to_aggregated_asks ::
  "config \<Rightarrow> order_book_id \<Rightarrow> order_price \<Rightarrow> order_volume \<Rightarrow> (cached, unit, unit) run" where
  "cl_add_to_aggregated_asks cfg obid price v = (\<lambda>(c, s).
     case cm_get_mut (map_of (AggregatedAsks s)) obid (cl_aggregated_asks c) of
       (Some agg_asks, m) \<Rightarrow>
         (case bu_checked_add (unwrap_or (bt_get price agg_asks) bu_zero) v of
            None \<Rightarrow> (Inl (), c \<lparr> cl_aggregated_asks := m \<rparr>, s)
          | Some volume \<Rightarrow>
              (case bt_try_insert (MaxSidePriceCount cfg) price volume agg_asks of
                 Inl _ \<Rightarrow> (Inl (), c \<lparr> cl_aggregated_asks := m \<rparr>, s)
               | Inr agg' \<Rightarrow> (Inr (), c \<lparr> cl_aggregated_asks := cm_write obid agg' m \<rparr>, s)))
     | (None, m) \<Rightarrow>
         (if 1 \<le> MaxSidePriceCount cfg
          then (Inr (), c \<lparr> cl_aggregated_asks := cm_set obid [(price, v)] m \<rparr>, s)
          else (Inl (), c \<lparr> cl_aggregated_asks := m \<rparr>, s)))"

definition cl_sub_from_aggregated_asks ::
  "config \<Rightarrow> order_book_id \<Rightarrow> order_price \<Rightarrow> order_volume \<Rightarrow> (cached, unit, unit) run" where
  "cl_sub_from_aggregated_asks cfg obid price v = (\<lambda>(c, s).
     case cm_get_mut (map_of (AggregatedAsks s)) obid (cl_aggregated_asks c) of
       (Some agg_asks, m) \<Rightarrow>
         (case bu_checked_sub (unwrap_or (bt_get price agg_asks) bu_zero) v of
            None \<Rightarrow> (Inl (), c \<lparr> cl_aggregated_asks := m \<rparr>, s)
          | Some volume \<Rightarrow>
              if bu_is_zero volume
              then (Inr (), c \<lparr> cl_aggregated_asks := cm_write obid (bt_remove price agg_asks) m \<rparr>, s)
              else
                (case bt_try_insert (MaxSidePriceCount cfg) price volume agg_asks of
                   Inl _ \<Rightarrow> (Inl (), c \<lparr> cl_aggregated_asks := m \<rparr>, s)
                 | Inr agg' \<Rightarrow> (Inr (), c \<lparr> cl_aggregated_asks := cm_write obid agg' m \<rparr>, s)))
     | (None, m) \<Rightarrow>
         (if \<not> bu_is_zero price then (Inl (), c \<lparr> cl_aggregated_asks := m \<rparr>, s)
          else (Inr (), c \<lparr> cl_aggregated_asks := m \<rparr>, s)))"

section \<open>The trait implementation\<close>

definition cl_get_limit_order :: "order_book_id \<Rightarrow> order_id \<Rightarrow> (cached, dispatch_error, limit_order) run" where
  "cl_get_limit_order obid i = (\<lambda>(c, s).
     case cdm_get (LimitOrders s) obid i (cl_limit_orders c) of
       (r, m) \<Rightarrow> (ok_or r UnknownLimitOrder, c \<lparr> cl_limit_orders := m \<rparr>, s))"

definition cl_get_all_limit_orders :: "order_book_id \<Rightarrow> cached \<Rightarrow> limit_order list \<times> cached" where
  "cl_get_all_limit_orders obid = (\<lambda>(c, s).
     case cdm_get_by_prefix (LimitOrders s) obid (cl_limit_orders c) of
       (orders, m) \<Rightarrow> (map snd orders, c \<lparr> cl_limit_orders := m \<rparr>, s))"

definition cl_add_user_order :: "config \<Rightarrow> order_book_id \<Rightarrow> limit_order \<Rightarrow> (cached, dispatch_error, unit) run" where
  "cl_add_user_order cfg obid x = (\<lambda>(c, s).
     case cdm_get (UserLimitOrders s) (lo_owner x) obid (cl_user_limit_orders c) of
       (r, m) \<Rightarrow>
         (case try_push (MaxOpenedLimitOrdersPerUser cfg) (lo_id x) (unwrap_or r []) of
            Inl _ \<Rightarrow> (Inl LimitOrderStorageOverflow, c \<lparr> cl_user_limit_orders := m \<rparr>, s)
          | Inr user_orders \<Rightarrow>
              (Inr (), c \<lparr> cl_user_limit_orders := cdm_set (lo_owner x) obid user_orders m \<rparr>, s)))"

definition cl_insert_limit_order ::
  "config \<Rightarrow> order_book_id \<Rightarrow> limit_order \<Rightarrow> (cached, dispatch_error, unit) run" where
  "cl_insert_limit_order cfg obid x = (\<lambda>(c, s).
     if cdm_contains_key (LimitOrders s) obid (lo_id x) (cl_limit_orders c)
     then (Inl LimitOrderAlreadyExists, c, s)
     else
       sbind
         (smap_err (\<lambda>_. LimitOrderStorageOverflow)
            (case lo_side x of
               Buy \<Rightarrow>
                 sbind (cl_add_to_bids cfg obid x) (\<lambda>_.
                 cl_add_to_aggregated_bids cfg obid (lo_price x) (lo_amount x))
             | Sell \<Rightarrow>
                 sbind (cl_add_to_asks cfg obid x) (\<lambda>_.
                 cl_add_to_aggregated_asks cfg obid (lo_price x) (lo_amount x)))) (\<lambda>_.
       sbind (cl_add_user_order cfg obid x) (\<lambda>_.
       smodify (\<lambda>(c, s). (c \<lparr> cl_limit_orders := cdm_set obid (lo_id x) x (cl_limit_orders c) \<rparr>, s)))) (c, s))"

definition cl_remove_user_order :: "order_book_id \<Rightarrow> limit_order \<Rightarrow> (cached, dispatch_error, unit) run" where
  "cl_remove_user_order obid x = (\<lambda>(c, s).
     case cdm_get (UserLimitOrders s) (lo_owner x) obid (cl_user_limit_orders c) of
       (None, m) \<Rightarrow> (Inl DeleteLimitOrderError, c \<lparr> cl_user_limit_orders := m \<rparr>, s)
     | (Some user_orders, m) \<Rightarrow>
         let user' = filter (\<lambda>i. i \<noteq> lo_id x) user_orders in
         if user' = []
         then (Inr (), c \<lparr> cl_user_limit_orders := cdm_remove (UserLimitOrders s) (lo_owner x) obid m \<rparr>, s)
         else (Inr (), c \<lparr> cl_user_limit_orders := cdm_set (lo_owner x) obid user' m \<rparr>, s))"

definition cl_delete_limit_order ::
  "config \<Rightarrow> order_book_id \<Rightarrow> order_id \<Rightarrow> (cached, dispatch_error, unit) run" where
  "cl_delete_limit_order cfg obid i =
     sbind (cl_get_limit_order obid i) (\<lambda>x.
     sbind
       (smap_err (\<lambda>_. DeleteLimitOrderError)
          (case lo_side x of
             Buy \<Rightarrow>
               sbind (smodify (cl_remove_from_bids obid x)) (\<lambda>_.
               cl_sub_from_aggregated_bids cfg obid (lo_price x) (lo_amount x))
           | Sell \<Rightarrow>
               sbind (smodify (cl_remove_from_asks obid x)) (\<lambda>_.
               cl_sub_from_aggregated_asks cfg obid (lo_price x) (lo_amount x)))) (\<lambda>_.
     sbind (cl_remove_user_order obid x) (\<lambda>_.
     smodify (\<lambda>(c, s). (c \<lparr> cl_limit_orders := cdm_remove (LimitOrders s) obid i (cl_limit_orders c) \<rparr>, s)))))"

definition cl_update_limit_order_amount ::
  "config \<Rightarrow> order_book_id \<Rightarrow> order_id \<Rightarrow> order_volume \<Rightarrow> (cached, dispatch_error, unit) run" where
  "cl_update_limit_order_amount cfg obid i new_amount =
     sbind (cl_get_limit_order obid i) (\<lambda>x.
     if new_amount = lo_amount x then sret ()
     else if bu_is_zero new_amount then cl_delete_limit_order cfg obid i
     else
       sbind (slift (ensure (new_amount < lo_amount x) UpdateLimitOrderError)) (\<lambda>_.
       sbind (slift (ok_or (bu_checked_sub (lo_amount x) new_amount) AmountCalculationFailed)) (\<lambda>delta.
       sbind
         (smap_err (\<lambda>_. UpdateLimitOrderError)
            (case lo_side x of
               Buy \<Rightarrow> cl_sub_from_aggregated_bids cfg obid (lo_price x) delta
             | Sell \<Rightarrow> cl_sub_from_aggregated_asks cfg obid (lo_price x) delta)) (\<lambda>_.
       smodify (\<lambda>(c, s).
         (c \<lparr> cl_limit_orders := cdm_set obid i (x \<lparr> lo_amount := new_amount \<rparr>) (cl_limit_orders c) \<rparr>, s))))))"

definition cl_get_bids :: "order_book_id \<Rightarrow> order_price \<Rightarrow> cached \<Rightarrow> price_orders option \<times> cached" where
  "cl_get_bids obid price = (\<lambda>(c, s).
     case cdm_get (Bids s) obid price (cl_bids c) of (r, m) \<Rightarrow> (r, c \<lparr> cl_bids := m \<rparr>, s))"

definition cl_get_aggregated_bids_opt :: "order_book_id \<Rightarrow> cached \<Rightarrow> market_side option \<times> cached" where
  "cl_get_aggregated_bids_opt obid = (\<lambda>(c, s).
     case cm_get (map_of (AggregatedBids s)) obid (cl_aggregated_bids c) of
       (r, m) \<Rightarrow> (r, c \<lparr> cl_aggregated_bids := m \<rparr>, s))"

definition cl_get_asks :: "order_book_id \<Rightarrow> order_price \<Rightarrow> cached \<Rightarrow> price_orders option \<times> cached" where
  "cl_get_asks obid price = (\<lambda>(c, s).
     case cdm_get (Asks s) obid price (cl_asks c) of (r, m) \<Rightarrow> (r, c \<lparr> cl_asks := m \<rparr>, s))"

definition cl_get_aggregated_asks_opt :: "order_book_id \<Rightarrow> cached \<Rightarrow> market_side option \<times> cached" where
  "cl_get_aggregated_asks_opt obid = (\<lambda>(c, s).
     case cm_get (map_of (AggregatedAsks s)) obid (cl_aggregated_asks c) of
       (r, m) \<Rightarrow> (r, c \<lparr> cl_aggregated_asks := m \<rparr>, s))"

definition cl_get_user_limit_orders ::
  "account_id \<Rightarrow> order_book_id \<Rightarrow> cached \<Rightarrow> user_orders option \<times> cached" where
  "cl_get_user_limit_orders a obid = (\<lambda>(c, s).
     case cdm_get (UserLimitOrders s) a obid (cl_user_limit_orders c) of
       (r, m) \<Rightarrow> (r, c \<lparr> cl_user_limit_orders := m \<rparr>, s))"

definition cl_is_user_limit_orders_full ::
  "config \<Rightarrow> account_id \<Rightarrow> order_book_id \<Rightarrow> cached \<Rightarrow> bool option \<times> cached" where
  "cl_is_user_limit_orders_full cfg a obid = (\<lambda>(c, s).
     case cdm_get_mut (UserLimitOrders s) a obid (cl_user_limit_orders c) of
       (r, m) \<Rightarrow>
         (map_option (\<lambda>q. MaxOpenedLimitOrdersPerUser cfg \<le> length q) r, c \<lparr> cl_user_limit_orders := m \<rparr>, s))"

definition cl_get_all_user_limit_orders ::
  "account_id \<Rightarrow> cached \<Rightarrow> (order_book_id, user_orders) btree \<times> cached" where
  "cl_get_all_user_limit_orders a = (\<lambda>(c, s).
     case cdm_get_by_prefix (UserLimitOrders s) a (cl_user_limit_orders c) of
       (r, m) \<Rightarrow> (r, c \<lparr> cl_user_limit_orders := m \<rparr>, s))"

definition cache_data_layer :: "config \<Rightarrow> cached data_layer" where
  "cache_data_layer cfg =
     \<lparr> dl_get_limit_order = cl_get_limit_order,
       dl_get_all_limit_orders = cl_get_all_limit_orders,
       dl_insert_limit_order = cl_insert_limit_order cfg,
       dl_update_limit_order_amount = cl_update_limit_order_amount cfg,
       dl_delete_limit_order = cl_delete_limit_order cfg,
       dl_get_bids = cl_get_bids,
       dl_is_bid_price_full =
         (\<lambda>obid p. map_prod (map_option (\<lambda>q. MaxLimitOrdersForPrice cfg \<le> length q)) id \<circ> cl_get_bids obid p),
       dl_get_asks = cl_get_asks,
       dl_is_ask_price_full =
         (\<lambda>obid p. map_prod (map_option (\<lambda>q. MaxLimitOrdersForPrice cfg \<le> length q)) id \<circ> cl_get_asks obid p),
       dl_get_aggregated_bids = (\<lambda>obid. map_prod (\<lambda>r. unwrap_or r []) id \<circ> cl_get_aggregated_bids_opt obid),
       dl_get_aggregated_bids_len = (\<lambda>obid. map_prod (map_option length) id \<circ> cl_get_aggregated_bids_opt obid),
       dl_best_bid = (\<lambda>obid. map_prod (\<lambda>r. Option.bind r side_max) id \<circ> cl_get_aggregated_bids_opt obid),
       dl_get_aggregated_asks = (\<lambda>obid. map_prod (\<lambda>r. unwrap_or r []) id \<circ> cl_get_aggregated_asks_opt obid),
       dl_get_aggregated_asks_len = (\<lambda>obid. map_prod (map_option length) id \<circ> cl_get_aggregated_asks_opt obid),
       dl_best_ask = (\<lambda>obid. map_prod (\<lambda>r. Option.bind r side_min) id \<circ> cl_get_aggregated_asks_opt obid),
       dl_get_user_limit_orders = cl_get_user_limit_orders,
       dl_get_all_user_limit_orders = cl_get_all_user_limit_orders,
       dl_is_user_limit_orders_full = cl_is_user_limit_orders_full cfg \<rparr>"

section \<open>What a client of the cache sees\<close>

definition cache_view :: "cached \<Rightarrow> book_view" where
  "cache_view = (\<lambda>(c, s).
     \<lparr> v_orders = cdm_view (LimitOrders s) (cl_limit_orders c),
       v_level = (\<lambda>side obid p.
         if is_divisible p
         then (case side of Buy \<Rightarrow> cdm_view (Bids s) (cl_bids c) | Sell \<Rightarrow> cdm_view (Asks s) (cl_asks c)) obid p
         else None),
       v_agg = (\<lambda>side obid. unwrap_or
         ((case side of
             Buy \<Rightarrow> cm_view (map_of (AggregatedBids s)) (cl_aggregated_bids c)
           | Sell \<Rightarrow> cm_view (map_of (AggregatedAsks s)) (cl_aggregated_asks c)) obid) []),
       v_user = cdm_view (UserLimitOrders s) (cl_user_limit_orders c) \<rparr>)"

definition cache_ok :: "cached \<Rightarrow> bool" where
  "cache_ok = (\<lambda>(c, s).
     id_cache.cdm_ok (LimitOrders s) (cl_limit_orders c) \<and>
     price_cache.cdm_ok (Bids s) (cl_bids c) \<and> price_cache.cdm_ok (Asks s) (cl_asks c) \<and>
     distinct (map fst (AggregatedBids s)) \<and> distinct (map fst (AggregatedAsks s)) \<and>
     id_cache.cm_ok (map_of (AggregatedBids s)) (cl_aggregated_bids c) \<and>
     id_cache.cm_ok (map_of (AggregatedAsks s)) (cl_aggregated_asks c) \<and>
     id_cache.cdm_ok (UserLimitOrders s) (cl_user_limit_orders c))"

section \<open>The layer implements the specification\<close>

definition price_rows ::
  "(order_book_id \<times> order_price, price_orders) storage \<Rightarrow>
   (order_book_id, order_price, price_orders) cache_double_map \<Rightarrow>
   order_book_id \<Rightarrow> order_price \<Rightarrow> price_orders option" where
  "price_rows s m = (\<lambda>obid p. if is_divisible p then cdm_view s m obid p else None)"

definition agg_rows ::
  "(order_book_id, market_side) storage \<Rightarrow> (order_book_id, market_side) cache_map \<Rightarrow>
   order_book_id \<Rightarrow> market_side" where
  "agg_rows s m = (\<lambda>obid. unwrap_or (cm_view (map_of s) m obid) [])"

lemma cache_view_rows:
  "v_orders (cache_view (c, s)) = cdm_view (LimitOrders s) (cl_limit_orders c)"
  "v_level (cache_view (c, s)) Buy = price_rows (Bids s) (cl_bids c)"
  "v_level (cache_view (c, s)) Sell = price_rows (Asks s) (cl_asks c)"
  "v_agg (cache_view (c, s)) Buy = agg_rows (AggregatedBids s) (cl_aggregated_bids c)"
  "v_agg (cache_view (c, s)) Sell = agg_rows (AggregatedAsks s) (cl_aggregated_asks c)"
  "v_user (cache_view (c, s)) = cdm_view (UserLimitOrders s) (cl_user_limit_orders c)"
  by (simp_all add: cache_view_def price_rows_def agg_rows_def fun_eq_iff)

lemma cache_view_write:
  "cache_view (c \<lparr> cl_limit_orders := lo \<rparr>, s) =
     (cache_view (c, s)) \<lparr> v_orders := cdm_view (LimitOrders s) lo \<rparr>"
  "cache_view (c \<lparr> cl_bids := qs \<rparr>, s) =
     (cache_view (c, s)) \<lparr> v_level := (v_level (cache_view (c, s)))(Buy := price_rows (Bids s) qs) \<rparr>"
  "cache_view (c \<lparr> cl_asks := qs \<rparr>, s) =
     (cache_view (c, s)) \<lparr> v_level := (v_level (cache_view (c, s)))(Sell := price_rows (Asks s) qs) \<rparr>"
  "cache_view (c \<lparr> cl_aggregated_bids := ms \<rparr>, s) =
     (cache_view (c, s)) \<lparr> v_agg := (v_agg (cache_view (c, s)))(Buy := agg_rows (AggregatedBids s) ms) \<rparr>"
  "cache_view (c \<lparr> cl_aggregated_asks := ms \<rparr>, s) =
     (cache_view (c, s)) \<lparr> v_agg := (v_agg (cache_view (c, s)))(Sell := agg_rows (AggregatedAsks s) ms) \<rparr>"
  "cache_view (c \<lparr> cl_user_limit_orders := us \<rparr>, s) =
     (cache_view (c, s)) \<lparr> v_user := cdm_view (UserLimitOrders s) us \<rparr>"
  by (auto simp: cache_view_def price_rows_def agg_rows_def fun_eq_iff split: price_variant.splits)

lemma cache_ok_parts:
  assumes "cache_ok (c, s)"
  shows "id_cache.cdm_ok (LimitOrders s) (cl_limit_orders c)"
    "price_cache.cdm_ok (Bids s) (cl_bids c)" "price_cache.cdm_ok (Asks s) (cl_asks c)"
    "id_cache.cm_ok (map_of (AggregatedBids s)) (cl_aggregated_bids c)"
    "id_cache.cm_ok (map_of (AggregatedAsks s)) (cl_aggregated_asks c)"
    "id_cache.cdm_ok (UserLimitOrders s) (cl_user_limit_orders c)"
  using assms by (simp_all add: cache_ok_def)

lemma cache_ok_write:
  assumes "cache_ok (c, s)"
  shows "id_cache.cdm_ok (LimitOrders s) lo \<Longrightarrow> cache_ok (c \<lparr> cl_limit_orders := lo \<rparr>, s)"
    "price_cache.cdm_ok (Bids s) qs \<Longrightarrow> cache_ok (c \<lparr> cl_bids := qs \<rparr>, s)"
    "price_cache.cdm_ok (Asks s) qs \<Longrightarrow> cache_ok (c \<lparr> cl_asks := qs \<rparr>, s)"
    "id_cache.cm_ok (map_of (AggregatedBids s)) ms \<Longrightarrow> cache_ok (c \<lparr> cl_aggregated_bids := ms \<rparr>, s)"
    "id_cache.cm_ok (map_of (AggregatedAsks s)) ms \<Longrightarrow> cache_ok (c \<lparr> cl_aggregated_asks := ms \<rparr>, s)"
    "id_cache.cdm_ok (UserLimitOrders s) us \<Longrightarrow> cache_ok (c \<lparr> cl_user_limit_orders := us \<rparr>, s)"
  using assms by (simp_all add: cache_ok_def)

lemma price_rows_ops:
  assumes "price_cache.cdm_ok s c" "is_divisible p"
  shows "fst (cdm_get s obid p c) = price_rows s c obid p"
    "price_cache.cdm_ok s (snd (cdm_get s obid p c))" "price_rows s (snd (cdm_get s obid p c)) = price_rows s c"
    "fst (cdm_get_mut s obid p c) = price_rows s c obid p"
    "price_cache.cdm_ok s (snd (cdm_get_mut s obid p c))"
    "price_rows s (snd (cdm_get_mut s obid p c)) = price_rows s c"
    "price_cache.cdm_ok s (cdm_set obid p q c)"
    "price_rows s (cdm_set obid p q c) = upd2 (price_rows s c) obid p (Some q)"
    "price_cache.cdm_ok s (cdm_write obid p q c)"
    "price_rows s (cdm_write obid p q c) = upd2 (price_rows s c) obid p (Some q)"
    "price_cache.cdm_ok s (cdm_remove s obid p c)"
    "price_rows s (cdm_remove s obid p c) = upd2 (price_rows s c) obid p None"
proof -
  have p: "p \<in> {p. is_divisible p}" using assms(2) by simp
  show "fst (cdm_get s obid p c) = price_rows s c obid p"
    "price_cache.cdm_ok s (snd (cdm_get s obid p c))" "price_rows s (snd (cdm_get s obid p c)) = price_rows s c"
    using price_cache.cdm_get [OF assms(1) p] assms(2) by (simp_all add: price_rows_def fun_eq_iff)
  show "fst (cdm_get_mut s obid p c) = price_rows s c obid p"
    "price_cache.cdm_ok s (snd (cdm_get_mut s obid p c))"
    "price_rows s (snd (cdm_get_mut s obid p c)) = price_rows s c"
    using price_cache.cdm_get_mut [OF assms(1) p] assms(2) by (simp_all add: price_rows_def fun_eq_iff)
  show "price_cache.cdm_ok s (cdm_set obid p q c)"
    "price_rows s (cdm_set obid p q c) = upd2 (price_rows s c) obid p (Some q)"
    using price_cache.cdm_set [OF assms(1) p] assms(2) by (auto simp: price_rows_def fun_eq_iff)
  show "price_cache.cdm_ok s (cdm_write obid p q c)"
    "price_rows s (cdm_write obid p q c) = upd2 (price_rows s c) obid p (Some q)"
    using price_cache.cdm_write [OF assms(1) p] assms(2) by (auto simp: price_rows_def fun_eq_iff)
  show "price_cache.cdm_ok s (cdm_remove s obid p c)"
    "price_rows s (cdm_remove s obid p c) = upd2 (price_rows s c) obid p None"
    using price_cache.cdm_remove [OF assms(1) p] assms(2) by (auto simp: price_rows_def fun_eq_iff)
qed

lemma id_rows_ops:
  fixes c :: "('a::linorder, 'b::linorder, 'v) cache_double_map"
  assumes "id_cache.cdm_ok s c"
  shows "fst (cdm_get s a b c) = cdm_view s c a b" "id_cache.cdm_ok s (snd (cdm_get s a b c))"
    "cdm_view s (snd (cdm_get s a b c)) = cdm_view s c"
    "fst (cdm_get_mut s a b c) = cdm_view s c a b" "id_cache.cdm_ok s (snd (cdm_get_mut s a b c))"
    "cdm_view s (snd (cdm_get_mut s a b c)) = cdm_view s c"
    "id_cache.cdm_ok s (cdm_set a b v c)" "cdm_view s (cdm_set a b v c) = upd2 (cdm_view s c) a b (Some v)"
    "id_cache.cdm_ok s (cdm_remove s a b c)" "cdm_view s (cdm_remove s a b c) = upd2 (cdm_view s c) a b None"
  using id_cache.cdm_get [OF assms UNIV_I] id_cache.cdm_get_mut [OF assms UNIV_I]
    id_cache.cdm_set [OF assms UNIV_I] id_cache.cdm_remove [OF assms UNIV_I]
  by (auto simp: fun_eq_iff)

lemma agg_rows_ops:
  assumes "id_cache.cm_ok (map_of s) c"
  shows "fst (cm_get (map_of s) obid c) = cm_view (map_of s) c obid"
    "id_cache.cm_ok (map_of s) (snd (cm_get (map_of s) obid c))"
    "agg_rows s (snd (cm_get (map_of s) obid c)) = agg_rows s c"
    "fst (cm_get_mut (map_of s) obid c) = cm_view (map_of s) c obid"
    "id_cache.cm_ok (map_of s) (snd (cm_get_mut (map_of s) obid c))"
    "agg_rows s (snd (cm_get_mut (map_of s) obid c)) = agg_rows s c"
    "id_cache.cm_ok (map_of s) (cm_set obid v c)" "agg_rows s (cm_set obid v c) = (agg_rows s c)(obid := v)"
    "id_cache.cm_ok (map_of s) (cm_write obid v c)" "agg_rows s (cm_write obid v c) = (agg_rows s c)(obid := v)"
  using id_cache.cm_get [OF assms UNIV_I] id_cache.cm_get_mut [OF assms UNIV_I]
    id_cache.cm_set [OF assms UNIV_I] id_cache.cm_write [OF assms UNIV_I]
  by (auto simp: fun_eq_iff agg_rows_def)

lemma upd2_upd2: "upd2 (upd2 f a b y) a b z = upd2 f a b z"
  by (auto simp: fun_eq_iff)

lemma upd_same: "f a b c = e \<Longrightarrow> upd3 f a b c e = f" "h a b = z \<Longrightarrow> upd2 h a b z = h" "g(a := g a) = g"
  by (auto simp: fun_eq_iff)

lemma cl_add_to_bids:
  assumes ok: "cache_ok (c, s)" and div: "is_divisible (lo_price x)"
  shows "\<exists>r t. cl_add_to_bids cfg obid x (c, s) = (r, t) \<and> cache_ok t \<and>
    (case try_push (MaxLimitOrdersForPrice cfg) (lo_id x)
        (unwrap_or (v_level (cache_view (c, s)) Buy obid (lo_price x)) []) of
       Inl _ \<Rightarrow> r = Inl ()
     | Inr q \<Rightarrow> r = Inr () \<and> cache_view t = (cache_view (c, s))
         \<lparr> v_level := upd3 (v_level (cache_view (c, s))) Buy obid (lo_price x) (Some q) \<rparr>)"
proof -
  have okb: "price_cache.cdm_ok (Bids s) (cl_bids c)" using ok by (simp add: cache_ok_parts)
  obtain g m where gm: "cdm_get_mut (Bids s) obid (lo_price x) (cl_bids c) = (g, m)" by fastforce
  have g: "v_level (cache_view (c, s)) Buy obid (lo_price x) = g"
    and okm: "price_cache.cdm_ok (Bids s) m"
    and rows: "price_rows (Bids s) m = v_level (cache_view (c, s)) Buy"
    using price_rows_ops(4-6) [OF okb div, of obid] by (auto simp: gm cache_view_rows)
  note ops = price_rows_ops(7-10) [OF okm div, of obid]
  note okw = cache_ok_write(2) [OF ok]
  show ?thesis
  proof (cases g)
    case None
    with g gm okw okm ops show ?thesis
      by (simp add: cl_add_to_bids_def try_push_def cache_view_write rows upd_rows)
  next
    case (Some q)
    with g gm okw okm ops show ?thesis
      by (simp add: cl_add_to_bids_def try_push_def cache_view_write rows upd_rows)
  qed
qed

lemma cl_remove_from_bids:
  assumes ok: "cache_ok (c, s)" and div: "is_divisible (lo_price x)"
  shows "cache_ok (cl_remove_from_bids obid x (c, s)) \<and>
    cache_view (cl_remove_from_bids obid x (c, s)) = (cache_view (c, s))
       \<lparr> v_level := upd3 (v_level (cache_view (c, s))) Buy obid (lo_price x)
          (drop_id (lo_id x) (v_level (cache_view (c, s)) Buy obid (lo_price x))) \<rparr>"
proof -
  have okb: "price_cache.cdm_ok (Bids s) (cl_bids c)" using ok by (simp add: cache_ok_parts)
  obtain g m where gm: "cdm_get_mut (Bids s) obid (lo_price x) (cl_bids c) = (g, m)" by fastforce
  have g: "v_level (cache_view (c, s)) Buy obid (lo_price x) = g"
    and okm: "price_cache.cdm_ok (Bids s) m"
    and rows: "price_rows (Bids s) m = v_level (cache_view (c, s)) Buy"
    using price_rows_ops(4-6) [OF okb div, of obid] by (auto simp: gm cache_view_rows)
  note ops = price_rows_ops(9,10) [OF okm div, of obid]
  note ops2 = price_rows_ops(11,12) [OF ops(1) div, of obid]
  note okw = cache_ok_write(2) [OF ok]
  show ?thesis
  proof (cases g)
    case None
    with g gm okw okm show ?thesis
      by (simp add: cl_remove_from_bids_def drop_id_def cache_view_write rows upd_same)
  next
    case (Some q)
    with g gm okw ops ops2 show ?thesis
      by (simp add: cl_remove_from_bids_def Let_def drop_id_def cache_view_write rows upd_rows upd2_upd2)
  qed
qed

lemma cl_add_to_asks:
  assumes ok: "cache_ok (c, s)" and div: "is_divisible (lo_price x)"
  shows "\<exists>r t. cl_add_to_asks cfg obid x (c, s) = (r, t) \<and> cache_ok t \<and>
    (case try_push (MaxLimitOrdersForPrice cfg) (lo_id x)
        (unwrap_or (v_level (cache_view (c, s)) Sell obid (lo_price x)) []) of
       Inl _ \<Rightarrow> r = Inl ()
     | Inr q \<Rightarrow> r = Inr () \<and> cache_view t = (cache_view (c, s))
         \<lparr> v_level := upd3 (v_level (cache_view (c, s))) Sell obid (lo_price x) (Some q) \<rparr>)"
proof -
  have okb: "price_cache.cdm_ok (Asks s) (cl_asks c)" using ok by (simp add: cache_ok_parts)
  obtain g m where gm: "cdm_get_mut (Asks s) obid (lo_price x) (cl_asks c) = (g, m)" by fastforce
  have g: "v_level (cache_view (c, s)) Sell obid (lo_price x) = g"
    and okm: "price_cache.cdm_ok (Asks s) m"
    and rows: "price_rows (Asks s) m = v_level (cache_view (c, s)) Sell"
    using price_rows_ops(4-6) [OF okb div, of obid] by (auto simp: gm cache_view_rows)
  note ops = price_rows_ops(7-10) [OF okm div, of obid]
  note okw = cache_ok_write(3) [OF ok]
  show ?thesis
  proof (cases g)
    case None
    with g gm okw okm ops show ?thesis
      by (simp add: cl_add_to_asks_def try_push_def cache_view_write rows upd_rows)
  next
    case (Some q)
    with g gm okw okm ops show ?thesis
      by (simp add: cl_add_to_asks_def try_push_def cache_view_write rows upd_rows)
  qed
qed

lemma cl_remove_from_asks:
  assumes ok: "cache_ok (c, s)" and div: "is_divisible (lo_price x)"
  shows "cache_ok (cl_remove_from_asks obid x (c, s)) \<and>
    cache_view (cl_remove_from_asks obid x (c, s)) = (cache_view (c, s))
       \<lparr> v_level := upd3 (v_level (cache_view (c, s))) Sell obid (lo_price x)
          (drop_id (lo_id x) (v_level (cache_view (c, s)) Sell obid (lo_price x))) \<rparr>"
proof -
  have okb: "price_cache.cdm_ok (Asks s) (cl_asks c)" using ok by (simp add: cache_ok_parts)
  obtain g m where gm: "cdm_get_mut (Asks s) obid (lo_price x) (cl_asks c) = (g, m)" by fastforce
  have g: "v_level (cache_view (c, s)) Sell obid (lo_price x) = g"
    and okm: "price_cache.cdm_ok (Asks s) m"
    and rows: "price_rows (Asks s) m = v_level (cache_view (c, s)) Sell"
    using price_rows_ops(4-6) [OF okb div, of obid] by (auto simp: gm cache_view_rows)
  note ops = price_rows_ops(9,10) [OF okm div, of obid]
  note ops2 = price_rows_ops(11,12) [OF ops(1) div, of obid]
  note okw = cache_ok_write(3) [OF ok]
  show ?thesis
  proof (cases g)
    case None
    with g gm okw okm show ?thesis
      by (simp add: cl_remove_from_asks_def drop_id_def cache_view_write rows upd_same)
  next
    case (Some q)
    with g gm okw ops ops2 show ?thesis
      by (simp add: cl_remove_from_asks_def Let_def drop_id_def cache_view_write rows upd_rows upd2_upd2)
  qed
qed

lemma agg_add_empty:
  "inner v \<le> u128_max \<Longrightarrow> agg_add bound p v [] = (if 1 \<le> bound then Some [(p, v)] else None)"
proof -
  assume "inner v \<le> u128_max"
  then have "bu_checked_add bu_zero v = Some v" using checked_add_zero [of "inner v" "is_divisible v" v] by simp
  then show ?thesis by (auto simp: agg_add_def bt_try_insert_def bt_contains_key_def)
qed

lemma cl_add_to_aggregated_bids:
  assumes ok: "cache_ok (c, s)" and v: "inner v \<le> u128_max"
  shows "\<exists>r t. cl_add_to_aggregated_bids cfg obid p v (c, s) = (r, t) \<and> cache_ok t \<and>
    (case agg_add (MaxSidePriceCount cfg) p v (v_agg (cache_view (c, s)) Buy obid) of
       None \<Rightarrow> r = Inl ()
     | Some agg \<Rightarrow> r = Inr () \<and> cache_view t = (cache_view (c, s))
         \<lparr> v_agg := upd2 (v_agg (cache_view (c, s))) Buy obid agg \<rparr>)"
proof -
  have oka: "id_cache.cm_ok (map_of (AggregatedBids s)) (cl_aggregated_bids c)" using ok by (simp add: cache_ok_parts)
  obtain g m where gm: "cm_get_mut (map_of (AggregatedBids s)) obid (cl_aggregated_bids c) = (g, m)" by fastforce
  have g: "v_agg (cache_view (c, s)) Buy obid = unwrap_or g []"
    and okm: "id_cache.cm_ok (map_of (AggregatedBids s)) m"
    and rows: "agg_rows (AggregatedBids s) m = v_agg (cache_view (c, s)) Buy"
    using agg_rows_ops(4-6) [OF oka, of obid] by (auto simp: gm cache_view_rows agg_rows_def)
  note ops = agg_rows_ops(7-10) [OF okm, of obid]
  note okw = cache_ok_write(4) [OF ok]
  show ?thesis
  proof (cases g)
    case None
    with g gm okw okm ops v show ?thesis
      by (simp add: cl_add_to_aggregated_bids_def agg_add_empty cache_view_write rows upd_rows)
  next
    case (Some agg)
    show ?thesis
    proof (cases "agg_add (MaxSidePriceCount cfg) p v agg")
      case None
      with Some g gm okw okm show ?thesis
        by (auto simp: cl_add_to_aggregated_bids_def agg_add_def split: option.splits sum.splits)
    next
      case (Some agg')
      with \<open>g = Some agg\<close> g gm okw okm ops show ?thesis
        by (auto simp: cl_add_to_aggregated_bids_def agg_add_def cache_view_write rows upd_rows
            split: option.splits sum.splits)
    qed
  qed
qed

lemma cl_sub_from_aggregated_bids:
  assumes ok: "cache_ok (c, s)" and present: "bt_get p (v_agg (cache_view (c, s)) Buy obid) \<noteq> None"
    and sub: "agg_sub (MaxSidePriceCount cfg) p v (v_agg (cache_view (c, s)) Buy obid) = Some agg'"
  shows "\<exists>t. cl_sub_from_aggregated_bids cfg obid p v (c, s) = (Inr (), t) \<and> cache_ok t \<and>
    cache_view t = (cache_view (c, s)) \<lparr> v_agg := upd2 (v_agg (cache_view (c, s))) Buy obid agg' \<rparr>"
proof -
  have oka: "id_cache.cm_ok (map_of (AggregatedBids s)) (cl_aggregated_bids c)" using ok by (simp add: cache_ok_parts)
  obtain g m where gm: "cm_get_mut (map_of (AggregatedBids s)) obid (cl_aggregated_bids c) = (g, m)" by fastforce
  have g: "v_agg (cache_view (c, s)) Buy obid = unwrap_or g []"
    and okm: "id_cache.cm_ok (map_of (AggregatedBids s)) m"
    and rows: "agg_rows (AggregatedBids s) m = v_agg (cache_view (c, s)) Buy"
    using agg_rows_ops(4-6) [OF oka, of obid] by (auto simp: gm cache_view_rows agg_rows_def)
  note ops = agg_rows_ops(7-10) [OF okm, of obid]
  note okw = cache_ok_write(4) [OF ok]
  obtain agg where agg: "g = Some agg" using present g by (cases g) auto
  with g gm okw okm ops sub show ?thesis
    by (auto simp: cl_sub_from_aggregated_bids_def agg_sub_def cache_view_write rows upd_rows
        split: option.splits sum.splits if_splits)
qed

lemma cl_add_to_aggregated_asks:
  assumes ok: "cache_ok (c, s)" and v: "inner v \<le> u128_max"
  shows "\<exists>r t. cl_add_to_aggregated_asks cfg obid p v (c, s) = (r, t) \<and> cache_ok t \<and>
    (case agg_add (MaxSidePriceCount cfg) p v (v_agg (cache_view (c, s)) Sell obid) of
       None \<Rightarrow> r = Inl ()
     | Some agg \<Rightarrow> r = Inr () \<and> cache_view t = (cache_view (c, s))
         \<lparr> v_agg := upd2 (v_agg (cache_view (c, s))) Sell obid agg \<rparr>)"
proof -
  have oka: "id_cache.cm_ok (map_of (AggregatedAsks s)) (cl_aggregated_asks c)" using ok by (simp add: cache_ok_parts)
  obtain g m where gm: "cm_get_mut (map_of (AggregatedAsks s)) obid (cl_aggregated_asks c) = (g, m)" by fastforce
  have g: "v_agg (cache_view (c, s)) Sell obid = unwrap_or g []"
    and okm: "id_cache.cm_ok (map_of (AggregatedAsks s)) m"
    and rows: "agg_rows (AggregatedAsks s) m = v_agg (cache_view (c, s)) Sell"
    using agg_rows_ops(4-6) [OF oka, of obid] by (auto simp: gm cache_view_rows agg_rows_def)
  note ops = agg_rows_ops(7-10) [OF okm, of obid]
  note okw = cache_ok_write(5) [OF ok]
  show ?thesis
  proof (cases g)
    case None
    with g gm okw okm ops v show ?thesis
      by (simp add: cl_add_to_aggregated_asks_def agg_add_empty cache_view_write rows upd_rows)
  next
    case (Some agg)
    show ?thesis
    proof (cases "agg_add (MaxSidePriceCount cfg) p v agg")
      case None
      with Some g gm okw okm show ?thesis
        by (auto simp: cl_add_to_aggregated_asks_def agg_add_def split: option.splits sum.splits)
    next
      case (Some agg')
      with \<open>g = Some agg\<close> g gm okw okm ops show ?thesis
        by (auto simp: cl_add_to_aggregated_asks_def agg_add_def cache_view_write rows upd_rows
            split: option.splits sum.splits)
    qed
  qed
qed

lemma cl_sub_from_aggregated_asks:
  assumes ok: "cache_ok (c, s)" and present: "bt_get p (v_agg (cache_view (c, s)) Sell obid) \<noteq> None"
    and sub: "agg_sub (MaxSidePriceCount cfg) p v (v_agg (cache_view (c, s)) Sell obid) = Some agg'"
  shows "\<exists>t. cl_sub_from_aggregated_asks cfg obid p v (c, s) = (Inr (), t) \<and> cache_ok t \<and>
    cache_view t = (cache_view (c, s)) \<lparr> v_agg := upd2 (v_agg (cache_view (c, s))) Sell obid agg' \<rparr>"
proof -
  have oka: "id_cache.cm_ok (map_of (AggregatedAsks s)) (cl_aggregated_asks c)" using ok by (simp add: cache_ok_parts)
  obtain g m where gm: "cm_get_mut (map_of (AggregatedAsks s)) obid (cl_aggregated_asks c) = (g, m)" by fastforce
  have g: "v_agg (cache_view (c, s)) Sell obid = unwrap_or g []"
    and okm: "id_cache.cm_ok (map_of (AggregatedAsks s)) m"
    and rows: "agg_rows (AggregatedAsks s) m = v_agg (cache_view (c, s)) Sell"
    using agg_rows_ops(4-6) [OF oka, of obid] by (auto simp: gm cache_view_rows agg_rows_def)
  note ops = agg_rows_ops(7-10) [OF okm, of obid]
  note okw = cache_ok_write(5) [OF ok]
  obtain agg where agg: "g = Some agg" using present g by (cases g) auto
  with g gm okw okm ops sub show ?thesis
    by (auto simp: cl_sub_from_aggregated_asks_def agg_sub_def cache_view_write rows upd_rows
        split: option.splits sum.splits if_splits)
qed


lemma cl_user_orders:
  assumes ok: "cache_ok (c, s)"
  shows "\<exists>r t. cl_add_user_order cfg obid x (c, s) = (r, t) \<and> cache_ok t \<and>
    (case try_push (MaxOpenedLimitOrdersPerUser cfg) (lo_id x)
        (unwrap_or (v_user (cache_view (c, s)) (lo_owner x) obid) []) of
       Inl _ \<Rightarrow> r = Inl LimitOrderStorageOverflow
     | Inr q \<Rightarrow> r = Inr () \<and> cache_view t = (cache_view (c, s))
         \<lparr> v_user := upd2 (v_user (cache_view (c, s))) (lo_owner x) obid (Some q) \<rparr>)"
    "v_user (cache_view (c, s)) (lo_owner x) obid \<noteq> None \<Longrightarrow>
     \<exists>t. cl_remove_user_order obid x (c, s) = (Inr (), t) \<and> cache_ok t \<and>
       cache_view t = (cache_view (c, s)) \<lparr> v_user := upd2 (v_user (cache_view (c, s))) (lo_owner x) obid
         (drop_id (lo_id x) (v_user (cache_view (c, s)) (lo_owner x) obid)) \<rparr>"
proof -
  have oku: "id_cache.cdm_ok (UserLimitOrders s) (cl_user_limit_orders c)" using ok by (simp add: cache_ok_parts)
  obtain g m where gm: "cdm_get (UserLimitOrders s) (lo_owner x) obid (cl_user_limit_orders c) = (g, m)" by fastforce
  have g: "v_user (cache_view (c, s)) (lo_owner x) obid = g"
    and okm: "id_cache.cdm_ok (UserLimitOrders s) m"
    and rows: "cdm_view (UserLimitOrders s) m = v_user (cache_view (c, s))"
    using id_rows_ops(1-3) [OF oku, of "lo_owner x" obid] by (auto simp: gm cache_view_rows)
  note ops = id_rows_ops(7-10) [OF okm, of "lo_owner x" obid]
  note okw = cache_ok_write(6) [OF ok]
  show "\<exists>r t. cl_add_user_order cfg obid x (c, s) = (r, t) \<and> cache_ok t \<and>
    (case try_push (MaxOpenedLimitOrdersPerUser cfg) (lo_id x)
        (unwrap_or (v_user (cache_view (c, s)) (lo_owner x) obid) []) of
       Inl _ \<Rightarrow> r = Inl LimitOrderStorageOverflow
     | Inr q \<Rightarrow> r = Inr () \<and> cache_view t = (cache_view (c, s))
         \<lparr> v_user := upd2 (v_user (cache_view (c, s))) (lo_owner x) obid (Some q) \<rparr>)"
    using g gm okw okm ops
    by (simp add: cl_add_user_order_def cache_view_write rows split: sum.splits)
  assume "v_user (cache_view (c, s)) (lo_owner x) obid \<noteq> None"
  then obtain q where "g = Some q" using g by auto
  with g gm okw okm ops show "\<exists>t. cl_remove_user_order obid x (c, s) = (Inr (), t) \<and> cache_ok t \<and>
       cache_view t = (cache_view (c, s)) \<lparr> v_user := upd2 (v_user (cache_view (c, s))) (lo_owner x) obid
         (drop_id (lo_id x) (v_user (cache_view (c, s)) (lo_owner x) obid)) \<rparr>"
    by (simp add: cl_remove_user_order_def Let_def drop_id_def cache_view_write rows)
qed

lemma cl_get_limit_order:
  assumes ok: "cache_ok (c, s)"
  shows "reads cache_ok cache_view (cl_get_limit_order obid i)
    (ok_or (v_orders (cache_view (c, s)) obid i) UnknownLimitOrder) (c, s)"
proof -
  have okl: "id_cache.cdm_ok (LimitOrders s) (cl_limit_orders c)" using ok by (simp add: cache_ok_parts)
  note ops = id_rows_ops(1-3) [OF okl, of obid i]
  show ?thesis
    using ops cache_ok_write(1) [OF ok ops(2)]
    by (simp add: reads_def cl_get_limit_order_def split_beta cache_view_write cache_view_rows(1) [symmetric])
qed

text \<open>The operations of both sides at once.\<close>

lemma cl_add_to_side:
  assumes ok: "cache_ok (c, s)" and div: "is_divisible (lo_price x)"
  shows "\<exists>r t. (case side of Buy \<Rightarrow> cl_add_to_bids cfg obid x | Sell \<Rightarrow> cl_add_to_asks cfg obid x) (c, s) = (r, t) \<and>
    cache_ok t \<and>
    (case try_push (MaxLimitOrdersForPrice cfg) (lo_id x)
        (unwrap_or (v_level (cache_view (c, s)) side obid (lo_price x)) []) of
       Inl _ \<Rightarrow> r = Inl ()
     | Inr q \<Rightarrow> r = Inr () \<and> cache_view t = (cache_view (c, s))
         \<lparr> v_level := upd3 (v_level (cache_view (c, s))) side obid (lo_price x) (Some q) \<rparr>)"
  using cl_add_to_bids [OF ok div] cl_add_to_asks [OF ok div] by (cases side; hypsubst; simp)

lemma cl_remove_from_side:
  assumes ok: "cache_ok (c, s)" and div: "is_divisible (lo_price x)"
  shows "\<exists>t. (case side of Buy \<Rightarrow> smodify (cl_remove_from_bids obid x)
      | Sell \<Rightarrow> smodify (cl_remove_from_asks obid x)) (c, s) = (Inr (), t) \<and> cache_ok t \<and>
    cache_view t = (cache_view (c, s))
       \<lparr> v_level := upd3 (v_level (cache_view (c, s))) side obid (lo_price x)
          (drop_id (lo_id x) (v_level (cache_view (c, s)) side obid (lo_price x))) \<rparr>"
  using cl_remove_from_bids [OF ok div] cl_remove_from_asks [OF ok div]
  by (cases side; hypsubst; simp add: smodify_def)

lemma cl_add_to_aggregated_side:
  assumes ok: "cache_ok (c, s)" and v: "inner v \<le> u128_max"
  shows "\<exists>r t. (case side of Buy \<Rightarrow> cl_add_to_aggregated_bids cfg obid p v
      | Sell \<Rightarrow> cl_add_to_aggregated_asks cfg obid p v) (c, s) = (r, t) \<and> cache_ok t \<and>
    (case agg_add (MaxSidePriceCount cfg) p v (v_agg (cache_view (c, s)) side obid) of
       None \<Rightarrow> r = Inl ()
     | Some agg \<Rightarrow> r = Inr () \<and> cache_view t = (cache_view (c, s))
         \<lparr> v_agg := upd2 (v_agg (cache_view (c, s))) side obid agg \<rparr>)"
  using cl_add_to_aggregated_bids [OF ok v] cl_add_to_aggregated_asks [OF ok v] by (cases side; hypsubst; simp)

lemma cl_sub_from_aggregated_side:
  assumes ok: "cache_ok (c, s)" and present: "bt_get p (v_agg (cache_view (c, s)) side obid) \<noteq> None"
    and sub: "agg_sub (MaxSidePriceCount cfg) p v (v_agg (cache_view (c, s)) side obid) = Some agg'"
  shows "\<exists>t. (case side of Buy \<Rightarrow> cl_sub_from_aggregated_bids cfg obid p v
      | Sell \<Rightarrow> cl_sub_from_aggregated_asks cfg obid p v) (c, s) = (Inr (), t) \<and> cache_ok t \<and>
    cache_view t = (cache_view (c, s)) \<lparr> v_agg := upd2 (v_agg (cache_view (c, s))) side obid agg' \<rparr>"
  using cl_sub_from_aggregated_bids [OF ok] cl_sub_from_aggregated_asks [OF ok] present sub
  by (cases side; hypsubst; simp)

lemma cl_push_side:
  assumes ok: "cache_ok (c, s)" and div: "is_divisible (lo_price x)" and amt: "inner (lo_amount x) \<le> u128_max"
  shows "\<exists>r t. (case lo_side x of
      Buy \<Rightarrow> sbind (cl_add_to_bids cfg obid x) (\<lambda>_. cl_add_to_aggregated_bids cfg obid (lo_price x) (lo_amount x))
    | Sell \<Rightarrow> sbind (cl_add_to_asks cfg obid x) (\<lambda>_. cl_add_to_aggregated_asks cfg obid (lo_price x) (lo_amount x)))
      (c, s) = (r, t) \<and> cache_ok t \<and>
    (case try_push (MaxLimitOrdersForPrice cfg) (lo_id x)
        (unwrap_or (v_level (cache_view (c, s)) (lo_side x) obid (lo_price x)) []) of
       Inl _ \<Rightarrow> r = Inl ()
     | Inr q \<Rightarrow>
         (case agg_add (MaxSidePriceCount cfg) (lo_price x) (lo_amount x) (v_agg (cache_view (c, s)) (lo_side x) obid) of
            None \<Rightarrow> r = Inl ()
          | Some agg \<Rightarrow> r = Inr () \<and> cache_view t = (cache_view (c, s))
              \<lparr> v_level := upd3 (v_level (cache_view (c, s))) (lo_side x) obid (lo_price x) (Some q),
                v_agg := upd2 (v_agg (cache_view (c, s))) (lo_side x) obid agg \<rparr>))"
proof (cases "try_push (MaxLimitOrdersForPrice cfg) (lo_id x)
    (unwrap_or (v_level (cache_view (c, s)) (lo_side x) obid (lo_price x)) [])")
  case (Inl u)
  then obtain t where "(case lo_side x of Buy \<Rightarrow> cl_add_to_bids cfg obid x
      | Sell \<Rightarrow> cl_add_to_asks cfg obid x) (c, s) = (Inl (), t)" "cache_ok t"
    using cl_add_to_side [OF ok div, where side = "lo_side x" and cfg = cfg and obid = obid] by auto
  with Inl show ?thesis by (cases "lo_side x") (auto simp: sbind_def)
next
  case (Inr q)
  let ?v = "(cache_view (c, s)) \<lparr> v_level :=
    upd3 (v_level (cache_view (c, s))) (lo_side x) obid (lo_price x) (Some q) \<rparr>"
  obtain c1 s1 where t: "(case lo_side x of Buy \<Rightarrow> cl_add_to_bids cfg obid x
      | Sell \<Rightarrow> cl_add_to_asks cfg obid x) (c, s) = (Inr (), c1, s1)" "cache_ok (c1, s1)"
    "cache_view (c1, s1) = ?v"
    using cl_add_to_side [OF ok div, where side = "lo_side x" and cfg = cfg and obid = obid] Inr by auto
  obtain r t' where t': "(case lo_side x of
      Buy \<Rightarrow> cl_add_to_aggregated_bids cfg obid (lo_price x) (lo_amount x)
    | Sell \<Rightarrow> cl_add_to_aggregated_asks cfg obid (lo_price x) (lo_amount x)) (c1, s1) = (r, t')" "cache_ok t'"
    "case agg_add (MaxSidePriceCount cfg) (lo_price x) (lo_amount x) (v_agg (cache_view (c1, s1)) (lo_side x) obid) of
       None \<Rightarrow> r = Inl ()
     | Some agg \<Rightarrow> r = Inr () \<and> cache_view t' = (cache_view (c1, s1))
         \<lparr> v_agg := upd2 (v_agg (cache_view (c1, s1))) (lo_side x) obid agg \<rparr>"
    using cl_add_to_aggregated_side [OF t(2) amt, where side = "lo_side x" and cfg = cfg and obid = obid and p = "lo_price x"] by blast
  show ?thesis
  proof (intro exI conjI)
    show "(case lo_side x of
      Buy \<Rightarrow> sbind (cl_add_to_bids cfg obid x) (\<lambda>_. cl_add_to_aggregated_bids cfg obid (lo_price x) (lo_amount x))
    | Sell \<Rightarrow> sbind (cl_add_to_asks cfg obid x) (\<lambda>_. cl_add_to_aggregated_asks cfg obid (lo_price x) (lo_amount x)))
      (c, s) = (r, t')"
      using t(1) t'(1) by (cases "lo_side x") (simp_all add: sbind_def)
  qed (use t' Inr in \<open>simp_all add: t(3) split: option.splits\<close>)
qed

lemma cl_insert_writes:
  assumes ok: "cache_ok d" and wf: "order_wf dv x"
  shows "writes cache_ok cache_view (cl_insert_limit_order cfg obid x) (spec_insert cfg obid x) d"
proof -
  obtain c s where d: "d = (c, s)" by (cases d)
  have div: "is_divisible (lo_price x)" and amt: "inner (lo_amount x) \<le> u128_max"
    using wf by (auto simp: order_wf_def)
  have key: "cdm_contains_key (LimitOrders s) obid (lo_id x) (cl_limit_orders c) \<longleftrightarrow>
      v_orders (cache_view (c, s)) obid (lo_id x) \<noteq> None"
    by (simp add: id_cache.cdm_contains_key_view cache_view_rows)
  show ?thesis
  proof (cases "v_orders (cache_view (c, s)) obid (lo_id x) = None")
    case False
    with ok d key show ?thesis
      by (auto simp: writes_def spec_insert_def cl_insert_limit_order_def)
  next
    case True
    let ?side = "case lo_side x of
      Buy \<Rightarrow> sbind (cl_add_to_bids cfg obid x) (\<lambda>_. cl_add_to_aggregated_bids cfg obid (lo_price x) (lo_amount x))
    | Sell \<Rightarrow> sbind (cl_add_to_asks cfg obid x) (\<lambda>_. cl_add_to_aggregated_asks cfg obid (lo_price x) (lo_amount x))"
    obtain r t where t: "?side (c, s) = (r, t)" "cache_ok t"
      "case try_push (MaxLimitOrdersForPrice cfg) (lo_id x)
          (unwrap_or (v_level (cache_view (c, s)) (lo_side x) obid (lo_price x)) []) of
         Inl _ \<Rightarrow> r = Inl ()
       | Inr q \<Rightarrow>
           (case agg_add (MaxSidePriceCount cfg) (lo_price x) (lo_amount x) (v_agg (cache_view (c, s)) (lo_side x) obid) of
              None \<Rightarrow> r = Inl ()
            | Some agg \<Rightarrow> r = Inr () \<and> cache_view t = (cache_view (c, s))
                \<lparr> v_level := upd3 (v_level (cache_view (c, s))) (lo_side x) obid (lo_price x) (Some q),
                  v_agg := upd2 (v_agg (cache_view (c, s))) (lo_side x) obid agg \<rparr>)"
      using cl_push_side [OF ok [unfolded d] div amt, of cfg obid] by blast
    obtain c1 s1 where t1: "t = (c1, s1)" by (cases t)
    obtain r2 c2 s2 where u: "cl_add_user_order cfg obid x (c1, s1) = (r2, c2, s2)" "cache_ok (c2, s2)"
      "case try_push (MaxOpenedLimitOrdersPerUser cfg) (lo_id x)
          (unwrap_or (v_user (cache_view (c1, s1)) (lo_owner x) obid) []) of
         Inl _ \<Rightarrow> r2 = Inl LimitOrderStorageOverflow
       | Inr q \<Rightarrow> r2 = Inr () \<and> cache_view (c2, s2) = (cache_view (c1, s1))
           \<lparr> v_user := upd2 (v_user (cache_view (c1, s1))) (lo_owner x) obid (Some q) \<rparr>"
      using cl_user_orders(1) [of c1 s1 cfg obid x] t(2) t1 by auto
    have okl: "id_cache.cdm_ok (LimitOrders s2) (cl_limit_orders c2)"
      using u(2) by (simp add: cache_ok_parts)
    note ops = id_rows_ops(7,8) [OF okl, of obid "lo_id x" x]
    have run: "cl_insert_limit_order cfg obid x d =
        (case r of Inl _ \<Rightarrow> (Inl LimitOrderStorageOverflow, c1, s1)
         | Inr _ \<Rightarrow> (case r2 of Inl e \<Rightarrow> (Inl e, c2, s2)
             | Inr _ \<Rightarrow> (Inr (), c2 \<lparr> cl_limit_orders := cdm_set obid (lo_id x) x (cl_limit_orders c2) \<rparr>, s2)))"
      using key True t(1) u(1)
      by (simp add: cl_insert_limit_order_def d t1 sbind_def smap_err_def smodify_def split: sum.splits)
    show ?thesis
      using t(2,3) u(2,3) True ops cache_ok_write(1) [OF u(2) ops(1)]
      unfolding writes_def run unfolding d t1
      by (auto simp: spec_insert_def cache_view_write cache_view_rows(1) [symmetric]
          split: sum.splits option.splits intro!: book_view.equality)
  qed
qed

lemma cl_get_limit_order_run:
  assumes ok: "cache_ok d"
  shows "\<exists>t. cl_get_limit_order obid i d = (ok_or (v_orders (cache_view d) obid i) UnknownLimitOrder, t) \<and>
    cache_ok t \<and> cache_view t = cache_view d"
  using cl_get_limit_order [of "fst d" "snd d" obid i] ok by (auto simp: reads_def prod_eq_iff)

lemma cl_delete_writes:
  assumes ok: "cache_ok d" and inv: "view_inv cfg dv (cache_view d)"
  shows "writes cache_ok cache_view (cl_delete_limit_order cfg obid i) (spec_delete cfg obid i) d"
proof -
  obtain c1 s1 where get: "cl_get_limit_order obid i d =
      (ok_or (v_orders (cache_view d) obid i) UnknownLimitOrder, c1, s1)" "cache_ok (c1, s1)"
    "cache_view (c1, s1) = cache_view d"
    using cl_get_limit_order_run [OF ok, of obid i] by auto
  show ?thesis
  proof (cases "v_orders (cache_view d) obid i")
    case None
    with get show ?thesis by (simp add: writes_def spec_delete_def cl_delete_limit_order_def sbind_def)
  next
    case (Some x)
    have b: "book_inv cfg (dv obid) obid (cache_view d)" using inv by (simp add: view_inv_def)
    have div: "is_divisible (lo_price x)" using book_invD(2) [OF b Some] by (simp add: order_wf_def)
    obtain v' where spec: "spec_delete cfg obid i (cache_view d) = Inr v'"
      using spec_delete_Inr [OF inv Some] by metis
    then obtain agg where agg: "agg_sub (MaxSidePriceCount cfg) (lo_price x) (lo_amount x)
          (v_agg (cache_view d) (lo_side x) obid) = Some agg"
      and u: "v_user (cache_view d) (lo_owner x) obid \<noteq> None"
      using Some by (auto simp: spec_delete_def split: option.splits if_splits)
    obtain c2 s2 where t2: "(case lo_side x of Buy \<Rightarrow> smodify (cl_remove_from_bids obid x)
        | Sell \<Rightarrow> smodify (cl_remove_from_asks obid x)) (c1, s1) = (Inr (), c2, s2)" "cache_ok (c2, s2)"
      "cache_view (c2, s2) = (cache_view d) \<lparr> v_level := upd3 (v_level (cache_view d)) (lo_side x) obid (lo_price x)
          (drop_id (lo_id x) (v_level (cache_view d) (lo_side x) obid (lo_price x))) \<rparr>"
      using cl_remove_from_side [OF get(2) div, where side = "lo_side x" and obid = obid] get(3) by auto
    have agg2: "v_agg (cache_view (c2, s2)) = v_agg (cache_view d)" by (simp add: t2(3))
    obtain c3 s3 where t3: "(case lo_side x of
          Buy \<Rightarrow> cl_sub_from_aggregated_bids cfg obid (lo_price x) (lo_amount x)
        | Sell \<Rightarrow> cl_sub_from_aggregated_asks cfg obid (lo_price x) (lo_amount x)) (c2, s2) = (Inr (), c3, s3)"
      "cache_ok (c3, s3)"
      "cache_view (c3, s3) = (cache_view (c2, s2)) \<lparr> v_agg := upd2 (v_agg (cache_view d)) (lo_side x) obid agg \<rparr>"
      using cl_sub_from_aggregated_side [OF t2(2), where side = "lo_side x" and obid = obid and p = "lo_price x"
          and cfg = cfg and v = "lo_amount x" and agg' = agg] present_agg [OF inv Some] agg
      by (auto simp: agg2)
    have u3: "v_user (cache_view (c3, s3)) = v_user (cache_view d)" by (simp add: t3(3) t2(3))
    obtain c4 s4 where t4: "cl_remove_user_order obid x (c3, s3) = (Inr (), c4, s4)" "cache_ok (c4, s4)"
      "cache_view (c4, s4) = (cache_view (c3, s3)) \<lparr> v_user := upd2 (v_user (cache_view d)) (lo_owner x) obid
         (drop_id (lo_id x) (v_user (cache_view d) (lo_owner x) obid)) \<rparr>"
      using cl_user_orders(2) [OF t3(2), of x obid] u by (auto simp: u3)
    have okl: "id_cache.cdm_ok (LimitOrders s4) (cl_limit_orders c4)" using t4(2) by (simp add: cache_ok_parts)
    note ops = id_rows_ops(9,10) [OF okl, of obid i]
    let ?c5 = "c4 \<lparr> cl_limit_orders := cdm_remove (LimitOrders s4) obid i (cl_limit_orders c4) \<rparr>"
    have "cl_delete_limit_order cfg obid i d = (Inr (), ?c5, s4)"
      using get(1) Some t2(1) t3(1) t4(1)
      by (cases "lo_side x") (simp_all add: cl_delete_limit_order_def sbind_def smap_err_def smodify_def)
    moreover have "cache_view (?c5, s4) = v'"
      using spec Some agg u ops(2)
      by (auto simp: spec_delete_def cache_view_write cache_view_rows(1) [symmetric] t4(3) t3(3) t2(3)
          intro!: book_view.equality)
    ultimately show ?thesis using cache_ok_write(1) [OF t4(2) ops(1)] spec by (simp add: writes_def)
  qed
qed

lemma cl_update_writes:
  assumes ok: "cache_ok d" and inv: "view_inv cfg dv (cache_view d)" and a: "is_divisible a = dv obid"
  shows "writes cache_ok cache_view (cl_update_limit_order_amount cfg obid i a) (spec_update cfg obid i a) d"
proof -
  obtain c1 s1 where get: "cl_get_limit_order obid i d =
      (ok_or (v_orders (cache_view d) obid i) UnknownLimitOrder, c1, s1)" "cache_ok (c1, s1)"
    "cache_view (c1, s1) = cache_view d"
    using cl_get_limit_order_run [OF ok, of obid i] by auto
  note defs = spec_update_def cl_update_limit_order_amount_def sbind_def slift_def sret_def
  show ?thesis
  proof (cases "v_orders (cache_view d) obid i")
    case None
    with get show ?thesis by (simp add: writes_def defs)
  next
    case (Some x)
    consider "a = lo_amount x" | "bu_is_zero a" "a \<noteq> lo_amount x"
      | "\<not> a < lo_amount x" "\<not> bu_is_zero a" "a \<noteq> lo_amount x"
      | "a < lo_amount x" "\<not> bu_is_zero a" "a \<noteq> lo_amount x" by blast
    then show ?thesis
    proof cases
      case 1
      with get Some show ?thesis by (simp add: writes_def defs)
    next
      case 2
      then have "cl_update_limit_order_amount cfg obid i a d = cl_delete_limit_order cfg obid i (c1, s1)"
        "spec_update cfg obid i a (cache_view d) = spec_delete cfg obid i (cache_view (c1, s1))"
        using get Some by (simp_all add: defs)
      with cl_delete_writes [OF get(2), of cfg dv obid i] inv get(3) show ?thesis
        unfolding writes_def by (simp only:)
    next
      case 3
      with get Some show ?thesis by (simp add: writes_def defs)
    next
      case 4
      obtain m where am: "a = BalanceUnit m (dv obid)" using a by (cases a) simp
      have m: "0 < m" "BalanceUnit m (dv obid) < lo_amount x" using 4 am by (auto simp: bu_is_zero_def)
      obtain v' where spec: "spec_update cfg obid i a (cache_view d) = Inr v'"
        using spec_update_Inr [OF inv Some m] am by metis
      then obtain delta agg where delta: "bu_checked_sub (lo_amount x) a = Some delta"
        and agg: "agg_sub (MaxSidePriceCount cfg) (lo_price x) delta (v_agg (cache_view d) (lo_side x) obid) = Some agg"
        using 4 Some by (auto simp: spec_update_def split: option.splits)
      obtain c2 s2 where t: "(case lo_side x of Buy \<Rightarrow> cl_sub_from_aggregated_bids cfg obid (lo_price x) delta
          | Sell \<Rightarrow> cl_sub_from_aggregated_asks cfg obid (lo_price x) delta) (c1, s1) = (Inr (), c2, s2)"
        "cache_ok (c2, s2)"
        "cache_view (c2, s2) = (cache_view d) \<lparr> v_agg := upd2 (v_agg (cache_view d)) (lo_side x) obid agg \<rparr>"
        using cl_sub_from_aggregated_side [OF get(2), where side = "lo_side x" and obid = obid and p = "lo_price x"
            and cfg = cfg and v = delta and agg' = agg] present_agg [OF inv Some] agg
        by (auto simp: get(3))
      have okl: "id_cache.cdm_ok (LimitOrders s2) (cl_limit_orders c2)" using t(2) by (simp add: cache_ok_parts)
      note ops = id_rows_ops(7,8) [OF okl, of obid i "x \<lparr> lo_amount := a \<rparr>"]
      let ?c = "c2 \<lparr> cl_limit_orders := cdm_set obid i (x \<lparr> lo_amount := a \<rparr>) (cl_limit_orders c2) \<rparr>"
      have "cl_update_limit_order_amount cfg obid i a d = (Inr (), ?c, s2)"
        using get(1) Some 4 delta t(1)
        by (cases "lo_side x") (simp_all add: defs smap_err_def smodify_def)
      moreover have "cache_view (?c, s2) = v'"
        using spec Some delta agg 4 ops(2)
        by (auto simp: spec_update_def cache_view_write cache_view_rows(1) [symmetric] t(3)
            intro!: book_view.equality)
      ultimately show ?thesis using cache_ok_write(1) [OF t(2) ops(1)] spec by (simp add: writes_def)
    qed
  qed
qed

text \<open>The reads.\<close>

lemma cl_get_bids_reads:
  assumes ok: "cache_ok d" and div: "is_divisible p"
  shows "reads cache_ok cache_view (cl_get_bids obid p) (v_level (cache_view d) Buy obid p) d"
proof -
  obtain c s where d: "d = (c, s)" by (cases d)
  have okb: "price_cache.cdm_ok (Bids s) (cl_bids c)" using ok by (simp add: d cache_ok_parts)
  note ops = price_rows_ops(1-3) [OF okb div, of obid]
  show ?thesis
    using ops cache_ok_write(2) [OF ok [unfolded d] ops(2)]
    by (simp add: reads_def d cl_get_bids_def split_beta cache_view_write cache_view_rows(2) [symmetric])
qed

lemma cl_get_aggregated_bids_reads:
  assumes ok: "cache_ok d"
  shows "\<exists>m. reads cache_ok cache_view (cl_get_aggregated_bids_opt obid) m d \<and>
    unwrap_or m [] = v_agg (cache_view d) Buy obid"
proof -
  obtain c s where d: "d = (c, s)" by (cases d)
  have oka: "id_cache.cm_ok (map_of (AggregatedBids s)) (cl_aggregated_bids c)" using ok by (simp add: d cache_ok_parts)
  note ops = agg_rows_ops(1-3) [OF oka, of obid]
  have "unwrap_or (cm_view (map_of (AggregatedBids s)) (cl_aggregated_bids c) obid) [] = v_agg (cache_view d) Buy obid"
    by (simp add: d cache_view_rows agg_rows_def)
  then show ?thesis
    using ops cache_ok_write(4) [OF ok [unfolded d] ops(2)]
    by (simp add: reads_def d cl_get_aggregated_bids_opt_def split_beta cache_view_write
        cache_view_rows(4) [symmetric])
qed

lemma cl_get_asks_reads:
  assumes ok: "cache_ok d" and div: "is_divisible p"
  shows "reads cache_ok cache_view (cl_get_asks obid p) (v_level (cache_view d) Sell obid p) d"
proof -
  obtain c s where d: "d = (c, s)" by (cases d)
  have okb: "price_cache.cdm_ok (Asks s) (cl_asks c)" using ok by (simp add: d cache_ok_parts)
  note ops = price_rows_ops(1-3) [OF okb div, of obid]
  show ?thesis
    using ops cache_ok_write(3) [OF ok [unfolded d] ops(2)]
    by (simp add: reads_def d cl_get_asks_def split_beta cache_view_write cache_view_rows(3) [symmetric])
qed

lemma cl_get_aggregated_asks_reads:
  assumes ok: "cache_ok d"
  shows "\<exists>m. reads cache_ok cache_view (cl_get_aggregated_asks_opt obid) m d \<and>
    unwrap_or m [] = v_agg (cache_view d) Sell obid"
proof -
  obtain c s where d: "d = (c, s)" by (cases d)
  have oka: "id_cache.cm_ok (map_of (AggregatedAsks s)) (cl_aggregated_asks c)" using ok by (simp add: d cache_ok_parts)
  note ops = agg_rows_ops(1-3) [OF oka, of obid]
  have "unwrap_or (cm_view (map_of (AggregatedAsks s)) (cl_aggregated_asks c) obid) [] = v_agg (cache_view d) Sell obid"
    by (simp add: d cache_view_rows agg_rows_def)
  then show ?thesis
    using ops cache_ok_write(5) [OF ok [unfolded d] ops(2)]
    by (simp add: reads_def d cl_get_aggregated_asks_opt_def split_beta cache_view_write
        cache_view_rows(5) [symmetric])
qed

lemma cl_user_reads:
  assumes ok: "cache_ok d"
  shows "reads cache_ok cache_view (cl_get_user_limit_orders a obid) (v_user (cache_view d) a obid) d"
    "reads cache_ok cache_view (cl_is_user_limit_orders_full cfg a obid)
       (map_option (\<lambda>q. MaxOpenedLimitOrdersPerUser cfg \<le> length q) (v_user (cache_view d) a obid)) d"
proof -
  obtain c s where d: "d = (c, s)" by (cases d)
  have oku: "id_cache.cdm_ok (UserLimitOrders s) (cl_user_limit_orders c)" using ok by (simp add: d cache_ok_parts)
  note ops = id_rows_ops(1-6) [OF oku, of a obid]
  show "reads cache_ok cache_view (cl_get_user_limit_orders a obid) (v_user (cache_view d) a obid) d"
    using ops cache_ok_write(6) [OF ok [unfolded d] ops(2)]
    by (simp add: reads_def d cl_get_user_limit_orders_def split_beta cache_view_write cache_view_rows(6) [symmetric])
  show "reads cache_ok cache_view (cl_is_user_limit_orders_full cfg a obid)
       (map_option (\<lambda>q. MaxOpenedLimitOrdersPerUser cfg \<le> length q) (v_user (cache_view d) a obid)) d"
    using ops cache_ok_write(6) [OF ok [unfolded d] ops(5)]
    by (simp add: reads_def d cl_is_user_limit_orders_full_def split_beta cache_view_write
        cache_view_rows(6) [symmetric])
qed

lemma cl_get_all_user_reads:
  assumes ok: "cache_ok d"
  shows "\<exists>m. reads cache_ok cache_view (cl_get_all_user_limit_orders a) m d \<and>
    sorted_wrt (<) (map fst m) \<and> (\<forall>obid. bt_get obid m = v_user (cache_view d) a obid)"
proof -
  obtain c s where d: "d = (c, s)" by (cases d)
  have oku: "id_cache.cdm_ok (UserLimitOrders s) (cl_user_limit_orders c)" using ok by (simp add: d cache_ok_parts)
  note ops = id_cache.cdm_get_by_prefix [OF oku]
  have view: "cdm_view (UserLimitOrders s) (snd (cdm_get_by_prefix (UserLimitOrders s) a (cl_user_limit_orders c))) =
      cdm_view (UserLimitOrders s) (cl_user_limit_orders c)"
    using ops(5) by (simp add: fun_eq_iff)
  show ?thesis
    using ops(1,2,4) view cache_ok_write(6) [OF ok [unfolded d] ops(4)]
    by (auto simp: reads_def d cl_get_all_user_limit_orders_def split_beta cache_view_write comp_def
        cache_view_rows(6) [symmetric])
qed

lemma cl_get_all_limit_orders_reads:
  assumes ok: "cache_ok d"
  shows "\<exists>xs. reads cache_ok cache_view (cl_get_all_limit_orders obid) xs d \<and>
    lists_orders (v_orders (cache_view d) obid) xs"
proof -
  obtain c s where d: "d = (c, s)" by (cases d)
  have okl: "id_cache.cdm_ok (LimitOrders s) (cl_limit_orders c)" using ok by (simp add: d cache_ok_parts)
  note ops = id_cache.cdm_get_by_prefix [OF okl]
  let ?m = "fst (cdm_get_by_prefix (LimitOrders s) obid (cl_limit_orders c))"
  have view: "cdm_view (LimitOrders s) (snd (cdm_get_by_prefix (LimitOrders s) obid (cl_limit_orders c))) =
      cdm_view (LimitOrders s) (cl_limit_orders c)"
    using ops(5) by (simp add: fun_eq_iff)
  have get: "bt_get i ?m = v_orders (cache_view d) obid i" for i
    using ops(1) by (simp add: d cache_view_rows)
  have sorted: "sorted_wrt (<) (map fst ?m)" using ops(2) by (simp add: comp_def)
  have m: "map_of ?m = v_orders (cache_view d) obid"
    using get lin_sorted_map_of [OF sorted] by (simp add: fun_eq_iff)
  have dist: "distinct (map fst ?m)" using sorted strict_sorted_iff by blast
  have "lists_orders (v_orders (cache_view d) obid) (map snd ?m)"
    unfolding lists_orders_def m [symmetric]
    using dist map_of_is_SomeI [OF dist] by (intro exI [of _ "map fst ?m"]) (auto simp: dom_map_of_conv_image_fst)
  then show ?thesis
    using ops(4) view cache_ok_write(1) [OF ok [unfolded d] ops(4)]
    by (auto simp: reads_def d cl_get_all_limit_orders_def split_beta cache_view_write
        cache_view_rows(1) [symmetric])
qed

lemma reads_map: "reads coh view f r d \<Longrightarrow> reads coh view (map_prod g id \<circ> f) (g r) d"
  by (simp add: reads_def split_beta map_prod_def)

interpretation cache_impl: DataLayer cfg "cache_data_layer cfg" cache_view cache_ok for cfg
proof (unfold_locales, goal_cases)
  case (1 d obid i)
  then show ?case
    using cl_get_limit_order [of "fst d" "snd d"] by (simp add: cache_data_layer_def)
next
  case (2 d obid)
  then show ?case using cl_get_all_limit_orders_reads by (simp add: cache_data_layer_def)
next
  case 3
  then show ?case by (simp add: cache_data_layer_def cl_insert_writes)
next
  case 4
  then show ?case by (simp add: cache_data_layer_def cl_update_writes)
next
  case 5
  then show ?case by (simp add: cache_data_layer_def cl_delete_writes)
next
  case 18
  then show ?case by (simp add: cache_data_layer_def cl_get_all_user_reads)
next
  case (8 d p obid)
  then show ?case
    using reads_map [OF cl_get_bids_reads] by (simp add: cache_data_layer_def)
next
  case (9 d p obid)
  then show ?case
    using reads_map [OF cl_get_asks_reads] by (simp add: cache_data_layer_def)
next
  case (10 d obid)
  then obtain m where m: "reads cache_ok cache_view (cl_get_aggregated_bids_opt obid) m d"
    "unwrap_or m [] = v_agg (cache_view d) Buy obid"
    using cl_get_aggregated_bids_reads by blast
  show ?case
    using reads_map [OF m(1), of "\<lambda>r. unwrap_or r []"] by (simp add: cache_data_layer_def m(2))
next
  case (12 d obid)
  then obtain m where m: "reads cache_ok cache_view (cl_get_aggregated_bids_opt obid) m d"
    "unwrap_or m [] = v_agg (cache_view d) Buy obid"
    using cl_get_aggregated_bids_reads by blast
  have "unwrap_or (map_option length m) 0 = length (unwrap_or m [])" by (cases m) simp_all
  then show ?case
    using reads_map [OF m(1), of "map_option length"] by (auto simp: cache_data_layer_def m(2))
next
  case (14 d obid)
  then obtain m where m: "reads cache_ok cache_view (cl_get_aggregated_bids_opt obid) m d"
    "unwrap_or m [] = v_agg (cache_view d) Buy obid"
    using cl_get_aggregated_bids_reads by blast
  have "Option.bind m side_max = side_max (unwrap_or m [])" by (cases m) simp_all
  then show ?case
    using reads_map [OF m(1), of "\<lambda>r. Option.bind r side_max"] by (simp add: cache_data_layer_def m(2))
next
  case (11 d obid)
  then obtain m where m: "reads cache_ok cache_view (cl_get_aggregated_asks_opt obid) m d"
    "unwrap_or m [] = v_agg (cache_view d) Sell obid"
    using cl_get_aggregated_asks_reads by blast
  show ?case
    using reads_map [OF m(1), of "\<lambda>r. unwrap_or r []"] by (simp add: cache_data_layer_def m(2))
next
  case (13 d obid)
  then obtain m where m: "reads cache_ok cache_view (cl_get_aggregated_asks_opt obid) m d"
    "unwrap_or m [] = v_agg (cache_view d) Sell obid"
    using cl_get_aggregated_asks_reads by blast
  have "unwrap_or (map_option length m) 0 = length (unwrap_or m [])" by (cases m) simp_all
  then show ?case
    using reads_map [OF m(1), of "map_option length"] by (auto simp: cache_data_layer_def m(2))
next
  case (15 d obid)
  then obtain m where m: "reads cache_ok cache_view (cl_get_aggregated_asks_opt obid) m d"
    "unwrap_or m [] = v_agg (cache_view d) Sell obid"
    using cl_get_aggregated_asks_reads by blast
  have "Option.bind m side_min = side_min (unwrap_or m [])" by (cases m) simp_all
  then show ?case
    using reads_map [OF m(1), of "\<lambda>r. Option.bind r side_min"] by (simp add: cache_data_layer_def m(2))
qed (simp_all add: cache_data_layer_def cl_get_bids_reads cl_get_asks_reads cl_user_reads)

section \<open>Loading and committing\<close>

lemma cl_new_view:
  assumes "storage_ok s"
  shows "cache_ok (cl_new, s)" "cache_view (cl_new, s) = storage_view s"
proof -
  show "cache_ok (cl_new, s)"
    using assms
    by (simp add: cache_ok_def storage_ok_def cl_new_def cdm_new_def cm_new_def id_cache.cdm_new_ok
        price_cache.cdm_new_ok id_cache.cm_ok_new)
  have outside: "map_of m (obid, p) = None" if "snd ` fst ` set m \<subseteq> {p. is_divisible p}" "\<not> is_divisible p"
    for m :: "(order_book_id \<times> order_price, price_orders) storage" and obid p
  proof -
    have "(obid, p) \<notin> fst ` set m" using that by force
    then show ?thesis by (simp add: map_of_eq_None_iff)
  qed
  have "v_level (cache_view (cl_new, s)) side = v_level (storage_view s) side" for side
    using outside [of "Bids s"] outside [of "Asks s"] assms
    by (cases side) (simp_all add: cache_view_rows price_rows_def cl_new_def cdm_new_def cdm_view_def cm_view_def
        cdm_second_def prefix_lookup_def storage_ok_def fun_eq_iff)
  moreover have "v_agg (cache_view (cl_new, s)) side = v_agg (storage_view s) side" for side
    by (cases side) (simp_all add: cache_view_rows agg_rows_def cl_new_def cm_new_def cm_view_def fun_eq_iff)
  ultimately show "cache_view (cl_new, s) = storage_view s"
    by (auto simp: cache_view_rows cl_new_def cdm_new_def cdm_view_def cm_view_def cdm_second_def
        prefix_lookup_def fun_eq_iff intro!: book_view.equality)
qed

lemma id_commit:
  fixes c :: "('a::linorder, 'b::linorder, 'v) cache_double_map"
  assumes "id_cache.cdm_ok s c" "cdm_commit c s = (c', s')"
  shows "(\<lambda>a b. map_of s' (a, b)) = cdm_view s c" "id_cache.cdm_ok s' c'" "cdm_view s' c' = cdm_view s c"
    "distinct (map fst s')"
  using id_cache.cdm_commit [OF assms UNIV_I] by (auto simp: fun_eq_iff id_cache.cdm_ok_def)

lemma price_commit:
  assumes "price_cache.cdm_ok s c" "cdm_commit c s = (c', s')"
  shows "(\<lambda>obid p. map_of s' (obid, p)) = price_rows s c" "price_cache.cdm_ok s' c'"
    "price_rows s' c' = price_rows s c"
    "distinct (map fst s')" "snd ` fst ` set s' \<subseteq> {p. is_divisible p}"
proof -
  have one: "divisible 0 \<in> {p. is_divisible p}" by simp
  show ok: "price_cache.cdm_ok s' c'" by (rule price_cache.cdm_commit(2) [OF assms one])
  show "price_rows s' c' = price_rows s c"
    using price_cache.cdm_commit(3) [OF assms] by (auto simp: price_rows_def fun_eq_iff)
  show d: "distinct (map fst s')" "snd ` fst ` set s' \<subseteq> {p. is_divisible p}"
    using ok by (auto simp: price_cache.cdm_ok_def)
  have "map_of s' (obid, p) = None" if "\<not> is_divisible p" for obid p
  proof -
    have "(obid, p) \<notin> fst ` set s'" using that d(2) by force
    then show ?thesis by (simp add: map_of_eq_None_iff)
  qed
  then show "(\<lambda>obid p. map_of s' (obid, p)) = price_rows s c"
    using price_cache.cdm_commit(1) [OF assms] by (auto simp: price_rows_def fun_eq_iff)
qed

lemma agg_commit:
  assumes "id_cache.cm_ok (map_of s) c" "distinct (map fst s)" "cm_commit c s = (c', s')"
  shows "(\<lambda>obid. unwrap_or (map_of s' obid) []) = agg_rows s c" "id_cache.cm_ok (map_of s') c'"
    "agg_rows s' c' = agg_rows s c" "distinct (map fst s')"
proof -
  note k = id_cache.cm_commit [OF assms(1,3)]
  show "(\<lambda>obid. unwrap_or (map_of s' obid) []) = agg_rows s c" "id_cache.cm_ok (map_of s') c'"
    "agg_rows s' c' = agg_rows s c"
    using k by (simp_all add: agg_rows_def fun_eq_iff)
  show "distinct (map fst s')"
    using id_cache.cm_commit_entries_distinct [OF assms(2), of "\<lambda>k. k" c] assms(3)
    by (auto simp: cm_commit_def split: prod.splits)
qed

lemma cl_commit_view:
  assumes ok: "cache_ok (c, s)" and run: "cl_commit (c, s) = (c', s')"
  shows "cache_ok (c', s')" "storage_ok s'" "storage_view s' = cache_view (c, s)"
    "cache_view (c', s') = cache_view (c, s)"
proof -
  note p = cache_ok_parts [OF ok]
  have da: "distinct (map fst (AggregatedBids s))" "distinct (map fst (AggregatedAsks s))"
    using ok by (simp_all add: cache_ok_def)
  note lo = id_commit [OF p(1) prod.collapse [symmetric]]
  note bids = price_commit [OF p(2) prod.collapse [symmetric]]
  note asks = price_commit [OF p(3) prod.collapse [symmetric]]
  note ab = agg_commit [OF p(4) da(1) prod.collapse [symmetric]]
  note aa = agg_commit [OF p(5) da(2) prod.collapse [symmetric]]
  note us = id_commit [OF p(6) prod.collapse [symmetric]]
  have c': "c' = fst (cl_commit (c, s))" and s': "s' = snd (cl_commit (c, s))" using run by simp_all
  show "cache_ok (c', s')" "storage_ok s'"
    using lo bids asks ab aa us
    unfolding c' s' by (simp_all add: cl_commit_def split_beta cache_ok_def storage_ok_def)
  have "v_level (storage_view s') side = v_level (cache_view (c, s)) side"
    "v_level (cache_view (c', s')) side = v_level (cache_view (c, s)) side"
    "v_agg (storage_view s') side = v_agg (cache_view (c, s)) side"
    "v_agg (cache_view (c', s')) side = v_agg (cache_view (c, s)) side" for side
    using bids asks ab aa unfolding c' s' cache_view_rows
    by (cases side; simp add: cl_commit_def split_beta storage_view_def cache_view_rows)+
  then show "storage_view s' = cache_view (c, s)" "cache_view (c', s') = cache_view (c, s)"
    using lo us unfolding c' s'
    by (auto simp: fun_eq_iff cl_commit_def split_beta storage_view_def cache_view_rows
        intro!: book_view.equality)
qed

end
