(* ===== verification/Ledger.thy ===== *)
theory Ledger
  imports Order_Types
begin

text \<open>
  Balances and the technical account of an order book.

  \<^item> \<open>do_transfer\<close> and its helpers (\<open>vendor/open-runtime-module-library-v1/tokens\<close>), the dispatch
    between the native currency and the tokens (\<open>currencies\<close>), \<open>assets::transfer_from\<close>.
  \<^item> \<open>technical::transfer_in\<close>, \<open>transfer_out\<close> and the registration of technical accounts.
  \<^item> The pallet's implementations of \<open>CurrencyLocker\<close> and \<open>CurrencyUnlocker\<close>.

  Code outside the repository is a field of the record \<open>chain\<close>: the native balances pallet, the
  reference counters of \<open>frame_system\<close>, the derivation of an account id from a technical account
  id, and what the runtime's generic parameters return.
\<close>

section \<open>Technical accounts and the state\<close>

record trading_pair =
  base_asset_id :: asset_id
  target_asset_id :: asset_id

datatype tech_purpose =
    FeeCollector
  | FeeCollectorForPair trading_pair
  | XykLiquidityKeeper trading_pair
  | Identifier "nat list"
  | OrderBookLiquidityKeeper trading_pair

datatype tech_account_id =
    Pure dex_id tech_purpose
  | GenericAccount "nat list" "nat list"
  | Wrapped account_id
  | WrappedRepr account_id
  | NoTechAccount

record account_data =
  free :: balance
  reserved :: balance
  frozen :: balance

definition default_account :: account_data where
  "default_account = \<lparr> free = 0, reserved = 0, frozen = 0 \<rparr>"

definition account_total :: "account_data \<Rightarrow> balance" where
  "account_total a = saturating_add_u u128_max (free a) (reserved a)"

text \<open>The part of the chain's storage outside the order book's data layer.\<close>

record world =
  Accounts :: "account_id \<times> asset_id \<Rightarrow> account_data option"
  NativeBalances :: "account_id \<Rightarrow> balance"
  TechAccounts :: "account_id \<Rightarrow> tech_account_id option"
  ExpirationsAgenda :: "block \<Rightarrow> (order_book_id \<times> order_id) list"
  Events :: "event list"

type_synonym 'a world_run = "(world, dispatch_error, 'a) run"

record chain =
  chain_config :: config
  tech_account_id_to_account_id :: "tech_account_id \<Rightarrow> dispatch_error + account_id"
  dec_providers :: "account_id \<Rightarrow> dispatch_error + unit"
  can_dec_provider :: "account_id \<Rightarrow> bool"
  ExistentialDeposits :: "asset_id \<Rightarrow> balance"
  DustRemovalWhitelist :: "account_id \<Rightarrow> bool"
  GetNativeCurrencyId :: asset_id
  NativeCurrency_transfer ::
    "account_id \<Rightarrow> account_id \<Rightarrow> balance \<Rightarrow> (account_id \<Rightarrow> balance, dispatch_error, unit) run"
  AssetRegulator_check_transfer :: "account_id \<Rightarrow> account_id \<Rightarrow> asset_id \<Rightarrow> dispatch_error + unit"
  asset_exists :: "asset_id \<Rightarrow> bool"

section \<open>Tokens\<close>

definition accounts :: "world \<Rightarrow> account_id \<Rightarrow> asset_id \<Rightarrow> account_data" where
  "accounts w who currency = unwrap_or (Accounts w (who, currency)) default_account"

definition ensure_can_withdraw ::
  "asset_id \<Rightarrow> account_id \<Rightarrow> balance \<Rightarrow> world \<Rightarrow> dispatch_error + unit" where
  "ensure_can_withdraw currency who amount w =
     (if amount = 0 then Inr ()
      else and_then (ok_or (checked_sub_u (free (accounts w who currency)) amount) TokensBalanceTooLow)
        (\<lambda>new_balance.
           ensure (frozen (accounts w who currency) \<le> new_balance) LiquidityRestrictions))"

text \<open>
  The account that \<open>try_mutate_account\<close> stores back: an account whose total falls below the
  existential deposit is removed when it is empty. The dust hook of the runtime is \<open>()\<close>.
\<close>

definition stored_account :: "chain \<Rightarrow> asset_id \<Rightarrow> account_data \<Rightarrow> account_data option" where
  "stored_account env currency a =
     (if account_total a < ExistentialDeposits env currency \<and> account_total a = 0 then None
      else Some a)"

definition would_be_dead :: "chain \<Rightarrow> asset_id \<Rightarrow> account_id \<Rightarrow> account_data \<Rightarrow> bool" where
  "would_be_dead env currency from a =
     (if account_total a < ExistentialDeposits env currency
      then account_total a = 0 \<or> \<not> DustRemovalWhitelist env from
      else False)"

text \<open>
  \<open>do_transfer\<close> with \<open>ExistenceRequirement::AllowDeath\<close>, the only requirement the callers use. The
  nested \<open>try_mutate_account\<close> calls write nothing when the closure fails.
\<close>

definition do_transfer ::
  "chain \<Rightarrow> asset_id \<Rightarrow> account_id \<Rightarrow> account_id \<Rightarrow> balance \<Rightarrow> unit world_run" where
  "do_transfer env currency from dest amount w =
     (if amount = 0 \<or> from = dest then (Inr (), w)
      else
        let from_account = accounts w from currency;
            to_account = accounts w dest currency
        in case
             and_then (ok_or (checked_sub_u (free from_account) amount) TokensBalanceTooLow) (\<lambda>from_free.
             and_then (ok_or (checked_add_u u128_max (free to_account) amount) ArithmeticOverflow) (\<lambda>to_free.
             let from_account = from_account \<lparr> free := from_free \<rparr>;
                 to_account = to_account \<lparr> free := to_free \<rparr>
             in and_then (ensure (ExistentialDeposits env currency \<le> account_total to_account
                                  \<or> DustRemovalWhitelist env dest) ExistentialDeposit) (\<lambda>_.
                and_then (ensure_can_withdraw currency from amount w) (\<lambda>_.
                and_then (ensure (can_dec_provider env from
                                  \<or> \<not> would_be_dead env currency from from_account) KeepAlive) (\<lambda>_.
                Inr (from_account, to_account))))))
           of Inl e \<Rightarrow> (Inl e, w)
            | Inr (from_account, to_account) \<Rightarrow>
                (Inr (), w \<lparr> Accounts := (Accounts w)
                   ((from, currency) := stored_account env currency from_account,
                    (dest, currency) := stored_account env currency to_account) \<rparr>))"

section \<open>Currencies and assets\<close>

definition currencies_transfer ::
  "chain \<Rightarrow> asset_id \<Rightarrow> account_id \<Rightarrow> account_id \<Rightarrow> balance \<Rightarrow> unit world_run" where
  "currencies_transfer env currency from dest amount w =
     (if amount = 0 \<or> from = dest then (Inr (), w)
      else if currency = GetNativeCurrencyId env
      then case NativeCurrency_transfer env from dest amount (NativeBalances w) of
             (r, nb) \<Rightarrow> (r, w \<lparr> NativeBalances := nb \<rparr>)
      else do_transfer env currency from dest amount w)"

definition ensure_asset_exists :: "chain \<Rightarrow> asset_id \<Rightarrow> dispatch_error + unit" where
  "ensure_asset_exists env asset = (if \<not> asset_exists env asset then Inl AssetIdNotExists else Inr ())"

definition transfer_from ::
  "chain \<Rightarrow> asset_id \<Rightarrow> account_id \<Rightarrow> account_id \<Rightarrow> balance \<Rightarrow> unit world_run" where
  "transfer_from env asset from dest amount =
     sbind (slift (AssetRegulator_check_transfer env from dest asset)) (\<lambda>_ w.
       case currencies_transfer env asset from dest amount w of
         (Inl e, w') \<Rightarrow>
           (and_then (ensure_asset_exists env asset) (\<lambda>_. Inl e), w')
       | (Inr _, w') \<Rightarrow> (Inr (), w'))"

section \<open>The technical pallet\<close>

definition lookup_tech_account_id :: "world \<Rightarrow> account_id \<Rightarrow> tech_account_id option" where
  "lookup_tech_account_id w account = TechAccounts w account"

definition ensure_account_registered :: "account_id \<Rightarrow> tech_account_id world_run" where
  "ensure_account_registered account w =
     (ok_or (lookup_tech_account_id w account) TechAccountIdIsNotRegistered, w)"

definition register_tech_account_id :: "chain \<Rightarrow> tech_account_id \<Rightarrow> unit world_run" where
  "register_tech_account_id env tech =
     sbind (slift (tech_account_id_to_account_id env tech)) (\<lambda>account.
       smodify (\<lambda>w. w \<lparr> TechAccounts := (TechAccounts w)(account := Some tech) \<rparr>))"

definition deregister_tech_account_id :: "chain \<Rightarrow> tech_account_id \<Rightarrow> unit world_run" where
  "deregister_tech_account_id env tech =
     sbind (slift (tech_account_id_to_account_id env tech)) (\<lambda>account w.
       case lookup_tech_account_id w account of
         None \<Rightarrow> (Inr (), w)
       | Some _ \<Rightarrow>
           sbind (slift (dec_providers env account))
             (\<lambda>_. smodify (\<lambda>w. w \<lparr> TechAccounts := (TechAccounts w)(account := None) \<rparr>)) w)"

definition transfer_in ::
  "chain \<Rightarrow> asset_id \<Rightarrow> account_id \<Rightarrow> tech_account_id \<Rightarrow> balance \<Rightarrow> unit world_run" where
  "transfer_in env asset source tech_dest amount =
     sbind (slift (tech_account_id_to_account_id env tech_dest)) (\<lambda>dest.
     sbind (ensure_account_registered dest) (\<lambda>_.
       transfer_from env asset source dest amount))"

definition transfer_out ::
  "chain \<Rightarrow> asset_id \<Rightarrow> tech_account_id \<Rightarrow> account_id \<Rightarrow> balance \<Rightarrow> unit world_run" where
  "transfer_out env asset tech_source dest amount =
     sbind (slift (tech_account_id_to_account_id env tech_source)) (\<lambda>from.
     sbind (ensure_account_registered from) (\<lambda>_.
       transfer_from env asset from dest amount))"

section \<open>The order book's locker and unlocker\<close>

text \<open>The base asset of the trading pair is the quote asset of the order book.\<close>

definition trading_pair_of :: "order_book_id \<Rightarrow> trading_pair" where
  "trading_pair_of obid = \<lparr> base_asset_id = ob_quote obid, target_asset_id = ob_base obid \<rparr>"

definition to_order_tech_unit_from_dex_and_trading_pair ::
  "dex_id \<Rightarrow> trading_pair \<Rightarrow> tech_account_id" where
  "to_order_tech_unit_from_dex_and_trading_pair dex_id pair =
     Pure dex_id (OrderBookLiquidityKeeper pair)"

definition tech_account_for_order_book :: "order_book_id \<Rightarrow> tech_account_id" where
  "tech_account_for_order_book obid =
     to_order_tech_unit_from_dex_and_trading_pair (ob_dex obid) (trading_pair_of obid)"

definition register_tech_account :: "chain \<Rightarrow> order_book_id \<Rightarrow> unit world_run" where
  "register_tech_account env obid = register_tech_account_id env (tech_account_for_order_book obid)"

definition deregister_tech_account :: "chain \<Rightarrow> order_book_id \<Rightarrow> unit world_run" where
  "deregister_tech_account env obid =
     deregister_tech_account_id env (tech_account_for_order_book obid)"

definition lock_liquidity :: "chain \<Rightarrow> world locker" where
  "lock_liquidity env account obid asset amount =
     transfer_in env asset account (tech_account_for_order_book obid) (inner amount)"

definition unlock_liquidity :: "chain \<Rightarrow> world locker" where
  "unlock_liquidity env account obid asset amount =
     transfer_out env asset (tech_account_for_order_book obid) account (inner amount)"

definition unlock_liquidity_batch :: "chain \<Rightarrow> world batch_unlocker" where
  "unlock_liquidity_batch env obid asset receivers =
     sfor (\<lambda>(account, amount).
             transfer_out env asset (tech_account_for_order_book obid) account (inner amount)) receivers"

section \<open>Exact transfers\<close>

text \<open>A movement of \<open>n\<close> units of asset \<open>a\<close>, as a function on balance sheets.\<close>

definition moved ::
  "asset_id \<Rightarrow> account_id \<Rightarrow> account_id \<Rightarrow> balance \<Rightarrow> (asset_id \<Rightarrow> account_id \<Rightarrow> balance) \<Rightarrow>
   asset_id \<Rightarrow> account_id \<Rightarrow> balance" where
  "moved a f t n b =
     (if f = t then b
      else (\<lambda>x y. if x \<noteq> a then b x y else if y = f then b x y - n else if y = t then b x y + n
                  else b x y))"

text \<open>What a list of payments adds up to for one account.\<close>

definition paid_to :: "(account_id \<times> order_volume) list \<Rightarrow> account_id \<Rightarrow> balance" where
  "paid_to ps y = sum_list (map (\<lambda>(account, v). if account = y then inner v else 0) ps)"

definition paid_total :: "(account_id \<times> order_volume) list \<Rightarrow> balance" where
  "paid_total ps = sum_list (map (\<lambda>(account, v). inner v) ps)"

locale exact_transfers =
  fixes transfer :: "asset_id \<Rightarrow> account_id \<Rightarrow> account_id \<Rightarrow> balance \<Rightarrow> ('w, dispatch_error, unit) run"
    and bal :: "'w \<Rightarrow> asset_id \<Rightarrow> account_id \<Rightarrow> balance"
  assumes moves: "transfer a f t n w = (Inr u, w') \<Longrightarrow> bal w' = moved a f t n (bal w)"
    and covered: "transfer a f t n w = (Inr u, w') \<Longrightarrow> f \<noteq> t \<Longrightarrow> n \<le> bal w a f"
begin

lemma conserves:
  assumes "transfer a f t n w = (Inr u, w')" and "finite S" and "f \<in> S" and "t \<in> S"
  shows "(\<Sum>y\<in>S. bal w' x y) = (\<Sum>y\<in>S. bal w x y)"
proof (cases "x = a \<and> f \<noteq> t")
  case True
  have two: "(\<Sum>y\<in>S. g y) = g f + (g t + (\<Sum>y\<in>S - {f} - {t}. g y))" for g :: "account_id \<Rightarrow> nat"
    using assms(2-4) True by (simp add: sum.remove [of S f] sum.remove [of "S - {f}" t])
  have "(\<Sum>y\<in>S - {f} - {t}. bal w' x y) = (\<Sum>y\<in>S - {f} - {t}. bal w x y)"
    using True by (intro sum.cong) (auto simp: moves [OF assms(1)] moved_def)
  moreover have "bal w' x f + n = bal w x f" and "bal w' x t = bal w x t + n"
    using True covered [OF assms(1)] by (auto simp: moves [OF assms(1)] moved_def)
  ultimately show ?thesis
    unfolding two [of "bal w' x"] two [of "bal w x"] by simp
qed (auto simp: moves [OF assms(1)] moved_def)

lemma gather:
  assumes "sfor (\<lambda>(account, v). transfer a account t (inner v)) ps w = (Inr u, w')"
    and "t \<notin> fst ` set ps"
  shows "bal w' a t = bal w a t + paid_total ps"
    and "y \<noteq> t \<Longrightarrow> bal w' a y + paid_to ps y = bal w a y"
    and "x \<noteq> a \<Longrightarrow> bal w' x = bal w x"
proof -
  have "bal w' a t = bal w a t + paid_total ps
    \<and> (\<forall>y. y \<noteq> t \<longrightarrow> bal w' a y + paid_to ps y = bal w a y) \<and> (\<forall>x. x \<noteq> a \<longrightarrow> bal w' x = bal w x)"
    using assms
  proof (induction ps arbitrary: w)
    case (Cons p ps)
    obtain account v where p: "p = (account, v)" by (cases p)
    from Cons.prems obtain w1 where step: "transfer a account t (inner v) w = (Inr (), w1)"
      and rest: "sfor (\<lambda>(account, v). transfer a account t (inner v)) ps w1 = (Inr u, w')"
      by (auto simp: p run_simps)
    have ne: "account \<noteq> t" and notin: "t \<notin> fst ` set ps" using Cons.prems(2) by (auto simp: p)
    show ?case
      using Cons.IH [OF rest notin] moves [OF step] covered [OF step ne] ne
      by (auto simp: p moved_def paid_to_def paid_total_def fun_eq_iff)
  qed (auto simp: run_simps paid_to_def paid_total_def)
  then show "bal w' a t = bal w a t + paid_total ps"
    and "y \<noteq> t \<Longrightarrow> bal w' a y + paid_to ps y = bal w a y"
    and "x \<noteq> a \<Longrightarrow> bal w' x = bal w x"
    by auto
qed

lemma scatter:
  assumes "sfor (\<lambda>(account, v). transfer a f account (inner v)) ps w = (Inr u, w')"
    and "f \<notin> fst ` set ps"
  shows "bal w' a f + paid_total ps = bal w a f"
    and "y \<noteq> f \<Longrightarrow> bal w' a y = bal w a y + paid_to ps y"
    and "x \<noteq> a \<Longrightarrow> bal w' x = bal w x"
proof -
  have "bal w' a f + paid_total ps = bal w a f
    \<and> (\<forall>y. y \<noteq> f \<longrightarrow> bal w' a y = bal w a y + paid_to ps y) \<and> (\<forall>x. x \<noteq> a \<longrightarrow> bal w' x = bal w x)"
    using assms
  proof (induction ps arbitrary: w)
    case (Cons p ps)
    obtain account v where p: "p = (account, v)" by (cases p)
    from Cons.prems obtain w1 where step: "transfer a f account (inner v) w = (Inr (), w1)"
      and rest: "sfor (\<lambda>(account, v). transfer a f account (inner v)) ps w1 = (Inr u, w')"
      by (auto simp: p run_simps)
    have ne: "f \<noteq> account" and notin: "f \<notin> fst ` set ps" using Cons.prems(2) by (auto simp: p)
    show ?case
      using Cons.IH [OF rest notin] moves [OF step] covered [OF step ne] ne
      by (auto simp: p moved_def paid_to_def paid_total_def fun_eq_iff)
  qed (auto simp: run_simps paid_to_def paid_total_def)
  then show "bal w' a f + paid_total ps = bal w a f"
    and "y \<noteq> f \<Longrightarrow> bal w' a y = bal w a y + paid_to ps y"
    and "x \<noteq> a \<Longrightarrow> bal w' x = bal w x"
    by auto
qed

end

text \<open>The tokens pallet moves exactly the amount it is asked to move.\<close>

definition token_balance :: "world \<Rightarrow> asset_id \<Rightarrow> account_id \<Rightarrow> balance" where
  "token_balance w asset who = free (accounts w who asset)"

lemma accounts_stored:
  "free (unwrap_or (stored_account env currency a) default_account) = free a"
  by (auto simp: stored_account_def default_account_def account_total_def saturating_add_u_def
      u128_max_def)

lemma do_transfer_Inr:
  assumes "do_transfer env currency f t n w = (Inr u, w')" and "n \<noteq> 0" and "f \<noteq> t"
  shows "n \<le> free (accounts w f currency)"
    and "w' = w \<lparr> Accounts := (Accounts w)
       ((f, currency) := stored_account env currency
          ((accounts w f currency) \<lparr> free := free (accounts w f currency) - n \<rparr>),
        (t, currency) := stored_account env currency
          ((accounts w t currency) \<lparr> free := free (accounts w t currency) + n \<rparr>)) \<rparr>"
  using assms
  by (auto simp: do_transfer_def Let_def run_simps bal_simps split: sum.splits)

interpretation tokens: exact_transfers "do_transfer env" token_balance for env
proof
  fix a f t n w and u :: unit and w'
  assume run: "do_transfer env a f t n w = (Inr u, w')"
  show "token_balance w' = moved a f t n (token_balance w)"
  proof (cases "n = 0 \<or> f = t")
    case True
    then have "w' = w" using run by (auto simp: do_transfer_def)
    then show ?thesis using True by (auto simp: moved_def fun_eq_iff)
  next
    case False
    then show ?thesis
      by (auto simp: do_transfer_Inr(2) [OF run] moved_def fun_eq_iff token_balance_def accounts_def
          accounts_stored)
  qed
  assume "f \<noteq> t"
  then show "n \<le> token_balance w a f"
    using do_transfer_Inr(1) [OF run] by (cases "n = 0") (auto simp: token_balance_def)
qed

text \<open>
  The native currency is not part of the repository. What the order book relies on is that a
  transfer that succeeds moves exactly the amount; the runtime sets its existential deposit to 0.
\<close>

definition native_exact :: "chain \<Rightarrow> bool" where
  "native_exact env \<longleftrightarrow>
     (\<forall>f t n b b'. f \<noteq> t \<longrightarrow> NativeCurrency_transfer env f t n b = (Inr (), b') \<longrightarrow>
        n \<le> b f \<and> b' = b(f := b f - n, t := b t + n))"

definition balance_of :: "chain \<Rightarrow> world \<Rightarrow> asset_id \<Rightarrow> account_id \<Rightarrow> balance" where
  "balance_of env w asset who =
     (if asset = GetNativeCurrencyId env then NativeBalances w who else token_balance w asset who)"

lemma do_transfer_native [simp]:
  "do_transfer env a f t n w = (r, w') \<Longrightarrow> NativeBalances w' = NativeBalances w"
  by (auto simp: do_transfer_def Let_def split: if_splits sum.splits)

lemma currencies_exact:
  assumes "native_exact env"
  shows "exact_transfers (currencies_transfer env) (balance_of env)"
proof
  fix a f t n w and u :: unit and w'
  assume run: "currencies_transfer env a f t n w = (Inr u, w')"
  have noop: "w' = w" if "n = 0 \<or> f = t" using run that by (auto simp: currencies_transfer_def)
  have native: "n \<le> NativeBalances w f \<and> w' = w \<lparr> NativeBalances :=
      (NativeBalances w)(f := NativeBalances w f - n, t := NativeBalances w t + n) \<rparr>"
    if "\<not> (n = 0 \<or> f = t)" and "a = GetNativeCurrencyId env"
    using run that assms by (auto simp: currencies_transfer_def native_exact_def split: prod.splits)
  have token: "do_transfer env a f t n w = (Inr u, w')"
    if "\<not> (n = 0 \<or> f = t)" and "a \<noteq> GetNativeCurrencyId env"
    using run that by (auto simp: currencies_transfer_def)
  show "balance_of env w' = moved a f t n (balance_of env w)"
  proof (cases "n = 0 \<or> f = t")
    case True
    then show ?thesis using noop by (auto simp: moved_def fun_eq_iff)
  next
    case moving: False
    show ?thesis
    proof (cases "a = GetNativeCurrencyId env")
      case True
      then show ?thesis
        using native [OF moving True] moving
        by (auto simp: moved_def fun_eq_iff balance_of_def token_balance_def accounts_def)
    next
      case False
      then show ?thesis
        using tokens.moves [OF token [OF moving False]] do_transfer_native [OF token [OF moving False]]
          moving
        by (auto simp: moved_def fun_eq_iff balance_of_def)
    qed
  qed
  assume "f \<noteq> t"
  show "n \<le> balance_of env w a f"
  proof (cases "n = 0")
    case False
    with \<open>f \<noteq> t\<close> have moving: "\<not> (n = 0 \<or> f = t)" by simp
    show ?thesis
    proof (cases "a = GetNativeCurrencyId env")
      case True
      then show ?thesis using native [OF moving True] by (simp add: balance_of_def)
    next
      case False
      then show ?thesis
        using tokens.covered [OF token [OF moving False] \<open>f \<noteq> t\<close>] by (simp add: balance_of_def)
    qed
  qed simp
qed

lemma assets_exact:
  assumes "native_exact env"
  shows "exact_transfers (transfer_from env) (balance_of env)"
proof -
  have "currencies_transfer env a f t n w = (Inr u, w')"
    if "transfer_from env a f t n w = (Inr u, w')" for a f t n w u w'
    using that by (auto simp: transfer_from_def run_simps and_then_Inl split: prod.splits sum.splits)
  note run = this
  show ?thesis
    by unfold_locales
      (erule run [THEN exact_transfers.moves [OF currencies_exact [OF assms]]],
       erule run [THEN exact_transfers.covered [OF currencies_exact [OF assms]]])
qed

section \<open>Executing a payment\<close>

definition pay_to :: "pay_map \<Rightarrow> asset_id \<Rightarrow> account_id \<Rightarrow> balance" where
  "pay_to m a y = sum_list (map (\<lambda>(asset, whom). if asset = a then paid_to whom y else 0) m)"

definition pay_total :: "pay_map \<Rightarrow> asset_id \<Rightarrow> balance" where
  "pay_total m a = sum_list (map (\<lambda>(asset, whom). if asset = a then paid_total whom else 0) m)"

definition pay_accounts :: "pay_map \<Rightarrow> account_id set" where
  "pay_accounts m = (\<Union>(asset, whom) \<in> set m. fst ` set whom)"

definition book_account :: "chain \<Rightarrow> order_book_id \<Rightarrow> account_id \<Rightarrow> bool" where
  "book_account env obid t \<longleftrightarrow>
     tech_account_id_to_account_id env (tech_account_for_order_book obid) = Inr t"

lemma lock_liquidity_run:
  "book_account env obid t \<Longrightarrow> lock_liquidity env account obid asset v w = (Inr u, w') \<Longrightarrow>
   transfer_from env asset account t (inner v) w = (Inr u, w')"
  by (auto simp: lock_liquidity_def transfer_in_def book_account_def run_simps
      ensure_account_registered_def)

lemma transfer_out_run:
  "book_account env obid t \<Longrightarrow>
   transfer_out env asset (tech_account_for_order_book obid) account n w = (Inr u, w') \<Longrightarrow>
   transfer_from env asset t account n w = (Inr u, w')"
  by (auto simp: transfer_out_def book_account_def run_simps ensure_account_registered_def)

lemma sfor_mono:
  fixes f g :: "'x \<Rightarrow> ('w, 'e, unit) run"
  assumes "\<And>x w w'. x \<in> set xs \<Longrightarrow> f x w = (Inr (), w') \<Longrightarrow> g x w = (Inr (), w')"
    and "sfor f xs w = (Inr u, w')"
  shows "sfor g xs w = (Inr u, w')"
  using assms
proof (induction xs arbitrary: w)
  case (Cons x xs)
  from Cons.prems(2) obtain w1 where "f x w = (Inr (), w1)" and "sfor f xs w1 = (Inr u, w')"
    by (auto simp: run_simps)
  with Cons.prems(1) Cons.IH [of w1] show ?case by (auto simp: run_simps)
qed auto

lemma payment_lock_effect:
  assumes "native_exact env" and "book_account env (pay_order_book_id p) t"
    and "payment_lock (lock_liquidity env) p w = (Inr u, w')" and "t \<notin> pay_accounts (to_lock p)"
  shows "balance_of env w' a t = balance_of env w a t + pay_total (to_lock p) a
    \<and> (\<forall>y. y \<noteq> t \<longrightarrow> balance_of env w' a y + pay_to (to_lock p) a y = balance_of env w a y)"
proof -
  note gather = exact_transfers.gather [OF assets_exact [OF assms(1)]]
  define m where "m = to_lock p"
  have "sfor (\<lambda>(asset, whom). sfor (\<lambda>(account, v). transfer_from env asset account t (inner v)) whom) m w
        = (Inr u, w')"
    using assms(3) unfolding payment_lock_def m_def
    by (rule sfor_mono [rotated])
      (auto elim!: sfor_mono [rotated] dest!: lock_liquidity_run [OF assms(2)])
  then show ?thesis
    using assms(4) unfolding m_def [symmetric]
  proof (induction m arbitrary: w)
    case (Cons p m)
    obtain asset whom where p: "p = (asset, whom)" by (cases p)
    from Cons.prems(1) obtain w1
      where one: "sfor (\<lambda>(account, v). transfer_from env asset account t (inner v)) whom w = (Inr (), w1)"
        and rest: "sfor (\<lambda>(asset, whom).
            sfor (\<lambda>(account, v). transfer_from env asset account t (inner v)) whom) m w1 = (Inr u, w')"
      by (auto simp: p run_simps)
    have notin: "t \<notin> fst ` set whom" "t \<notin> pay_accounts m"
      using Cons.prems(2) by (auto simp: p pay_accounts_def)
    show ?case
    proof (cases "asset = a")
      case True
      then show ?thesis
        using Cons.IH [OF rest notin(2)] gather(1) [OF one notin(1)]
          gather(2) [OF one notin(1), symmetric]
        by (auto simp: p pay_total_def pay_to_def)
    next
      case False
      then show ?thesis
        using Cons.IH [OF rest notin(2)] gather(3) [OF one notin(1), of a]
        by (auto simp: p pay_total_def pay_to_def)
    qed
  qed (auto simp: run_simps pay_total_def pay_to_def)
qed

lemma payment_unlock_effect:
  assumes "native_exact env" and "book_account env (pay_order_book_id p) t"
    and "payment_unlock (unlock_liquidity_batch env) p w = (Inr u, w')"
    and "t \<notin> pay_accounts (to_unlock p)"
  shows "balance_of env w' a t + pay_total (to_unlock p) a = balance_of env w a t
    \<and> (\<forall>y. y \<noteq> t \<longrightarrow> balance_of env w' a y = balance_of env w a y + pay_to (to_unlock p) a y)"
proof -
  note scatter = exact_transfers.scatter [OF assets_exact [OF assms(1)]]
  define m where "m = to_unlock p"
  have "sfor (\<lambda>(asset, whom). sfor (\<lambda>(account, v). transfer_from env asset t account (inner v)) whom) m w
        = (Inr u, w')"
    using assms(3) unfolding payment_unlock_def m_def unlock_liquidity_batch_def
    by (rule sfor_mono [rotated])
      (auto elim!: sfor_mono [rotated] dest!: transfer_out_run [OF assms(2)])
  then show ?thesis
    using assms(4) unfolding m_def [symmetric]
  proof (induction m arbitrary: w)
    case (Cons p m)
    obtain asset whom where p: "p = (asset, whom)" by (cases p)
    from Cons.prems(1) obtain w1
      where one: "sfor (\<lambda>(account, v). transfer_from env asset t account (inner v)) whom w = (Inr (), w1)"
        and rest: "sfor (\<lambda>(asset, whom).
            sfor (\<lambda>(account, v). transfer_from env asset t account (inner v)) whom) m w1 = (Inr u, w')"
      by (auto simp: p run_simps)
    have notin: "t \<notin> fst ` set whom" "t \<notin> pay_accounts m"
      using Cons.prems(2) by (auto simp: p pay_accounts_def)
    show ?case
    proof (cases "asset = a")
      case True
      then show ?thesis
        using Cons.IH [OF rest notin(2)] scatter(1) [OF one notin(1)] scatter(2) [OF one notin(1)]
        by (auto simp: p pay_total_def pay_to_def)
    next
      case False
      then show ?thesis
        using Cons.IH [OF rest notin(2)] scatter(3) [OF one notin(1), of a]
        by (auto simp: p pay_total_def pay_to_def)
    qed
  qed (auto simp: run_simps pay_total_def pay_to_def)
qed

lemma execute_all_effect:
  assumes "native_exact env" and "book_account env (pay_order_book_id p) t"
    and "execute_all (lock_liquidity env) (unlock_liquidity_batch env) p w = (Inr u, w')"
    and "t \<notin> pay_accounts (to_lock p)" and "t \<notin> pay_accounts (to_unlock p)"
  shows "balance_of env w' a t + pay_total (to_unlock p) a = balance_of env w a t + pay_total (to_lock p) a"
    and "y \<noteq> t \<Longrightarrow> balance_of env w' a y + pay_to (to_lock p) a y =
           balance_of env w a y + pay_to (to_unlock p) a y"
proof -
  from assms(3) obtain w1
    where l: "payment_lock (lock_liquidity env) p w = (Inr (), w1)"
      and u: "payment_unlock (unlock_liquidity_batch env) p w1 = (Inr u, w')"
    by (auto simp: execute_all_def run_simps)
  note le = payment_lock_effect [OF assms(1,2) l assms(4), of a]
  note ue = payment_unlock_effect [OF assms(1,2) u assms(5), of a]
  show "balance_of env w' a t + pay_total (to_unlock p) a = balance_of env w a t + pay_total (to_lock p) a"
    using le ue by simp
  assume "y \<noteq> t"
  then have "balance_of env w' a y = balance_of env w1 a y + pay_to (to_unlock p) a y"
    and "balance_of env w1 a y + pay_to (to_lock p) a y = balance_of env w a y"
    using le ue by auto
  then show "balance_of env w' a y + pay_to (to_lock p) a y =
      balance_of env w a y + pay_to (to_unlock p) a y" by simp
qed

end
