(* ===== verification/Expiration_Agenda.thy ===== *)
theory Expiration_Agenda
  imports Ledger Data_Layer
begin

text \<open>
  The agenda of expirations (\<open>ExpirationsAgenda\<close>) and the delegate that deposits events:
  \<open>schedule_expiration\<close> and \<open>unschedule_expiration\<close> of \<open>pallets/order-book/src/scheduler.rs\<close> and
  \<open>emit_event\<close> of \<open>pallets/order-book/src/lib.rs\<close>.
\<close>

definition schedule_expiration ::
  "chain \<Rightarrow> block \<Rightarrow> order_book_id \<Rightarrow> order_id \<Rightarrow> unit world_run" where
  "schedule_expiration env when_block obid i w =
     (case try_push (MaxExpiringOrdersPerBlock (chain_config env)) (obid, i)
             (ExpirationsAgenda w when_block) of
        Inl _ \<Rightarrow> (Inl BlockScheduleFull, w)
      | Inr block_expirations \<Rightarrow>
          (Inr (), w \<lparr> ExpirationsAgenda := (ExpirationsAgenda w)(when_block := block_expirations) \<rparr>))"

text \<open>\<open>iter().position(..)\<close> followed by \<open>remove(index)\<close> takes out the first occurrence.\<close>

definition unschedule_expiration ::
  "block \<Rightarrow> order_book_id \<Rightarrow> order_id \<Rightarrow> unit world_run" where
  "unschedule_expiration when_block obid i w =
     (if (obid, i) \<notin> set (ExpirationsAgenda w when_block) then (Inl ExpirationNotFound, w)
      else
        (Inr (), w \<lparr> ExpirationsAgenda := (ExpirationsAgenda w)
           (when_block := remove1 (obid, i) (ExpirationsAgenda w when_block)) \<rparr>))"

definition deposit_event :: "event \<Rightarrow> unit world_run" where
  "deposit_event e = smodify (\<lambda>w. w \<lparr> Events := Events w @ [e] \<rparr>)"

definition emit_event :: "order_book_id \<Rightarrow> order_book_event \<Rightarrow> unit world_run" where
  "emit_event obid e = deposit_event (BookEvent obid e)"

lemma schedule_expiration_Inr [run_simps]:
  "schedule_expiration env b obid i w = (Inr u, w') \<longleftrightarrow>
     length (ExpirationsAgenda w b) < MaxExpiringOrdersPerBlock (chain_config env) \<and>
     w' = w \<lparr> ExpirationsAgenda := (ExpirationsAgenda w)(b := ExpirationsAgenda w b @ [(obid, i)]) \<rparr>"
  by (auto simp: schedule_expiration_def try_push_def)

lemma unschedule_expiration_Inr [run_simps]:
  "unschedule_expiration b obid i w = (Inr u, w') \<longleftrightarrow>
     (obid, i) \<in> set (ExpirationsAgenda w b) \<and>
     w' = w \<lparr> ExpirationsAgenda := (ExpirationsAgenda w)(b := remove1 (obid, i) (ExpirationsAgenda w b)) \<rparr>"
  by (auto simp: unschedule_expiration_def)

lemma deposit_event_Inr [run_simps]:
  "deposit_event e w = (r, w') \<longleftrightarrow> r = Inr () \<and> w' = w \<lparr> Events := Events w @ [e] \<rparr>"
  by (auto simp: deposit_event_def smodify_def)

lemma emit_event_Inr [run_simps]:
  "emit_event obid e w = (r, w') \<longleftrightarrow> r = Inr () \<and> w' = w \<lparr> Events := Events w @ [BookEvent obid e] \<rparr>"
  by (simp add: emit_event_def deposit_event_Inr)

lemmas agenda_exec [exec_simps] =
  schedule_expiration_def unschedule_expiration_def emit_event_def deposit_event_def

end
