(* ===== verification/Order_Book.thy ===== *)
theory Order_Book
  imports Expiration_Agenda
begin

text \<open>
  The matching engine (\<open>pallets/order-book/src/order_book.rs\<close>). Functions that only read the book
  are transformers of the data layer's state; those that also move balances, edit the agenda or
  deposit events work on the pair of the data layer's state and the \<open>world\<close>.

  Rust's \<open>%\<close> and \<open>saturating_div\<close> panic on a zero divisor. The divisors are the book's
  \<open>tick_size\<close> and \<open>step_lot_size\<close>, which \<open>verify_orderbook_attributes\<close> keeps away from zero.
\<close>

section \<open>Order books\<close>

record order_book =
  book_id :: order_book_id
  book_status :: order_book_status
  last_order_id :: order_id
  tick_size :: order_price
  step_lot_size :: order_volume
  min_lot_size :: order_volume
  max_lot_size :: order_volume
  tech_status :: order_book_tech_status

type_synonym ('d, 'a) book_run = "('d \<times> world, dispatch_error, 'a) run"

datatype quote_amount = WithDesiredInput balance | WithDesiredOutput balance

definition order_book_new ::
  "order_book_id \<Rightarrow> order_price \<Rightarrow> order_volume \<Rightarrow> order_volume \<Rightarrow> order_volume \<Rightarrow> order_book" where
  "order_book_new obid tick step lot_min lot_max =
     \<lparr> book_id = obid, book_status = Trade, last_order_id = 0, tick_size = tick, step_lot_size = step,
       min_lot_size = lot_min, max_lot_size = lot_max, tech_status = Ready \<rparr>"

definition next_order_id :: "order_book \<Rightarrow> order_id \<times> order_book" where
  "next_order_id book =
     (let i = saturating_add_u u128_max (last_order_id book) 1
      in (i, book \<lparr> last_order_id := i \<rparr>))"

definition get_direction :: "order_book \<Rightarrow> asset_id \<Rightarrow> asset_id \<Rightarrow> dispatch_error + price_variant" where
  "get_direction book input_asset output_asset =
     (if ob_base (book_id book) = output_asset \<and> ob_quote (book_id book) = input_asset then Inr Buy
      else if ob_base (book_id book) = input_asset \<and> ob_quote (book_id book) = output_asset then Inr Sell
      else Inl InvalidAsset)"

definition align_amount :: "order_book \<Rightarrow> order_volume \<Rightarrow> order_volume" where
  "align_amount book amount =
     (let steps = inner amount div inner (step_lot_size book);
          aligned = saturating_mul_u u128_max steps (inner (step_lot_size book))
      in bu_set amount aligned)"

section \<open>Validity of orders\<close>

definition ensure_limit_order_valid :: "config \<Rightarrow> order_book \<Rightarrow> limit_order \<Rightarrow> dispatch_error + unit" where
  "ensure_limit_order_valid cfg book x =
     and_then (lo_ensure_valid cfg x) (\<lambda>_.
     and_then (ensure (inner (lo_price x) mod inner (tick_size book) = 0) InvalidLimitOrderPrice) (\<lambda>_.
     and_then (ensure (min_lot_size book \<le> lo_amount x \<and> lo_amount x \<le> max_lot_size book)
       InvalidOrderAmount) (\<lambda>_.
     ensure (inner (lo_amount x) mod inner (step_lot_size book) = 0) InvalidOrderAmount)))"

definition ensure_market_order_valid :: "order_book \<Rightarrow> market_order \<Rightarrow> dispatch_error + unit" where
  "ensure_market_order_valid book m =
     and_then (mo_ensure_valid m) (\<lambda>_.
     and_then (ensure (mo_order_book_id m = book_id book) InvalidOrderBookId) (\<lambda>_.
     and_then (ensure (min_lot_size book \<le> mo_amount m \<and> mo_amount m \<le> max_lot_size book)
       InvalidOrderAmount) (\<lambda>_.
     ensure (inner (mo_amount m) mod inner (step_lot_size book) = 0) InvalidOrderAmount)))"

definition check_restrictions ::
  "config \<Rightarrow> 'd data_layer \<Rightarrow> order_book \<Rightarrow> limit_order \<Rightarrow> ('d, dispatch_error, unit) run" where
  "check_restrictions cfg dl book x =
     sbind (sread (dl_is_user_limit_orders_full dl (lo_owner x) (book_id book))) (\<lambda>user_full.
     sbind (slift (case user_full of
                     None \<Rightarrow> Inr ()
                   | Some f \<Rightarrow> ensure (\<not> f) UserHasMaxCountOfOpenedOrders)) (\<lambda>_.
     case lo_side x of
       Buy \<Rightarrow>
         sbind (sread (dl_is_bid_price_full dl (book_id book) (lo_price x))) (\<lambda>price_full.
         case price_full of
           Some f \<Rightarrow> slift (ensure (\<not> f) PriceReachedMaxCountOfLimitOrders)
         | None \<Rightarrow>
             sbind (sread (dl_get_aggregated_bids_len dl (book_id book))) (\<lambda>len.
             slift (ensure (unwrap_or len 0 < MaxSidePriceCount cfg)
               OrderBookReachedMaxCountOfPricesForSide)))
     | Sell \<Rightarrow>
         sbind (sread (dl_is_ask_price_full dl (book_id book) (lo_price x))) (\<lambda>price_full.
         case price_full of
           Some f \<Rightarrow> slift (ensure (\<not> f) PriceReachedMaxCountOfLimitOrders)
         | None \<Rightarrow>
             sbind (sread (dl_get_aggregated_asks_len dl (book_id book))) (\<lambda>len.
             slift (ensure (unwrap_or len 0 < MaxSidePriceCount cfg)
               OrderBookReachedMaxCountOfPricesForSide)))))"

section \<open>Market data\<close>

definition best_bid ::
  "'d data_layer \<Rightarrow> order_book \<Rightarrow> 'd \<Rightarrow> (order_price \<times> order_volume) option \<times> 'd" where
  "best_bid dl book = dl_best_bid dl (book_id book)"

definition best_ask ::
  "'d data_layer \<Rightarrow> order_book \<Rightarrow> 'd \<Rightarrow> (order_price \<times> order_volume) option \<times> 'd" where
  "best_ask dl book = dl_best_ask dl (book_id book)"

text \<open>
  The aggregated levels against which an order of the given direction is executed, best price
  first: asks in ascending, bids in descending order of price.
\<close>

definition market_data ::
  "'d data_layer \<Rightarrow> order_book \<Rightarrow> price_variant \<Rightarrow> ('d, dispatch_error, market_side) run" where
  "market_data dl book direction =
     (case direction of
        Buy \<Rightarrow> sread (dl_get_aggregated_asks dl (book_id book))
      | Sell \<Rightarrow> sbind (sread (dl_get_aggregated_bids dl (book_id book))) (\<lambda>m. sret (rev m)))"

definition sum_volumes :: "market_side \<Rightarrow> order_volume" where
  "sum_volumes m = foldl (\<lambda>s e. bu_saturating_add s (snd e)) bu_zero m"

definition market_volume ::
  "'d data_layer \<Rightarrow> order_book \<Rightarrow> price_variant \<Rightarrow> ('d, dispatch_error, order_volume) run" where
  "market_volume dl book side =
     (case side of
        Buy \<Rightarrow> sbind (sread (dl_get_aggregated_bids dl (book_id book))) (\<lambda>m. sret (sum_volumes m))
      | Sell \<Rightarrow> sbind (sread (dl_get_aggregated_asks dl (book_id book))) (\<lambda>m. sret (sum_volumes m)))"

fun depth_volume_loop ::
  "ordering \<Rightarrow> order_price \<Rightarrow> market_side \<Rightarrow> order_volume \<Rightarrow> order_volume \<Rightarrow>
   order_volume \<times> order_volume" where
  "depth_volume_loop ord price [] market_amount amount = (market_amount, amount)"
| "depth_volume_loop ord price ((market_price, volume) # rest) market_amount amount =
     (if bu_cmp market_price price = ord then (market_amount, amount)
      else
        let (market_amount, amount) =
              (if volume \<le> amount
               then (bu_saturating_add market_amount volume, bu_saturating_sub amount volume)
               else (bu_saturating_add market_amount amount, bu_zero))
        in if bu_is_zero amount then (market_amount, amount)
           else depth_volume_loop ord price rest market_amount amount)"

definition calculate_market_depth_volume_to_price ::
  "price_variant \<Rightarrow> order_price \<Rightarrow> order_volume \<Rightarrow> market_side \<Rightarrow> order_volume \<times> order_volume" where
  "calculate_market_depth_volume_to_price side price amount m =
     depth_volume_loop (case side of Buy \<Rightarrow> Less | Sell \<Rightarrow> Greater) price m bu_zero amount"

fun depth_loop :: "order_amount \<Rightarrow> market_side \<Rightarrow> order_volume \<Rightarrow> market_side" where
  "depth_loop volume_limit [] limit = []"
| "depth_loop volume_limit ((price, volume) # rest) limit =
     (let limit = (case volume_limit of
                     Base _ \<Rightarrow> bu_saturating_sub limit volume
                   | Quote _ \<Rightarrow> bu_saturating_sub limit (bu_saturating_mul volume price))
      in (price, volume) # (if bu_is_zero limit then [] else depth_loop volume_limit rest limit))"

definition get_market_depth :: "order_amount option \<Rightarrow> market_side \<Rightarrow> market_side" where
  "get_market_depth volume_limit m =
     (case volume_limit of
        None \<Rightarrow> m
      | Some l \<Rightarrow> if bu_is_zero (amount_value l) then [] else depth_loop l m (amount_value l))"

definition market_depth ::
  "'d data_layer \<Rightarrow> order_book \<Rightarrow> price_variant \<Rightarrow> order_amount option \<Rightarrow>
   ('d, dispatch_error, market_side) run" where
  "market_depth dl book side volume_limit =
     (case side of
        Buy \<Rightarrow> sbind (sread (dl_get_aggregated_bids dl (book_id book)))
                 (\<lambda>m. sret (get_market_depth volume_limit (rev m)))
      | Sell \<Rightarrow> sbind (sread (dl_get_aggregated_asks dl (book_id book)))
                 (\<lambda>m. sret (get_market_depth volume_limit m)))"

section \<open>Quoting a deal\<close>

text \<open>One level that covers what is left of the target: \<open>delta\<close> of the base asset is taken.\<close>

definition sum_final ::
  "order_price \<Rightarrow> order_volume \<Rightarrow> order_volume \<Rightarrow> order_volume \<Rightarrow>
   dispatch_error + (order_volume \<times> order_volume \<times> bool)" where
  "sum_final price delta base quote =
     and_then (ok_or (bu_checked_add base delta) AmountCalculationFailed) (\<lambda>base'.
     and_then (ok_or (bu_checked_mul price delta) AmountCalculationFailed) (\<lambda>quote_delta.
     and_then (ok_or (bu_checked_add quote quote_delta) AmountCalculationFailed) (\<lambda>quote'.
     Inr (base', quote', True))))"

fun sum_market_loop ::
  "order_book \<Rightarrow> order_amount option \<Rightarrow> market_side \<Rightarrow> order_volume \<Rightarrow> order_volume \<Rightarrow>
   dispatch_error + (order_volume \<times> order_volume \<times> bool)" where
  "sum_market_loop book target [] base quote = Inr (base, quote, False)"
| "sum_market_loop book target ((price, base_volume) # rest) base quote =
     and_then (ok_or (bu_checked_mul price base_volume) AmountCalculationFailed) (\<lambda>quote_volume.
     let continue =
           and_then (ok_or (bu_checked_add base base_volume) AmountCalculationFailed) (\<lambda>base'.
           and_then (ok_or (bu_checked_add quote quote_volume) AmountCalculationFailed) (\<lambda>quote'.
           sum_market_loop book target rest base' quote'))
     in case target of
          None \<Rightarrow> continue
        | Some (Base base_target) \<Rightarrow>
            and_then (ok_or (bu_checked_add base base_volume) AmountCalculationFailed) (\<lambda>reached.
            if base_target \<le> reached
            then and_then (ok_or (bu_checked_sub base_target base) AmountCalculationFailed) (\<lambda>left.
                   sum_final price (align_amount book left) base quote)
            else continue)
        | Some (Quote quote_target) \<Rightarrow>
            and_then (ok_or (bu_checked_add quote quote_volume) AmountCalculationFailed) (\<lambda>reached.
            if quote_target \<le> reached
            then and_then (ok_or (bu_checked_sub quote_target quote) AmountCalculationFailed) (\<lambda>left.
                 and_then (ok_or (bu_checked_div left price) AmountCalculationFailed) (\<lambda>left_base.
                   sum_final price (align_amount book left_base) base quote))
            else continue))"

definition sum_market ::
  "order_book \<Rightarrow> market_side \<Rightarrow> order_amount option \<Rightarrow> bool \<Rightarrow>
   dispatch_error + (order_amount \<times> order_amount)" where
  "sum_market book m target filled_target =
     and_then (sum_market_loop book target m bu_zero bu_zero) (\<lambda>(base, quote, enough_liquidity).
     and_then (ensure (target = None \<or> enough_liquidity \<or> \<not> filled_target)
       NotEnoughLiquidityInOrderBook) (\<lambda>_.
     Inr (Base base, Quote quote)))"

definition deal_target :: "order_book \<Rightarrow> price_variant \<Rightarrow> quote_amount \<Rightarrow> order_amount" where
  "deal_target book direction amount =
     (case amount of
        WithDesiredInput desired_amount_in \<Rightarrow>
          (case direction of
             Buy \<Rightarrow> Quote (copy_divisibility (tick_size book) desired_amount_in)
           | Sell \<Rightarrow> Base (copy_divisibility (step_lot_size book) desired_amount_in))
      | WithDesiredOutput desired_amount_out \<Rightarrow>
          (case direction of
             Buy \<Rightarrow> Base (copy_divisibility (step_lot_size book) desired_amount_out)
           | Sell \<Rightarrow> Quote (copy_divisibility (tick_size book) desired_amount_out)))"

definition calculate_deal ::
  "'d data_layer \<Rightarrow> order_book \<Rightarrow> asset_id \<Rightarrow> asset_id \<Rightarrow> quote_amount \<Rightarrow>
   ('d, dispatch_error, deal_info) run" where
  "calculate_deal dl book input_asset output_asset amount =
     sbind (slift (get_direction book input_asset output_asset)) (\<lambda>direction.
     sbind (market_data dl book direction) (\<lambda>m.
     sbind (slift (sum_market book m (Some (deal_target book direction amount)) True)) (\<lambda>(base, quote).
     sbind (slift (ensure (bu_zero < amount_value base \<and> bu_zero < amount_value quote)
       InvalidOrderAmount)) (\<lambda>_.
     let (inp, outp) = (case direction of Buy \<Rightarrow> (quote, base) | Sell \<Rightarrow> (base, quote))
     in sbind (slift (ok_or (average_price inp outp) PriceCalculationFailed)) (\<lambda>price.
        sret \<lparr> di_input_asset_id = input_asset, di_input_amount = inp,
               di_output_asset_id = output_asset, di_output_amount = outp,
               di_average_price = price, di_direction = direction \<rparr>)))))"

section \<open>What a market order does to the book\<close>

text \<open>The local variables of \<open>calculate_market_impact\<close>.\<close>

record impact =
  remaining_amount :: order_volume
  taker_amount :: order_volume
  maker_amount :: order_volume
  part_execute :: "(order_id, limit_order \<times> order_amount) btree"
  full_execute :: "(order_id, limit_order) btree"
  unlocks :: pay_map

definition full_match :: "asset_id \<Rightarrow> limit_order \<Rightarrow> impact \<Rightarrow> dispatch_error + impact" where
  "full_match maker_out_asset x s =
     and_then (ok_or (bu_checked_sub (remaining_amount s) (lo_amount x)) AmountCalculationFailed) (\<lambda>remaining.
     and_then (deal_amount x Taker None) (\<lambda>taker_part.
     and_then (ok_or (bu_checked_add (taker_amount s) (amount_value taker_part)) AmountCalculationFailed) (\<lambda>taker.
     and_then (deal_amount x Maker None) (\<lambda>maker_payment.
     and_then (ok_or (bu_checked_add (maker_amount s) (amount_value maker_payment)) AmountCalculationFailed) (\<lambda>maker.
     Inr (s \<lparr> remaining_amount := remaining,
              taker_amount := taker,
              maker_amount := maker,
              unlocks := pay_entry maker_out_asset (lo_owner x) (amount_value maker_payment) (unlocks s),
              full_execute := bt_insert (lo_id x) x (full_execute s) \<rparr>))))))"

definition part_match :: "asset_id \<Rightarrow> limit_order \<Rightarrow> impact \<Rightarrow> dispatch_error + impact" where
  "part_match maker_out_asset x s =
     and_then (deal_amount x Taker (Some (remaining_amount s))) (\<lambda>taker_part.
     and_then (ok_or (bu_checked_add (taker_amount s) (amount_value taker_part)) AmountCalculationFailed) (\<lambda>taker.
     and_then (deal_amount x Maker (Some (remaining_amount s))) (\<lambda>maker_payment.
     and_then (ok_or (bu_checked_add (maker_amount s) (amount_value maker_payment)) AmountCalculationFailed) (\<lambda>maker.
     and_then (ok_or (bu_checked_sub (lo_amount x) (remaining_amount s)) AmountCalculationFailed) (\<lambda>left.
     Inr (s \<lparr> taker_amount := taker,
              maker_amount := maker,
              unlocks := pay_entry maker_out_asset (lo_owner x) (amount_value maker_payment) (unlocks s),
              part_execute := bt_insert (lo_id x) (x \<lparr> lo_amount := left \<rparr>, Base (remaining_amount s))
                (part_execute s),
              remaining_amount := bu_zero \<rparr>))))))"

fun match_level ::
  "'d data_layer \<Rightarrow> order_book_id \<Rightarrow> asset_id \<Rightarrow> order_id list \<Rightarrow> impact \<Rightarrow>
   ('d, dispatch_error, impact) run" where
  "match_level dl obid maker_out_asset [] s = sret s"
| "match_level dl obid maker_out_asset (i # ids) s =
     sbind (dl_get_limit_order dl obid i) (\<lambda>x.
       if lo_amount x \<le> remaining_amount s
       then sbind (slift (full_match maker_out_asset x s)) (\<lambda>s'.
              if bu_is_zero (remaining_amount s') then sret s'
              else match_level dl obid maker_out_asset ids s')
       else slift (part_match maker_out_asset x s))"

fun match_market ::
  "'d data_layer \<Rightarrow> order_book_id \<Rightarrow> price_variant \<Rightarrow> asset_id \<Rightarrow> market_side \<Rightarrow> impact \<Rightarrow>
   ('d, dispatch_error, impact) run" where
  "match_market dl obid direction maker_out_asset [] s = sret s"
| "match_market dl obid direction maker_out_asset ((price, _) # rest) s =
     sbind (sread (get_limit_orders_by_price dl obid (switched direction) price)) (\<lambda>price_level.
     case price_level of
       None \<Rightarrow> slift (Inl NotEnoughLiquidityInOrderBook)
     | Some ids \<Rightarrow>
         sbind (match_level dl obid maker_out_asset ids s) (\<lambda>s'.
         if bu_is_zero (remaining_amount s') then sret s'
         else match_market dl obid direction maker_out_asset rest s'))"

definition maker_out_asset :: "order_book_id \<Rightarrow> price_variant \<Rightarrow> asset_id" where
  "maker_out_asset obid direction = (case direction of Buy \<Rightarrow> ob_quote obid | Sell \<Rightarrow> ob_base obid)"

definition taker_out_asset :: "order_book_id \<Rightarrow> price_variant \<Rightarrow> asset_id" where
  "taker_out_asset obid direction = (case direction of Buy \<Rightarrow> ob_base obid | Sell \<Rightarrow> ob_quote obid)"

definition impact_start :: "order_volume \<Rightarrow> impact" where
  "impact_start amount =
     \<lparr> remaining_amount = amount, taker_amount = bu_zero, maker_amount = bu_zero,
       part_execute = [], full_execute = [], unlocks = [] \<rparr>"

definition impact_result ::
  "order_book_id \<Rightarrow> price_variant \<Rightarrow> account_id \<Rightarrow> account_id \<Rightarrow> impact \<Rightarrow> market_change" where
  "impact_result obid direction taker receiver s =
     (let pay = \<lparr> pay_order_book_id = obid,
                  to_lock = pay_entry (maker_out_asset obid direction) taker (maker_amount s) [],
                  to_unlock = pay_entry (taker_out_asset obid direction) receiver (taker_amount s) (unlocks s) \<rparr>;
          (inp, outp) = (case direction of
                           Buy \<Rightarrow> (Some (Quote (maker_amount s)), Some (Base (taker_amount s)))
                         | Sell \<Rightarrow> (Some (Base (maker_amount s)), Some (Quote (taker_amount s))))
      in \<lparr> deal_input = inp, deal_output = outp, market_input = None, market_output = outp,
           to_place = [], to_part_execute = part_execute s, to_full_execute = full_execute s,
           to_cancel = [], to_force_update = [], mc_payment = pay, ignore_unschedule_error = False \<rparr>)"

definition calculate_market_impact ::
  "'d data_layer \<Rightarrow> order_book \<Rightarrow> price_variant \<Rightarrow> account_id \<Rightarrow> account_id \<Rightarrow> order_volume \<Rightarrow>
   market_side \<Rightarrow> ('d, dispatch_error, market_change) run" where
  "calculate_market_impact dl book direction taker receiver taker_base_amount m =
     sbind (match_market dl (book_id book) direction (maker_out_asset (book_id book) direction) m
              (impact_start taker_base_amount)) (\<lambda>s.
     sbind (slift (ensure (bu_is_zero (remaining_amount s)) NotEnoughLiquidityInOrderBook)) (\<lambda>_.
     sret (impact_result (book_id book) direction taker receiver s)))"

definition calculate_market_order_impact ::
  "'d data_layer \<Rightarrow> order_book \<Rightarrow> market_order \<Rightarrow> ('d, dispatch_error, market_change) run" where
  "calculate_market_order_impact dl book mo =
     (let receiver = unwrap_or (mo_to mo) (mo_owner mo)
      in sbind (market_data dl book (mo_direction mo)) (\<lambda>m.
         calculate_market_impact dl book (mo_direction mo) (mo_owner mo) receiver (mo_amount mo) m))"

section \<open>What the other changes do to the book\<close>

definition calculate_limit_order_impact :: "order_book \<Rightarrow> limit_order \<Rightarrow> dispatch_error + market_change" where
  "calculate_limit_order_impact book x =
     and_then (deal_amount x Taker None) (\<lambda>lock_amount.
     let lock_asset = associated_asset lock_amount (book_id book);
         pay = payment_new (book_id book)
     in Inr ((market_change_new (book_id book))
          \<lparr> market_input := Some lock_amount,
            to_place := [(lo_id x, x)],
            mc_payment := pay \<lparr> to_lock :=
              pay_entry lock_asset (lo_owner x) (amount_value lock_amount) (to_lock pay) \<rparr> \<rparr>))"

definition calculate_cancellation_limit_order_impact ::
  "order_book \<Rightarrow> limit_order \<Rightarrow> cancel_reason \<Rightarrow> bool \<Rightarrow> dispatch_error + market_change" where
  "calculate_cancellation_limit_order_impact book x reason ignore_error =
     and_then (deal_amount x Taker None) (\<lambda>unlock_amount.
     let unlock_asset = associated_asset unlock_amount (book_id book);
         pay = payment_new (book_id book)
     in Inr ((market_change_new (book_id book))
          \<lparr> market_output := Some unlock_amount,
            to_cancel := [(lo_id x, (x, reason))],
            mc_payment := pay \<lparr> to_unlock :=
              pay_entry unlock_asset (lo_owner x) (amount_value unlock_amount) (to_unlock pay) \<rparr>,
            ignore_unschedule_error := ignore_error \<rparr>))"

fun cancel_all_loop ::
  "order_book_id \<Rightarrow> cancel_reason \<Rightarrow> limit_order list \<Rightarrow> (order_id, limit_order \<times> cancel_reason) btree \<Rightarrow>
   pay_map \<Rightarrow> dispatch_error + ((order_id, limit_order \<times> cancel_reason) btree \<times> pay_map)" where
  "cancel_all_loop obid reason [] cancels unlock = Inr (cancels, unlock)"
| "cancel_all_loop obid reason (x # xs) cancels unlock =
     and_then (deal_amount x Taker None) (\<lambda>unlock_amount.
     cancel_all_loop obid reason xs (bt_insert (lo_id x) (x, reason) cancels)
       (pay_entry (associated_asset unlock_amount obid) (lo_owner x) (amount_value unlock_amount) unlock))"

definition calculate_cancellation_of_all_limit_orders_impact ::
  "'d data_layer \<Rightarrow> order_book \<Rightarrow> cancel_reason \<Rightarrow> ('d, dispatch_error, market_change) run" where
  "calculate_cancellation_of_all_limit_orders_impact dl book reason =
     sbind (sread (dl_get_all_limit_orders dl (book_id book))) (\<lambda>limit_orders.
     sbind (slift (cancel_all_loop (book_id book) reason limit_orders [] [])) (\<lambda>(cancels, unlock).
     sret ((market_change_new (book_id book))
       \<lparr> to_cancel := cancels,
         mc_payment := (payment_new (book_id book)) \<lparr> to_unlock := unlock \<rparr> \<rparr>)))"

fun align_loop ::
  "order_book \<Rightarrow> limit_order list \<Rightarrow> (order_id, limit_order \<times> cancel_reason) btree \<Rightarrow>
   (order_id, limit_order) btree \<Rightarrow> pay_map \<Rightarrow>
   dispatch_error +
     ((order_id, limit_order \<times> cancel_reason) btree \<times> (order_id, limit_order) btree \<times> pay_map)" where
  "align_loop book [] cancels updates unlock = Inr (cancels, updates, unlock)"
| "align_loop book (x # xs) cancels updates unlock =
     (if inner (lo_amount x) mod inner (step_lot_size book) = 0
      then align_loop book xs cancels updates unlock
      else
        and_then
          (if lo_amount x < step_lot_size book
           then Inr (x, lo_amount x, bt_insert (lo_id x) (x, Aligned) cancels, updates)
           else
             let amount = align_amount book (lo_amount x)
             in and_then (ok_or (bu_checked_sub (lo_amount x) amount) AmountCalculationFailed) (\<lambda>dust.
                let x' = x \<lparr> lo_amount := amount \<rparr>
                in Inr (x', dust, cancels, bt_insert (lo_id x) x' updates)))
          (\<lambda>(x', refund_base, cancels, updates).
             and_then (deal_amount x' Taker (Some refund_base)) (\<lambda>refund.
             align_loop book xs cancels updates
               (pay_entry (associated_asset refund (book_id book)) (lo_owner x') (amount_value refund) unlock))))"

definition calculate_align_limit_orders_impact ::
  "order_book \<Rightarrow> limit_order list \<Rightarrow> dispatch_error + market_change" where
  "calculate_align_limit_orders_impact book xs =
     and_then (align_loop book xs [] [] []) (\<lambda>(cancels, updates, unlock).
     Inr ((market_change_new (book_id book))
       \<lparr> to_cancel := cancels, to_force_update := updates,
         mc_payment := (payment_new (book_id book)) \<lparr> to_unlock := unlock \<rparr> \<rparr>))"

definition cross_spread ::
  "'d data_layer \<Rightarrow> order_book \<Rightarrow> limit_order \<Rightarrow> ('d, dispatch_error, market_change) run" where
  "cross_spread dl book x =
     sbind (market_data dl book (lo_side x)) (\<lambda>m.
     let (market_amount, limit_amount) =
           calculate_market_depth_volume_to_price (switched (lo_side x)) (lo_price x) (lo_amount x) m
     in
     sbind
       (if limit_amount < min_lot_size book
        then
          sbind (market_volume dl book (switched (lo_side x))) (\<lambda>volume.
          sbind (slift (ok_or (bu_checked_sub volume market_amount) AmountCalculationFailed)) (\<lambda>left.
          if limit_amount \<le> left
          then sbind (slift (ok_or (bu_checked_add market_amount limit_amount) AmountCalculationFailed))
                 (\<lambda>market_amount. sret (market_amount, bu_zero))
          else sret (market_amount, bu_zero)))
        else sret (market_amount, limit_amount))
       (\<lambda>(market_amount, limit_amount).
     sbind
       (if \<not> bu_is_zero market_amount
        then calculate_market_order_impact dl book
               \<lparr> mo_owner = lo_owner x, mo_direction = lo_side x, mo_order_book_id = book_id book,
                 mo_amount = market_amount, mo_to = None \<rparr>
        else sret (market_change_new (book_id book)))
       (\<lambda>market_change.
     if \<not> bu_is_zero limit_amount
     then sbind (slift (calculate_limit_order_impact book (x \<lparr> lo_amount := limit_amount \<rparr>))) (\<lambda>placed.
          slift (ok_or (market_change_merge market_change placed) AmountCalculationFailed))
     else sret market_change)))"

section \<open>Applying a market change\<close>

definition unschedule_order ::
  "bool \<Rightarrow> order_book_id \<Rightarrow> limit_order \<Rightarrow> unit world_run" where
  "unschedule_order ignore_error obid x w =
     (case unschedule_expiration (lo_expires_at x) obid (lo_id x) w of
        (Inl e, w') \<Rightarrow> (if ignore_error then (Inr (), w') else (Inl e, w'))
      | (Inr u, w') \<Rightarrow> (Inr u, w'))"

definition apply_cancel ::
  "'d data_layer \<Rightarrow> bool \<Rightarrow> order_book_id \<Rightarrow> limit_order \<times> cancel_reason \<Rightarrow> ('d, unit) book_run" where
  "apply_cancel dl ignore_error obid = (\<lambda>(x, reason).
     sbind (on_fst (dl_delete_limit_order dl obid (lo_id x))) (\<lambda>_.
     sbind (on_snd (unschedule_order ignore_error obid x)) (\<lambda>_.
     on_snd (emit_event obid (LimitOrderCanceled (lo_id x) (lo_owner x) reason)))))"

definition apply_full ::
  "'d data_layer \<Rightarrow> bool \<Rightarrow> order_book_id \<Rightarrow> limit_order \<Rightarrow> ('d, unit) book_run" where
  "apply_full dl ignore_error obid x =
     sbind (on_fst (dl_delete_limit_order dl obid (lo_id x))) (\<lambda>_.
     sbind (on_snd (unschedule_order ignore_error obid x)) (\<lambda>_.
     sbind (on_snd (emit_event obid
       (LimitOrderExecuted (lo_id x) (lo_owner x) (lo_side x) (lo_price x) (Base (lo_amount x))))) (\<lambda>_.
     on_snd (emit_event obid (LimitOrderFilled (lo_id x) (lo_owner x))))))"

definition apply_part ::
  "'d data_layer \<Rightarrow> order_book_id \<Rightarrow> limit_order \<times> order_amount \<Rightarrow> ('d, unit) book_run" where
  "apply_part dl obid = (\<lambda>(x, executed_amount).
     sbind (on_fst (dl_update_limit_order_amount dl obid (lo_id x) (lo_amount x))) (\<lambda>_.
     on_snd (emit_event obid
       (LimitOrderExecuted (lo_id x) (lo_owner x) (lo_side x) (lo_price x) executed_amount))))"

definition apply_update :: "'d data_layer \<Rightarrow> order_book_id \<Rightarrow> limit_order \<Rightarrow> ('d, unit) book_run" where
  "apply_update dl obid x =
     sbind (on_fst (dl_update_limit_order_amount dl obid (lo_id x) (lo_amount x))) (\<lambda>_.
     on_snd (emit_event obid (LimitOrderUpdated (lo_id x) (lo_owner x) (lo_amount x))))"

definition apply_place ::
  "chain \<Rightarrow> 'd data_layer \<Rightarrow> order_book_id \<Rightarrow> limit_order \<Rightarrow> ('d, unit) book_run" where
  "apply_place env dl obid x =
     sbind (on_fst (dl_insert_limit_order dl obid x)) (\<lambda>_.
     sbind (on_snd (schedule_expiration env (lo_expires_at x) obid (lo_id x))) (\<lambda>_.
     on_snd (emit_event obid (LimitOrderPlaced (lo_id x) (lo_owner x) (lo_side x) (lo_price x)
       (lo_amount x) (lo_lifespan x)))))"

definition apply_market_change ::
  "chain \<Rightarrow> 'd data_layer \<Rightarrow> order_book \<Rightarrow> market_change \<Rightarrow> ('d, unit) book_run" where
  "apply_market_change env dl book mc =
     sbind (on_snd (execute_all (lock_liquidity env) (unlock_liquidity_batch env) (mc_payment mc))) (\<lambda>_.
     sbind (sfor (apply_cancel dl (ignore_unschedule_error mc) (book_id book)) (map snd (to_cancel mc))) (\<lambda>_.
     sbind (sfor (apply_full dl (ignore_unschedule_error mc) (book_id book)) (map snd (to_full_execute mc))) (\<lambda>_.
     sbind (sfor (apply_part dl (book_id book)) (map snd (to_part_execute mc))) (\<lambda>_.
     sbind (sfor (apply_update dl (book_id book)) (map snd (to_force_update mc))) (\<lambda>_.
     sfor (apply_place env dl (book_id book)) (map snd (to_place mc)))))))"

section \<open>Operations on an order book\<close>

definition crosses_spread ::
  "'d data_layer \<Rightarrow> order_book \<Rightarrow> limit_order \<Rightarrow> ('d, dispatch_error, bool) run" where
  "crosses_spread dl book x =
     (case lo_side x of
        Buy \<Rightarrow> sbind (sread (best_ask dl book)) (\<lambda>best.
          sret (case best of Some (best_ask_price, _) \<Rightarrow> best_ask_price \<le> lo_price x | None \<Rightarrow> False))
      | Sell \<Rightarrow> sbind (sread (best_bid dl book)) (\<lambda>best.
          sret (case best of Some (best_bid_price, _) \<Rightarrow> lo_price x \<le> best_bid_price | None \<Rightarrow> False)))"

text \<open>The events that report how much of a limit order was executed at once.\<close>

definition emit_placement ::
  "order_book_id \<Rightarrow> account_id \<Rightarrow> order_id \<Rightarrow> market_change \<Rightarrow> unit world_run" where
  "emit_placement obid owner i mc =
     (case (market_input mc, deal_input mc) of
        (None, Some inp) \<Rightarrow>
          (case (deal_base_amount mc, average_deal_price mc) of
             (Some amount, Some price) \<Rightarrow>
               emit_event obid (LimitOrderConvertedToMarketOrder owner
                 (if is_quote inp then Buy else Sell) (Base amount) price)
           | _ \<Rightarrow> slift (Inl PriceCalculationFailed))
      | (Some _, None) \<Rightarrow> sret ()
      | (Some _, Some inp) \<Rightarrow>
          (case (deal_base_amount mc, average_deal_price mc) of
             (Some amount, Some price) \<Rightarrow>
               emit_event obid (LimitOrderIsSplitIntoMarketOrderAndLimitOrder owner
                 (if is_quote inp then Buy else Sell) (Base amount) price i)
           | _ \<Rightarrow> slift (Inl PriceCalculationFailed))
      | (None, None) \<Rightarrow> slift (Inl InvalidOrderAmount))"

definition place_limit_order ::
  "chain \<Rightarrow> 'd data_layer \<Rightarrow> order_book \<Rightarrow> limit_order \<Rightarrow> ('d, nat) book_run" where
  "place_limit_order env dl book x =
     sbind (slift (ensure (book_status book = Trade \<or> book_status book = PlaceAndCancel)
       PlacementOfLimitOrdersIsForbidden)) (\<lambda>_.
     sbind (slift (ensure_limit_order_valid (chain_config env) book x)) (\<lambda>_.
     sbind (on_fst (check_restrictions (chain_config env) dl book x)) (\<lambda>_.
     sbind (on_fst (crosses_spread dl book x)) (\<lambda>crosses.
     sbind
       (if crosses
        then if book_status book = Trade then on_fst (cross_spread dl book x)
             else slift (Inl InvalidLimitOrderPrice)
        else slift (calculate_limit_order_impact book x))
       (\<lambda>market_change.
     sbind (apply_market_change env dl book market_change) (\<lambda>_.
     sbind (on_snd (emit_placement (book_id book) (lo_owner x) (lo_id x) market_change)) (\<lambda>_.
     sret (count_of_executed_orders market_change))))))))"

definition cancel_limit_order_unchecked ::
  "chain \<Rightarrow> 'd data_layer \<Rightarrow> order_book \<Rightarrow> limit_order \<Rightarrow> cancel_reason \<Rightarrow> bool \<Rightarrow> ('d, unit) book_run" where
  "cancel_limit_order_unchecked env dl book x reason ignore_error =
     sbind (slift (calculate_cancellation_limit_order_impact book x reason ignore_error)) (\<lambda>mc.
     apply_market_change env dl book mc)"

definition cancel_limit_order ::
  "chain \<Rightarrow> 'd data_layer \<Rightarrow> order_book \<Rightarrow> limit_order \<Rightarrow> ('d, unit) book_run" where
  "cancel_limit_order env dl book x =
     sbind (slift (ensure (book_status book = Trade \<or> book_status book = PlaceAndCancel
         \<or> book_status book = OnlyCancel) CancellationOfLimitOrdersIsForbidden)) (\<lambda>_.
     cancel_limit_order_unchecked env dl book x Manual False)"

definition cancel_all_limit_orders ::
  "chain \<Rightarrow> 'd data_layer \<Rightarrow> order_book \<Rightarrow> cancel_reason \<Rightarrow> ('d, nat) book_run" where
  "cancel_all_limit_orders env dl book reason =
     sbind (on_fst (calculate_cancellation_of_all_limit_orders_impact dl book reason)) (\<lambda>mc.
     sbind (apply_market_change env dl book mc) (\<lambda>_.
     sret (length (to_cancel mc))))"

definition expire_limit_order ::
  "chain \<Rightarrow> 'd data_layer \<Rightarrow> order_book \<Rightarrow> limit_order \<Rightarrow> ('d, unit) book_run" where
  "expire_limit_order env dl book x = cancel_limit_order_unchecked env dl book x Expired True"

definition execute_market_order ::
  "chain \<Rightarrow> 'd data_layer \<Rightarrow> order_book \<Rightarrow> market_order \<Rightarrow>
   ('d, order_amount \<times> order_amount \<times> nat) book_run" where
  "execute_market_order env dl book mo =
     sbind (slift (ensure (book_status book = Trade) TradingIsForbidden)) (\<lambda>_.
     sbind (slift (ensure_market_order_valid book mo)) (\<lambda>_.
     sbind (on_fst (calculate_market_order_impact dl book mo)) (\<lambda>mc.
     case (deal_input mc, deal_output mc) of
       (Some inp, Some outp) \<Rightarrow>
         sbind (slift (ok_or (average_deal_price mc) PriceCalculationFailed)) (\<lambda>price.
         sbind (apply_market_change env dl book mc) (\<lambda>_.
         sbind (on_snd (emit_event (book_id book)
           (MarketOrderExecuted (mo_owner mo) (mo_direction mo) (Base (mo_amount mo)) price (mo_to mo)))) (\<lambda>_.
         sret (inp, outp, count_of_executed_orders mc))))
     | _ \<Rightarrow> slift (Inl PriceCalculationFailed))))"

definition align_limit_orders ::
  "chain \<Rightarrow> 'd data_layer \<Rightarrow> order_book \<Rightarrow> limit_order list \<Rightarrow> ('d, unit) book_run" where
  "align_limit_orders env dl book xs =
     (if xs \<noteq> []
      then sbind (slift (calculate_align_limit_orders_impact book xs)) (\<lambda>mc.
           apply_market_change env dl book mc)
      else sret ())"

lemmas book_exec [exec_simps] =
  order_book_new_def next_order_id_def get_direction_def align_amount_def ensure_limit_order_valid_def
  ensure_market_order_valid_def check_restrictions_def best_bid_def best_ask_def market_data_def
  sum_volumes_def market_volume_def calculate_market_depth_volume_to_price_def get_market_depth_def
  market_depth_def sum_final_def sum_market_def deal_target_def calculate_deal_def full_match_def
  part_match_def maker_out_asset_def taker_out_asset_def impact_start_def impact_result_def
  calculate_market_impact_def calculate_market_order_impact_def calculate_limit_order_impact_def
  calculate_cancellation_limit_order_impact_def calculate_cancellation_of_all_limit_orders_impact_def
  calculate_align_limit_orders_impact_def cross_spread_def unschedule_order_def apply_cancel_def
  apply_full_def apply_part_def apply_update_def apply_place_def apply_market_change_def
  crosses_spread_def emit_placement_def place_limit_order_def cancel_limit_order_unchecked_def
  cancel_limit_order_def cancel_all_limit_orders_def expire_limit_order_def execute_market_order_def
  align_limit_orders_def get_limit_orders_by_price_def

end
