(* ===== verification/Matching.thy ===== *)
theory Matching
  imports Order_Book Cache_Data_Layer
begin

text \<open>
  What the engine computes, stated on the abstract book.

  \<^item> Every calculation of \<open>order_book.rs\<close> that reads through a data layer returns a function of the
    data layer's view and leaves that view as it was (\<open>reads\<close>).
  \<^item> \<open>best_queue\<close> lists the orders of one side of the book by price, then by time. A market order is
    executed along this list: \<open>match_orders\<close> is the list function that \<open>calculate_market_impact\<close> refines.
  \<^item> \<open>fills\<close> says how much of each order is taken.
\<close>

section \<open>A calculus of reads\<close>

lemma reads_sret: "coh d \<Longrightarrow> reads coh view (sret a) (Inr a) d"
  by (simp add: reads_def sret_def)

lemma reads_slift: "coh d \<Longrightarrow> reads coh view (slift r) r d"
  by (simp add: reads_def slift_def)

lemma reads_sread: "reads coh view f r d \<Longrightarrow> reads coh view (sread f) (Inr r) d"
  by (auto simp: reads_def sread_def split: prod.splits)

lemma reads_sbind:
  assumes "reads coh view f r d"
    and "\<And>a d'. r = Inr a \<Longrightarrow> coh d' \<Longrightarrow> view d' = view d \<Longrightarrow> reads coh view (g a) (r' a) d'"
  shows "reads coh view (sbind f g) (and_then r r') d"
proof -
  obtain d' where f: "f d = (r, d')" "coh d'" "view d' = view d"
    using assms(1) by (cases "f d") (auto simp: reads_def)
  then show ?thesis
    using assms(2) by (cases r) (auto simp: reads_def sbind_def)
qed

lemma reads_run:
  assumes "reads coh view f r d" and "f d = (r', d')"
  shows "r' = r" and "coh d'" and "view d' = view d"
  using assms by (auto simp: reads_def)

section \<open>Matching along a list of orders\<close>

fun match_orders :: "asset_id \<Rightarrow> limit_order list \<Rightarrow> impact \<Rightarrow> dispatch_error + impact" where
  "match_orders out_asset [] s = Inr s"
| "match_orders out_asset (x # xs) s =
     (if lo_amount x \<le> remaining_amount s
      then and_then (full_match out_asset x s) (\<lambda>s'.
             if bu_is_zero (remaining_amount s') then Inr s' else match_orders out_asset xs s')
      else part_match out_asset x s)"

lemma part_match_done: "part_match out_asset x s = Inr s' \<Longrightarrow> remaining_amount s' = bu_zero"
  by (auto simp: part_match_def run_simps)

lemma bu_zero_is_zero [simp]: "bu_is_zero bu_zero"
  by (simp add: bu_is_zero_def)

lemma match_orders_append:
  "\<not> bu_is_zero (remaining_amount s) \<Longrightarrow>
   match_orders out_asset (xs @ ys) s =
     and_then (match_orders out_asset xs s) (\<lambda>s'.
       if bu_is_zero (remaining_amount s') then Inr s' else match_orders out_asset ys s')"
proof (induction xs arbitrary: s)
  case (Cons x xs)
  show ?case
  proof (cases "lo_amount x \<le> remaining_amount s")
    case True
    then show ?thesis using Cons.IH by (cases "full_match out_asset x s") auto
  next
    case False
    then show ?thesis
      using part_match_done [of out_asset x s] by (cases "part_match out_asset x s") auto
  qed
qed auto

definition level_orders ::
  "book_view \<Rightarrow> price_variant \<Rightarrow> order_book_id \<Rightarrow> order_price \<Rightarrow> limit_order list" where
  "level_orders v side obid price =
     (case v_level v side obid price of
        None \<Rightarrow> []
      | Some q \<Rightarrow> map (\<lambda>i. the (v_orders v obid i)) q)"

definition market_view :: "book_view \<Rightarrow> order_book_id \<Rightarrow> price_variant \<Rightarrow> market_side" where
  "market_view v obid direction =
     (case direction of Buy \<Rightarrow> v_agg v Sell obid | Sell \<Rightarrow> rev (v_agg v Buy obid))"

definition best_queue :: "book_view \<Rightarrow> order_book_id \<Rightarrow> price_variant \<Rightarrow> limit_order list" where
  "best_queue v obid direction =
     concat (map (\<lambda>(p, _). level_orders v (switched direction) obid p) (market_view v obid direction))"

definition spec_market_impact ::
  "order_book_id \<Rightarrow> book_view \<Rightarrow> market_order \<Rightarrow> dispatch_error + market_change" where
  "spec_market_impact obid v mo =
     and_then (match_orders (maker_out_asset obid (mo_direction mo)) (best_queue v obid (mo_direction mo))
                 (impact_start (mo_amount mo))) (\<lambda>s.
     and_then (ensure (bu_is_zero (remaining_amount s)) NotEnoughLiquidityInOrderBook) (\<lambda>_.
     Inr (impact_result obid (mo_direction mo) (mo_owner mo) (unwrap_or (mo_to mo) (mo_owner mo)) s)))"

lemma agg_level_present:
  assumes "book_inv cfg d obid v" and "(p, vol) \<in> set (v_agg v side obid)"
  shows "is_divisible p" and "\<exists>q. v_level v side obid p = Some q \<and> vol = BalanceUnit (level_volume (v_orders v obid) q) d"
proof -
  have side: "side_inv cfg d side (v_orders v obid) (v_level v side obid) (v_agg v side obid)"
    using assms(1) by (simp add: book_inv_def)
  then have wf: "agg_wf cfg (v_agg v side obid)" and agg: "agg_of d (v_orders v obid) (v_level v side obid) (v_agg v side obid)"
    by (auto simp: side_inv_def)
  show dp: "is_divisible p" using wf assms(2) by (force simp: agg_wf_def)
  have "bt_get p (v_agg v side obid) = Some vol"
    using wf assms(2) by (intro bu_key.bt_in_get) (auto simp: agg_wf_def)
  then show "\<exists>q. v_level v side obid p = Some q \<and> vol = BalanceUnit (level_volume (v_orders v obid) q) d"
    using agg dp by (auto simp: agg_of_def)
qed

lemma level_ids_known:
  assumes "book_inv cfg d obid v" and "v_level v side obid p = Some q" and "i \<in> set q"
  shows "\<exists>x. v_orders v obid i = Some x \<and> lo_side x = side \<and> lo_price x = p \<and> lo_id x = i \<and> order_wf d x"
  using assms by (fastforce simp: book_inv_def side_inv_def level_inv_def)

context DataLayer
begin

lemma match_level_reads:
  "coh d \<Longrightarrow> \<forall>i\<in>set ids. v_orders (view d) obid i \<noteq> None \<Longrightarrow>
   reads coh view (match_level dl obid out_asset ids s)
     (match_orders out_asset (map (\<lambda>i. the (v_orders (view d) obid i)) ids) s) d"
proof (induction ids arbitrary: s d)
  case Nil
  then show ?case by (simp add: reads_sret)
next
  case (Cons i ids)
  from Cons.prems obtain x where x: "v_orders (view d) obid i = Some x" by auto
  have tail: "reads coh view (match_level dl obid out_asset ids s')
      (match_orders out_asset (map (\<lambda>i. the (v_orders (view d) obid i)) ids) s') d'"
    if "coh d'" and "view d' = view d" for s' d'
    using Cons.IH [of d' s'] Cons.prems that by simp
  have "reads coh view (match_level dl obid out_asset (i # ids) s)
      (and_then (ok_or (v_orders (view d) obid i) UnknownLimitOrder) (\<lambda>x.
         if lo_amount x \<le> remaining_amount s
         then and_then (full_match out_asset x s) (\<lambda>s'.
            if bu_is_zero (remaining_amount s') then Inr s'
            else match_orders out_asset (map (\<lambda>i. the (v_orders (view d) obid i)) ids) s')
         else part_match out_asset x s)) d"
    unfolding match_level.simps
    by (rule reads_sbind [OF get_limit_order [OF Cons.prems(1)]])
      (auto intro!: reads_sbind reads_slift reads_sret tail)
  with x show ?case by simp
qed

lemma get_level_reads:
  assumes "coh d" and "is_divisible p"
  shows "reads coh view (get_limit_orders_by_price dl obid side p) (v_level (view d) side obid p) d"
  using get_bids [OF assms] get_asks [OF assms]
  by (cases side) (simp_all add: get_limit_orders_by_price_def)

lemma match_market_reads:
  assumes "coh d" and "book_inv cfg dv obid (view d)" and "\<not> bu_is_zero (remaining_amount s)"
    and "set m \<subseteq> set (v_agg (view d) (switched direction) obid)"
  shows "reads coh view (match_market dl obid direction out_asset m s)
    (match_orders out_asset
       (concat (map (\<lambda>(p, _). level_orders (view d) (switched direction) obid p) m)) s) d"
  using assms
proof (induction m arbitrary: s d)
  case Nil
  then show ?case by (simp add: reads_sret)
next
  case (Cons e m)
  obtain p vol where e: "e = (p, vol)" by (cases e)
  have mem: "(p, vol) \<in> set (v_agg (view d) (switched direction) obid)" using Cons.prems(4) e by auto
  note present = agg_level_present [OF Cons.prems(2) mem]
  obtain q where q: "v_level (view d) (switched direction) obid p = Some q" using present(2) by blast
  let ?xs = "map (\<lambda>i. the (v_orders (view d) obid i)) q"
  have known: "\<forall>i\<in>set q. v_orders (view d) obid i \<noteq> None"
    using level_ids_known [OF Cons.prems(2) q] by auto
  have tail: "reads coh view (match_market dl obid direction out_asset m s')
      (match_orders out_asset
         (concat (map (\<lambda>(p, _). level_orders (view d) (switched direction) obid p) m)) s') d'"
    if "coh d'" and "view d' = view d" and "\<not> bu_is_zero (remaining_amount s')" for s' d'
    using Cons.IH [of d' s'] Cons.prems that by auto
  have level: "reads coh view (match_level dl obid out_asset q s) (match_orders out_asset ?xs s) d'"
    if "coh d'" and "view d' = view d" for d'
    using match_level_reads [of d' q obid out_asset s] known that by simp
  have "reads coh view (match_market dl obid direction out_asset (e # m) s)
      (and_then (Inr (v_level (view d) (switched direction) obid p)) (\<lambda>l. case l of
          None \<Rightarrow> Inl NotEnoughLiquidityInOrderBook
        | Some ids \<Rightarrow> and_then (match_orders out_asset ?xs s) (\<lambda>s'.
            if bu_is_zero (remaining_amount s') then Inr s'
            else match_orders out_asset
              (concat (map (\<lambda>(p, _). level_orders (view d) (switched direction) obid p) m)) s'))) d"
    unfolding e match_market.simps
    by (rule reads_sbind [OF reads_sread [OF get_level_reads [OF Cons.prems(1) present(1)]]])
      (auto simp: q intro!: reads_sbind [OF level] reads_slift reads_sret tail)
  moreover have "level_orders (view d) (switched direction) obid p = ?xs"
    by (simp add: level_orders_def q)
  ultimately show ?case
    by (simp add: e q match_orders_append [OF Cons.prems(3)])
qed

lemma market_data_reads:
  assumes "coh d"
  shows "reads coh view (market_data dl book direction)
    (Inr (market_view (view d) (book_id book) direction)) d"
proof (cases direction)
  case Buy
  then show ?thesis
    using get_aggregated_asks [OF assms] by (simp add: market_data_def market_view_def reads_sread)
next
  case Sell
  have "reads coh view (market_data dl book direction)
      (and_then (Inr (v_agg (view d) Buy (book_id book))) (\<lambda>m. Inr (rev m))) d"
    unfolding market_data_def Sell price_variant.case
    by (rule reads_sbind [OF reads_sread [OF get_aggregated_bids [OF assms]]]) (auto intro: reads_sret)
  then show ?thesis by (simp add: market_view_def Sell)
qed

lemma market_order_impact_reads:
  assumes coh: "coh d" and inv: "book_inv cfg dv (book_id book) (view d)"
    and nz: "\<not> bu_is_zero (mo_amount mo)"
  shows "reads coh view (calculate_market_order_impact dl book mo)
    (spec_market_impact (book_id book) (view d) mo) d"
proof -
  let ?obid = "book_id book"
  let ?m = "market_view (view d) ?obid (mo_direction mo)"
  have "reads coh view (calculate_market_order_impact dl book mo)
      (and_then (Inr ?m) (\<lambda>m.
       and_then (match_orders (maker_out_asset ?obid (mo_direction mo))
         (concat (map (\<lambda>(p, _). level_orders (view d) (switched (mo_direction mo)) ?obid p) ?m))
         (impact_start (mo_amount mo))) (\<lambda>s.
       and_then (ensure (bu_is_zero (remaining_amount s)) NotEnoughLiquidityInOrderBook) (\<lambda>_.
       Inr (impact_result ?obid (mo_direction mo) (mo_owner mo) (unwrap_or (mo_to mo) (mo_owner mo)) s))))) d"
    unfolding calculate_market_order_impact_def Let_def
  proof (rule reads_sbind [OF market_data_reads [OF coh]])
    fix m d'
    assume m: "Inr ?m = (Inr m :: dispatch_error + market_side)" and d': "coh d'" "view d' = view d"
    have sub: "set m \<subseteq> set (v_agg (view d') (switched (mo_direction mo)) ?obid)"
      using m d' by (cases "mo_direction mo") (auto simp: market_view_def)
    have nz': "\<not> bu_is_zero (remaining_amount (impact_start (mo_amount mo)))"
      using nz by (simp add: impact_start_def)
    note mm = match_market_reads [OF d'(1) _ nz' sub, of dv "maker_out_asset ?obid (mo_direction mo)"]
    show "reads coh view
        (calculate_market_impact dl book (mo_direction mo) (mo_owner mo)
           (unwrap_or (mo_to mo) (mo_owner mo)) (mo_amount mo) m)
        (and_then (match_orders (maker_out_asset ?obid (mo_direction mo))
           (concat (map (\<lambda>(p, _). level_orders (view d) (switched (mo_direction mo)) ?obid p) ?m))
           (impact_start (mo_amount mo))) (\<lambda>s.
         and_then (ensure (bu_is_zero (remaining_amount s)) NotEnoughLiquidityInOrderBook) (\<lambda>_.
         Inr (impact_result ?obid (mo_direction mo) (mo_owner mo)
           (unwrap_or (mo_to mo) (mo_owner mo)) s)))) d'"
      unfolding calculate_market_impact_def
      using mm inv m d' by (auto intro!: reads_sbind reads_slift reads_sret)
  qed
  then show ?thesis by (simp add: spec_market_impact_def best_queue_def)
qed

end

end
