(* ===== verification/Payments.thy ===== *)
theory Payments
  imports Ledger
begin

text \<open>
  How much a payment moves. \<open>pay_ok D\<close> says that a payment map is ordered and that all amounts of an
  asset are read at the precision \<open>D\<close> gives to it; then \<open>pay_entry\<close> adds its amount to one account,
  up to the saturation of \<open>u128\<close>.
\<close>

definition pay_ok :: "(asset_id \<Rightarrow> bool) \<Rightarrow> pay_map \<Rightarrow> bool" where
  "pay_ok D m \<longleftrightarrow>
     sorted_wrt (<) (map fst m) \<and>
     (\<forall>(a, whom) \<in> set m. sorted_wrt (<) (map fst whom) \<and> (\<forall>(y, v) \<in> set whom. is_divisible v = D a))"

lemma pay_ok_Nil [simp]: "pay_ok D []"
  by (simp add: pay_ok_def)

lemma sum_list_get:
  fixes a :: "'k::linorder" and g :: "'v \<Rightarrow> nat"
  shows "sorted_wrt (<) (map fst m) \<Longrightarrow>
   sum_list (map (\<lambda>(k, x). if k = a then g x else 0) m) =
     (case bt_get a m of None \<Rightarrow> 0 | Some x \<Rightarrow> g x)"
proof (induction m)
  case (Cons kx m)
  obtain k x where kx: "kx = (k, x)" by (cases kx)
  have none: "bt_get a m = None" if "a = k"
    using Cons.prems that by (auto simp: kx lin_key.bt_get_None)
  show ?case
    using Cons none by (cases "a = k") (auto simp: kx lin_key.same_key_iff)
qed simp

lemma paid_to_get:
  "sorted_wrt (<) (map fst whom) \<Longrightarrow>
   paid_to whom y = (case bt_get y whom of None \<Rightarrow> 0 | Some v \<Rightarrow> inner v)"
  unfolding paid_to_def by (rule sum_list_get)

lemma pay_to_get:
  "pay_ok D m \<Longrightarrow> pay_to m a y = (case bt_get a m of None \<Rightarrow> 0 | Some whom \<Rightarrow> paid_to whom y)"
  unfolding pay_to_def pay_ok_def by (rule sum_list_get) simp

lemma pay_total_get:
  "pay_ok D m \<Longrightarrow> pay_total m a = (case bt_get a m of None \<Rightarrow> 0 | Some whom \<Rightarrow> paid_total whom)"
  unfolding pay_total_def pay_ok_def by (rule sum_list_get) simp

lemma pay_ok_get:
  assumes "pay_ok D m" and "bt_get a m = Some whom"
  shows "sorted_wrt (<) (map fst whom)" and "(y, v) \<in> set whom \<Longrightarrow> is_divisible v = D a"
  using lin_key.bt_get_Some_in [OF assms(2)] assms(1) by (fastforce simp: pay_ok_def)+

lemma pay_ok_whom:
  assumes "pay_ok D m"
  shows "sorted_wrt (<) (map fst (unwrap_or (bt_get a m) []))"
    and "(y, v) \<in> set (unwrap_or (bt_get a m) []) \<Longrightarrow> is_divisible v = D a"
  using pay_ok_get [OF assms] by (cases "bt_get a m"; force)+

lemma paid_to_le_total: "paid_to whom y \<le> paid_total whom"
  by (induction whom) (auto simp: paid_to_def paid_total_def)

lemma pay_to_le_total: "pay_to m a y \<le> pay_total m a"
  by (induction m) (auto simp: pay_to_def pay_total_def intro!: add_mono paid_to_le_total)

section \<open>One entry\<close>

definition entry_value :: "order_volume \<Rightarrow> order_volume option \<Rightarrow> order_volume" where
  "entry_value v old = (case old of None \<Rightarrow> v | Some u \<Rightarrow> bu_saturating_add u v)"

lemma entry_value_inner:
  assumes "\<And>u. old = Some u \<Longrightarrow> is_divisible u = is_divisible v" and "inner v \<le> u128_max"
  shows "inner (entry_value v old) = min u128_max ((case old of None \<Rightarrow> 0 | Some u \<Rightarrow> inner u) + inner v)"
    and "is_divisible (entry_value v old) = is_divisible v"
  using assms by (auto simp: entry_value_def bu_saturating_add_same split: option.splits)

lemma bt_upsert_entry: "bt_upsert y (\<lambda>u. bu_saturating_add u v) v whom = bt_insert y (entry_value v (bt_get y whom)) whom"
  by (simp add: bt_upsert_def entry_value_def)

lemma entries_bt_insert: "set (bt_insert k v m) \<subseteq> insert (k, v) (set m)" for k :: "'k::linorder"
  by (induction m) (auto split: if_splits)

lemma pay_ok_entry:
  assumes "pay_ok D m" and "is_divisible v = D a"
  shows "pay_ok D (pay_entry a y v m)"
proof -
  let ?whom = "unwrap_or (bt_get a m) []"
  note w = pay_ok_whom [OF assms(1), where a = a]
  have old: "is_divisible u = is_divisible v" if "bt_get y ?whom = Some u" for u
    using lin_key.bt_get_Some_in [OF that] w(2) assms(2) by auto
  have "is_divisible (entry_value v (bt_get y ?whom)) = D a"
    using old assms(2) by (auto simp: entry_value_def bu_saturating_add_same split: option.splits)
  then have "\<forall>(z, u) \<in> set (bt_insert y (entry_value v (bt_get y ?whom)) ?whom). is_divisible u = D a"
    using entries_bt_insert [of y _ ?whom] w(2) by fast
  moreover have "sorted_wrt (<) (map fst (bt_insert y (entry_value v (bt_get y ?whom)) ?whom))"
    using lin_key.bt_insert_sorted [of ?whom] w(1) by (simp add: comp_def)
  moreover have "sorted_wrt (<) (map fst (bt_insert a z m))" for z
    using lin_key.bt_insert_sorted [of m] assms(1) by (simp add: pay_ok_def comp_def)
  ultimately show ?thesis
    using assms(1) entries_bt_insert [of a _ m]
    unfolding pay_ok_def pay_entry_def bt_upsert_entry by fast
qed

lemma pay_to_entry:
  assumes "pay_ok D m" and "is_divisible v = D a" and "inner v \<le> u128_max"
  shows "pay_to (pay_entry a y v m) b z =
    (if b = a \<and> z = y then min u128_max (pay_to m a y + inner v) else pay_to m b z)"
proof -
  let ?whom = "unwrap_or (bt_get a m) []"
  note w = pay_ok_whom [OF assms(1), where a = a]
  note ok' = pay_ok_entry [OF assms(1,2), of y]
  have old: "is_divisible u = is_divisible v" if "bt_get y ?whom = Some u" for u
    using lin_key.bt_get_Some_in [OF that] w(2) assms(2) by auto
  have here: "pay_to m a z = (case bt_get z ?whom of None \<Rightarrow> 0 | Some u \<Rightarrow> inner u)" for z
    using pay_to_get [OF assms(1)] paid_to_get [OF w(1)]
    by (cases "bt_get a m") (auto simp: paid_to_def)
  have sorted': "sorted_wrt (<) (map fst (bt_insert y (entry_value v (bt_get y ?whom)) ?whom))"
    using lin_key.bt_insert_sorted [of ?whom] w(1) by (simp add: comp_def)
  show ?thesis
  proof (cases "b = a")
    case True
    have "pay_to (pay_entry a y v m) a z = paid_to (bt_insert y (entry_value v (bt_get y ?whom)) ?whom) z"
      using pay_to_get [OF ok'] by (simp add: pay_entry_def bt_upsert_entry lin_key.bt_get_insert)
    also have "\<dots> = (if z = y then inner (entry_value v (bt_get y ?whom)) else pay_to m a z)"
      by (simp add: paid_to_get [OF sorted'] lin_key.bt_get_insert here)
    finally show ?thesis
      using True entry_value_inner(1) [OF old assms(3), of "bt_get y ?whom"] here [of y] by simp
  next
    case False
    then show ?thesis
      using pay_to_get [OF ok'] pay_to_get [OF assms(1)]
      by (simp add: pay_entry_def lin_key.bt_get_insert)
  qed
qed

lemma pay_total_entry:
  assumes "pay_ok D m" and "is_divisible v = D a" and "inner v \<le> u128_max"
  shows "pay_total (pay_entry a y v m) b + (if b = a then pay_to m a y else 0) =
    pay_total m b + (if b = a then min u128_max (pay_to m a y + inner v) else 0)"
proof -
  let ?whom = "unwrap_or (bt_get a m) []"
  note w = pay_ok_whom [OF assms(1), where a = a]
  note ok' = pay_ok_entry [OF assms(1,2), of y]
  have old: "is_divisible u = is_divisible v" if "bt_get y ?whom = Some u" for u
    using lin_key.bt_get_Some_in [OF that] w(2) assms(2) by auto
  have here: "pay_to m a y = (case bt_get y ?whom of None \<Rightarrow> 0 | Some u \<Rightarrow> inner u)"
    using pay_to_get [OF assms(1)] paid_to_get [OF w(1)]
    by (cases "bt_get a m") (auto simp: paid_to_def)
  show ?thesis
  proof (cases "b = a")
    case True
    have "paid_total (bt_upsert y (\<lambda>u. bu_saturating_add u v) v ?whom) +
        (case bt_get y ?whom of None \<Rightarrow> 0 | Some u \<Rightarrow> inner u) =
        paid_total ?whom + inner (entry_value v (bt_get y ?whom))"
      using lin_key.sum_bt_upsert [where m = ?whom and k = y and f = "\<lambda>u. bu_saturating_add u v" and v = v and g = inner] w(1)
      by (simp add: paid_total_def entry_value_def comp_def)
    moreover have "pay_total (pay_entry a y v m) a =
        paid_total (bt_upsert y (\<lambda>u. bu_saturating_add u v) v ?whom)"
      using pay_total_get [OF ok'] by (simp add: pay_entry_def lin_key.bt_get_insert)
    moreover have "pay_total m a = paid_total ?whom"
      using pay_total_get [OF assms(1)] by (cases "bt_get a m") (auto simp: paid_total_def)
    ultimately show ?thesis
      using True entry_value_inner(1) [OF old assms(3), of "bt_get y ?whom"] here by simp
  next
    case False
    then show ?thesis
      using pay_total_get [OF ok'] pay_total_get [OF assms(1)]
      by (simp add: pay_entry_def lin_key.bt_get_insert)
  qed
qed

lemma pay_total_entry_le:
  assumes "pay_ok D m" and "is_divisible v = D a" and "inner v \<le> u128_max"
  shows "pay_total (pay_entry a y v m) b \<le> pay_total m b + (if b = a then inner v else 0)"
  using pay_total_entry [OF assms, of y b] pay_to_le_total [of m a y] by (auto split: if_splits)

lemma pay_total_entry_exact:
  assumes "pay_ok D m" and "is_divisible v = D a" and "pay_to m a y + inner v \<le> u128_max"
  shows "pay_total (pay_entry a y v m) b = pay_total m b + (if b = a then inner v else 0)"
proof -
  have "inner v \<le> u128_max" using assms(3) by simp
  from pay_total_entry [OF assms(1,2) this, of y b] assms(3) show ?thesis
    by (auto split: if_splits)
qed

lemma set_bt_insert_keys: "fst ` set (bt_insert k v m) = insert k (fst ` set (m :: ('k::linorder, 'v) btree))"
  using lin_key.keys_bt_insert [of k v m] by simp

lemma pay_accounts_entry:
  "pay_accounts (pay_entry a y v m) \<subseteq> insert y (pay_accounts m)"
proof -
  have "fst ` set (unwrap_or (bt_get a m) []) \<subseteq> pay_accounts m"
  proof (cases "bt_get a m")
    case (Some whom)
    then show ?thesis
      using lin_key.bt_get_Some_in [OF Some] by (force simp: pay_accounts_def)
  qed simp
  then have new: "fst ` set (bt_upsert y (\<lambda>u. bu_saturating_add u v) v (unwrap_or (bt_get a m) [])) \<subseteq>
      insert y (pay_accounts m)" (is "fst ` set ?whom \<subseteq> _")
    unfolding bt_upsert_entry set_bt_insert_keys by auto
  show ?thesis
  proof
    fix z
    assume "z \<in> pay_accounts (pay_entry a y v m)"
    then obtain b whom where "(b, whom) \<in> set (bt_insert a ?whom m)" and z: "z \<in> fst ` set whom"
      by (auto simp: pay_entry_def pay_accounts_def)
    then have "(b, whom) = (a, ?whom) \<or> (b, whom) \<in> set m"
      using entries_bt_insert [of a ?whom m] by blast
    then show "z \<in> insert y (pay_accounts m)"
    proof
      assume "(b, whom) \<in> set m"
      then have "z \<in> pay_accounts m" using z unfolding pay_accounts_def by blast
      then show ?thesis by simp
    qed (use z new in blast)
  qed
qed

text \<open>Merging a payment with a single entry is adding the entry.\<close>

lemma merge_single: "merge_asset_map m [(a, [(y, v)])] = pay_entry a y v m"
  by (auto simp: pay_entry_def bt_upsert_def split: option.splits)

lemma pay_entry_fresh: "pay_entry a y v [] = [(a, [(y, v)])]"
  by (simp add: pay_entry_def bt_upsert_def)

lemma pay_single [simp]:
  "pay_total [(a, [(y, v)])] b = (if b = a then inner v else 0)"
  "pay_to [(a, [(y, v)])] b z = (if b = a \<and> z = y then inner v else 0)"
  "pay_accounts [(a, [(y, v)])] = {y}"
  "pay_ok D [(a, [(y, v)])] \<longleftrightarrow> is_divisible v = D a"
  by (auto simp: pay_total_def pay_to_def paid_total_def paid_to_def pay_accounts_def pay_ok_def)

lemma pay_Nil [simp]: "pay_total [] b = 0" "pay_to [] b z = 0" "pay_accounts [] = {}"
  by (auto simp: pay_total_def pay_to_def pay_accounts_def)

end
