(* ===== verification/Fills.thy ===== *)
theory Fills
  imports Matching Payments
begin

text \<open>
  The outcome of matching. \<open>fills n xs\<close> takes \<open>n\<close> units of the base asset from the orders \<open>xs\<close>, in
  order; \<open>match_orders\<close> succeeds exactly along these fills, and the amounts, the executed orders and
  the payments it reports are sums over them.
\<close>

section \<open>Definitions\<close>

text \<open>The quote asset that \<open>n\<close> units of a base asset of precision \<open>d\<close> cost, rounded down.\<close>

definition quote_units :: "order_price \<Rightarrow> bool \<Rightarrow> nat \<Rightarrow> nat" where
  "quote_units p d n = (if d then inner p * n div ratio else inner p * n)"

fun fills :: "nat \<Rightarrow> limit_order list \<Rightarrow> (limit_order \<times> nat) list" where
  "fills n [] = []"
| "fills n (x # xs) =
     (if inner (lo_amount x) \<le> n
      then (x, inner (lo_amount x)) #
             (if n = inner (lo_amount x) then [] else fills (n - inner (lo_amount x)) xs)
      else [(x, n)])"

definition taken :: "(limit_order \<times> nat) list \<Rightarrow> nat" where
  "taken fs = sum_list (map snd fs)"

definition cost :: "bool \<Rightarrow> (limit_order \<times> nat) list \<Rightarrow> nat" where
  "cost d fs = sum_list (map (\<lambda>(x, n). quote_units (lo_price x) d n) fs)"

definition maker_units :: "price_variant \<Rightarrow> bool \<Rightarrow> limit_order \<Rightarrow> nat \<Rightarrow> nat" where
  "maker_units direction d x n = (case direction of Buy \<Rightarrow> quote_units (lo_price x) d n | Sell \<Rightarrow> n)"

definition taker_units :: "price_variant \<Rightarrow> bool \<Rightarrow> limit_order \<Rightarrow> nat \<Rightarrow> nat" where
  "taker_units direction d x n = (case direction of Buy \<Rightarrow> n | Sell \<Rightarrow> quote_units (lo_price x) d n)"

definition maker_div :: "price_variant \<Rightarrow> bool \<Rightarrow> bool" where
  "maker_div direction d = (case direction of Buy \<Rightarrow> True | Sell \<Rightarrow> d)"

definition taker_div :: "price_variant \<Rightarrow> bool \<Rightarrow> bool" where
  "taker_div direction d = (case direction of Buy \<Rightarrow> d | Sell \<Rightarrow> True)"

definition maker_sum :: "price_variant \<Rightarrow> bool \<Rightarrow> (limit_order \<times> nat) list \<Rightarrow> nat" where
  "maker_sum direction d fs = sum_list (map (\<lambda>(x, n). maker_units direction d x n) fs)"

definition taker_sum :: "price_variant \<Rightarrow> bool \<Rightarrow> (limit_order \<times> nat) list \<Rightarrow> nat" where
  "taker_sum direction d fs = sum_list (map (\<lambda>(x, n). taker_units direction d x n) fs)"

definition maker_paid ::
  "price_variant \<Rightarrow> bool \<Rightarrow> (limit_order \<times> nat) list \<Rightarrow> account_id \<Rightarrow> nat" where
  "maker_paid direction d fs y =
     sum_list (map (\<lambda>(x, n). if lo_owner x = y then maker_units direction d x n else 0) fs)"

definition is_full :: "limit_order \<times> nat \<Rightarrow> bool" where
  "is_full f \<longleftrightarrow> snd f = inner (lo_amount (fst f))"

text \<open>The zero accumulators start out indivisible.\<close>

definition has_div :: "bool \<Rightarrow> order_volume \<Rightarrow> bool" where
  "has_div d v \<longleftrightarrow> is_divisible v = d \<or> v = bu_zero"

section \<open>One order\<close>

lemma checked_add_has_div:
  assumes "bu_checked_add a b = Some c" and "has_div D a" and "is_divisible b = D"
  shows "c = BalanceUnit (inner a + inner b) D" and "inner a + inner b \<le> u128_max"
proof -
  note c = assms(1) [unfolded bu_checked_add_Some]
  have "is_divisible a = D \<or> a = bu_zero" using assms(2) by (simp add: has_div_def)
  then have "is_divisible c = D \<and> inner c = inner a + inner b"
  proof
    assume "is_divisible a = D"
    then show ?thesis
      using c assms(3) by (cases D) (auto simp: bu_value_def add_mult_distrib [symmetric])
  next
    assume "a = bu_zero"
    then show ?thesis using c assms(3) by (cases D) (auto simp: bu_value_def)
  qed
  then show "c = BalanceUnit (inner a + inner b) D" and "inner a + inner b \<le> u128_max"
    using c by (auto simp: bu_eq_iff)
qed

lemma checked_sub_has_div:
  assumes "bu_checked_sub a b = Some c" and "is_divisible a = is_divisible b"
  shows "c = BalanceUnit (inner a - inner b) (is_divisible a) \<and> inner b \<le> inner a"
  using assms checked_sub_same_div [of "inner a" "is_divisible a" "inner b" c]
  by (cases a; cases b) simp

lemma checked_mul_price:
  assumes "bu_checked_mul p a = Some z" and "is_divisible p"
  shows "z = BalanceUnit (quote_units p (is_divisible a) (inner a)) True"
    and "quote_units p (is_divisible a) (inner a) \<le> u128_max"
proof -
  have *: "z = BalanceUnit (quote_units p (is_divisible a) (inner a)) True
    \<and> quote_units p (is_divisible a) (inner a) \<le> u128_max"
  proof (cases "is_divisible a")
    case True
    then show ?thesis
      using assms i128_le_u128
      by (auto simp: bu_checked_mul_divisible quote_units_def divisible_def bu_new_def split: if_splits)
  next
    case False
    then show ?thesis
      using assms by (auto simp: bu_checked_mul_mixed quote_units_def bu_new_def split: if_splits)
  qed
  then show "z = BalanceUnit (quote_units p (is_divisible a) (inner a)) True"
    and "quote_units p (is_divisible a) (inner a) \<le> u128_max" by auto
qed

lemma deal_amount_Inr:
  assumes "deal_amount x role b = Inr r" and "n = (case b of None \<Rightarrow> lo_amount x | Some a \<Rightarrow> a)"
  shows "if (role = Taker) = (lo_side x = Sell) then r = Base n
     else \<exists>z. bu_checked_mul (lo_price x) n = Some z \<and> r = Quote z"
  using assms
  by (cases role; cases "lo_side x"; cases b) (simp_all add: deal_amount_def run_simps, auto)

lemma deal_amount_taker:
  assumes "deal_amount x Taker b = Inr r" and "lo_side x = switched direction"
    and "is_divisible (lo_price x)" and "is_divisible n = d"
    and "n = (case b of None \<Rightarrow> lo_amount x | Some a \<Rightarrow> a)"
  shows "amount_value r = BalanceUnit (taker_units direction d x (inner n)) (taker_div direction d)"
    and "r = (case direction of Buy \<Rightarrow> Base (amount_value r) | Sell \<Rightarrow> Quote (amount_value r))"
proof -
  note r = deal_amount_Inr [OF assms(1,5)]
  have "amount_value r = BalanceUnit (taker_units direction d x (inner n)) (taker_div direction d)
    \<and> r = (case direction of Buy \<Rightarrow> Base (amount_value r) | Sell \<Rightarrow> Quote (amount_value r))"
  proof (cases direction)
    case Buy
    then have "r = Base n" using r assms(2) by simp
    then show ?thesis using Buy assms(4) by (simp add: taker_units_def taker_div_def bu_eq_iff)
  next
    case Sell
    then obtain z where "bu_checked_mul (lo_price x) n = Some z" and z: "r = Quote z"
      using r assms(2) by auto
    note checked_mul_price(1) [OF this(1) assms(3)]
    then show ?thesis using Sell z assms(4) by (simp add: taker_units_def taker_div_def)
  qed
  then show "amount_value r = BalanceUnit (taker_units direction d x (inner n)) (taker_div direction d)"
    and "r = (case direction of Buy \<Rightarrow> Base (amount_value r) | Sell \<Rightarrow> Quote (amount_value r))" by auto
qed

lemma deal_amount_maker:
  assumes "deal_amount x Maker b = Inr r" and "lo_side x = switched direction"
    and "is_divisible (lo_price x)" and "is_divisible n = d"
    and "n = (case b of None \<Rightarrow> lo_amount x | Some a \<Rightarrow> a)"
  shows "amount_value r = BalanceUnit (maker_units direction d x (inner n)) (maker_div direction d)"
proof -
  note r = deal_amount_Inr [OF assms(1,5)]
  show ?thesis
  proof (cases direction)
    case Sell
    then have "r = Base n" using r assms(2) by simp
    then show ?thesis using Sell assms(4) by (simp add: maker_units_def maker_div_def bu_eq_iff)
  next
    case Buy
    then obtain z where "bu_checked_mul (lo_price x) n = Some z" and z: "r = Quote z"
      using r assms(2) by auto
    note checked_mul_price(1) [OF this(1) assms(3)]
    then show ?thesis using Buy z assms(4) by (simp add: maker_units_def maker_div_def)
  qed
qed

text \<open>The state of a match in progress.\<close>

definition matching :: "price_variant \<Rightarrow> bool \<Rightarrow> impact \<Rightarrow> bool" where
  "matching direction d s \<longleftrightarrow>
     is_divisible (remaining_amount s) = d \<and> 0 < inner (remaining_amount s) \<and>
     has_div (taker_div direction d) (taker_amount s) \<and>
     has_div (maker_div direction d) (maker_amount s)"

definition fill_order ::
  "asset_id \<Rightarrow> price_variant \<Rightarrow> bool \<Rightarrow> limit_order \<Rightarrow> nat \<Rightarrow> impact \<Rightarrow> impact" where
  "fill_order out_asset direction d x n s =
     s \<lparr> remaining_amount := (if n = inner (lo_amount x)
                               then BalanceUnit (inner (remaining_amount s) - n) d else bu_zero),
         taker_amount := BalanceUnit (inner (taker_amount s) + taker_units direction d x n) (taker_div direction d),
         maker_amount := BalanceUnit (inner (maker_amount s) + maker_units direction d x n) (maker_div direction d),
         unlocks := pay_entry out_asset (lo_owner x)
           (BalanceUnit (maker_units direction d x n) (maker_div direction d)) (unlocks s),
         full_execute := (if n = inner (lo_amount x) then bt_insert (lo_id x) x (full_execute s)
                          else full_execute s),
         part_execute := (if n = inner (lo_amount x) then part_execute s
                          else bt_insert (lo_id x)
                            (x \<lparr> lo_amount := BalanceUnit (inner (lo_amount x) - n) d \<rparr>,
                             Base (BalanceUnit n d)) (part_execute s)) \<rparr>"

lemma full_match_fill:
  assumes "full_match out_asset x s = Inr s'" and "order_wf d x" and "lo_side x = switched direction"
    and "matching direction d s"
  shows "s' = fill_order out_asset direction d x (inner (lo_amount x)) s"
    and "inner (taker_amount s) + taker_units direction d x (inner (lo_amount x)) \<le> u128_max"
    and "inner (maker_amount s) + maker_units direction d x (inner (lo_amount x)) \<le> u128_max"
proof -
  from assms(1) obtain r t tk m mk
    where r: "bu_checked_sub (remaining_amount s) (lo_amount x) = Some r"
      and t: "deal_amount x Taker None = Inr t" "bu_checked_add (taker_amount s) (amount_value t) = Some tk"
      and m: "deal_amount x Maker None = Inr m" "bu_checked_add (maker_amount s) (amount_value m) = Some mk"
      and s': "s' = s \<lparr> remaining_amount := r, taker_amount := tk, maker_amount := mk,
              unlocks := pay_entry out_asset (lo_owner x) (amount_value m) (unlocks s),
              full_execute := bt_insert (lo_id x) x (full_execute s) \<rparr>"
    by (auto simp: full_match_def run_simps)
  have wf: "is_divisible (lo_price x)" "is_divisible (lo_amount x) = d"
    and mt: "is_divisible (remaining_amount s) = d" "has_div (taker_div direction d) (taker_amount s)"
      "has_div (maker_div direction d) (maker_amount s)"
    using assms(2,4) by (auto simp: order_wf_def matching_def)
  note tv = deal_amount_taker(1) [OF t(1) assms(3) wf(1) wf(2), simplified]
  note mv = deal_amount_maker [OF m(1) assms(3) wf(1) wf(2), simplified]
  have rr: "r = BalanceUnit (inner (remaining_amount s) - inner (lo_amount x)) d"
    using checked_sub_has_div [OF r] mt(1) wf(2) by simp
  note ta = checked_add_has_div [OF t(2) mt(2)]
  note ma = checked_add_has_div [OF m(2) mt(3)]
  show "s' = fill_order out_asset direction d x (inner (lo_amount x)) s"
    using s' rr tv mv ta(1) ma(1) by (simp add: fill_order_def)
  show "inner (taker_amount s) + taker_units direction d x (inner (lo_amount x)) \<le> u128_max"
    and "inner (maker_amount s) + maker_units direction d x (inner (lo_amount x)) \<le> u128_max"
    using tv mv ta(2) ma(2) by auto
qed

lemma part_match_fill:
  assumes "part_match out_asset x s = Inr s'" and "order_wf d x" and "lo_side x = switched direction"
    and "matching direction d s" and "inner (remaining_amount s) < inner (lo_amount x)"
  shows "s' = fill_order out_asset direction d x (inner (remaining_amount s)) s"
    and "inner (taker_amount s) + taker_units direction d x (inner (remaining_amount s)) \<le> u128_max"
    and "inner (maker_amount s) + maker_units direction d x (inner (remaining_amount s)) \<le> u128_max"
proof -
  let ?n = "remaining_amount s"
  from assms(1) obtain l t tk m mk
    where l: "bu_checked_sub (lo_amount x) ?n = Some l"
      and t: "deal_amount x Taker (Some ?n) = Inr t" "bu_checked_add (taker_amount s) (amount_value t) = Some tk"
      and m: "deal_amount x Maker (Some ?n) = Inr m" "bu_checked_add (maker_amount s) (amount_value m) = Some mk"
      and s': "s' = s \<lparr> taker_amount := tk, maker_amount := mk,
              unlocks := pay_entry out_asset (lo_owner x) (amount_value m) (unlocks s),
              part_execute := bt_insert (lo_id x) (x \<lparr> lo_amount := l \<rparr>, Base ?n) (part_execute s),
              remaining_amount := bu_zero \<rparr>"
    by (auto simp: part_match_def run_simps)
  have wf: "is_divisible (lo_price x)" "is_divisible (lo_amount x) = d"
    and mt: "is_divisible ?n = d" "has_div (taker_div direction d) (taker_amount s)"
      "has_div (maker_div direction d) (maker_amount s)"
    using assms(2,4) by (auto simp: order_wf_def matching_def)
  note tv = deal_amount_taker(1) [OF t(1) assms(3) wf(1) mt(1), simplified]
  note mv = deal_amount_maker [OF m(1) assms(3) wf(1) mt(1), simplified]
  have ll: "l = BalanceUnit (inner (lo_amount x) - inner ?n) d"
    using checked_sub_has_div [OF l] mt(1) wf(2) by simp
  have nn: "?n = BalanceUnit (inner ?n) d" using mt(1) by (simp add: bu_eq_iff)
  note ta = checked_add_has_div [OF t(2) mt(2)]
  note ma = checked_add_has_div [OF m(2) mt(3)]
  show "s' = fill_order out_asset direction d x (inner ?n) s"
    using s' ll nn tv mv ta(1) ma(1) assms(5) by (simp add: fill_order_def)
  show "inner (taker_amount s) + taker_units direction d x (inner ?n) \<le> u128_max"
    and "inner (maker_amount s) + maker_units direction d x (inner ?n) \<le> u128_max"
    using tv mv ta(2) ma(2) by auto
qed

section \<open>A run of orders\<close>

definition apply_fills ::
  "asset_id \<Rightarrow> price_variant \<Rightarrow> bool \<Rightarrow> (limit_order \<times> nat) list \<Rightarrow> impact \<Rightarrow> impact" where
  "apply_fills out_asset direction d fs s =
     foldl (\<lambda>s (x, n). fill_order out_asset direction d x n s) s fs"

lemma apply_fills_simps [simp]:
  "apply_fills out_asset direction d [] s = s"
  "apply_fills out_asset direction d ((x, n) # fs) s =
     apply_fills out_asset direction d fs (fill_order out_asset direction d x n s)"
  by (simp_all add: apply_fills_def)

lemma sum_simps [simp]:
  "taken [] = 0" "taken ((x, n) # fs) = n + taken fs"
  "taker_sum direction d [] = 0"
  "taker_sum direction d ((x, n) # fs) = taker_units direction d x n + taker_sum direction d fs"
  "maker_sum direction d [] = 0"
  "maker_sum direction d ((x, n) # fs) = maker_units direction d x n + maker_sum direction d fs"
  "maker_paid direction d [] y = 0"
  "maker_paid direction d ((x, n) # fs) y =
     (if lo_owner x = y then maker_units direction d x n else 0) + maker_paid direction d fs y"
  by (simp_all add: taken_def taker_sum_def maker_sum_def maker_paid_def)

lemma sums_by_direction:
  "taker_sum direction d fs = (case direction of Buy \<Rightarrow> taken fs | Sell \<Rightarrow> cost d fs)"
  "maker_sum direction d fs = (case direction of Buy \<Rightarrow> cost d fs | Sell \<Rightarrow> taken fs)"
  by (induction fs) (auto simp: taker_units_def maker_units_def taken_def cost_def split: price_variant.splits)

lemma matching_fill:
  assumes "matching direction d s" and "n = inner (lo_amount x)" and "n < inner (remaining_amount s)"
  shows "matching direction d (fill_order out_asset direction d x n s)"
  using assms by (auto simp: matching_def fill_order_def has_div_def)

lemma le_same_div:
  "is_divisible a = is_divisible b \<Longrightarrow> a \<le> b \<longleftrightarrow> inner a \<le> inner b" for a b :: balance_unit
  by (auto simp: bu_less_eq_value bu_value_def)

lemma less_same_div:
  "is_divisible a = is_divisible b \<Longrightarrow> a < b \<longleftrightarrow> inner a < inner b" for a b :: balance_unit
  by (auto simp: bu_less_value bu_value_def)

lemma match_orders_fills:
  assumes "match_orders out_asset xs s = Inr s'" and "bu_is_zero (remaining_amount s')"
    and "\<forall>x\<in>set xs. order_wf d x \<and> lo_side x = switched direction" and "matching direction d s"
  shows "s' = apply_fills out_asset direction d (fills (inner (remaining_amount s)) xs) s
    \<and> taken (fills (inner (remaining_amount s)) xs) = inner (remaining_amount s)
    \<and> inner (taker_amount s) + taker_sum direction d (fills (inner (remaining_amount s)) xs) \<le> u128_max
    \<and> inner (maker_amount s) + maker_sum direction d (fills (inner (remaining_amount s)) xs) \<le> u128_max"
  using assms
proof (induction xs arbitrary: s)
  case Nil
  then show ?case by (simp add: matching_def bu_is_zero_def)
next
  case (Cons x xs)
  let ?n = "inner (lo_amount x)" and ?r = "inner (remaining_amount s)"
  have wf: "order_wf d x" "lo_side x = switched direction" using Cons.prems(3) by auto
  have le: "lo_amount x \<le> remaining_amount s \<longleftrightarrow> ?n \<le> ?r"
    using wf(1) Cons.prems(4) by (intro le_same_div) (auto simp: order_wf_def matching_def)
  show ?case
  proof (cases "?n \<le> ?r")
    case full: True
    then obtain s1 where s1: "full_match out_asset x s = Inr s1"
      and rest: "(if bu_is_zero (remaining_amount s1) then Inr s1 else match_orders out_asset xs s1) = Inr s'"
      using Cons.prems(1) le by (auto simp: run_simps)
    note fm = full_match_fill [OF s1 wf Cons.prems(4)]
    have rem1: "inner (remaining_amount s1) = ?r - ?n" by (simp add: fm(1) fill_order_def)
    show ?thesis
    proof (cases "?n = ?r")
      case True
      then have "s' = s1" using rest rem1 by (simp add: bu_is_zero_def)
      then show ?thesis using True fm by simp
    next
      case False
      then have "\<not> bu_is_zero (remaining_amount s1)" using rem1 full by (simp add: bu_is_zero_def)
      then have m1: "match_orders out_asset xs s1 = Inr s'" using rest by simp
      have "matching direction d s1"
        using matching_fill [OF Cons.prems(4)] False full by (simp add: fm(1))
      from Cons.IH [OF m1 Cons.prems(2) _ this] Cons.prems(3)
      have IH: "s' = apply_fills out_asset direction d (fills (?r - ?n) xs) s1"
        "taken (fills (?r - ?n) xs) = ?r - ?n"
        "inner (taker_amount s1) + taker_sum direction d (fills (?r - ?n) xs) \<le> u128_max"
        "inner (maker_amount s1) + maker_sum direction d (fills (?r - ?n) xs) \<le> u128_max"
        by (auto simp: rem1)
      have acc: "inner (taker_amount s1) = inner (taker_amount s) + taker_units direction d x ?n"
        "inner (maker_amount s1) = inner (maker_amount s) + maker_units direction d x ?n"
        by (simp_all add: fm(1) fill_order_def)
      show ?thesis using IH False full acc fm(1) by auto
    qed
  next
    case False
    then have s1: "part_match out_asset x s = Inr s'" using Cons.prems(1) le by auto
    note pm = part_match_fill [OF s1 wf Cons.prems(4)]
    show ?thesis using False pm by simp
  qed
qed

text \<open>The orders that are filled are the first ones, all but the last of them completely.\<close>

lemma fills_prefix: "map fst (fills n xs) = take (length (fills n xs)) xs"
  by (induction n xs rule: fills.induct) auto

lemma fills_full:
  "i + 1 < length (fills n xs) \<Longrightarrow> is_full (fills n xs ! i)"
proof (induction n xs arbitrary: i rule: fills.induct)
  case (2 n x xs)
  show ?case
  proof (cases i)
    case 0
    then show ?thesis using "2.prems" by (auto simp: is_full_def split: if_splits)
  next
    case (Suc j)
    then show ?thesis
      using 2 by (auto split: if_splits)
  qed
qed simp

lemma fills_bounds:
  assumes "0 < n" and "\<forall>x\<in>set xs. 0 < inner (lo_amount x)" and "f \<in> set (fills n xs)"
  shows "0 < snd f" and "snd f \<le> inner (lo_amount (fst f))" and "fst f \<in> set xs"
proof -
  have "0 < snd f \<and> snd f \<le> inner (lo_amount (fst f)) \<and> fst f \<in> set xs"
    using assms by (induction n xs rule: fills.induct) (auto split: if_splits)
  then show "0 < snd f" and "snd f \<le> inner (lo_amount (fst f))" and "fst f \<in> set xs" by auto
qed

lemma taken_fills:
  "taken (fills n xs) = min n (sum_list (map (\<lambda>x. inner (lo_amount x)) xs))"
  by (induction n xs rule: fills.induct) auto

section \<open>What the fills add up to\<close>

lemma apply_fills_amounts:
  "inner (taker_amount (apply_fills out_asset direction d fs s)) =
     inner (taker_amount s) + taker_sum direction d fs"
  "inner (maker_amount (apply_fills out_asset direction d fs s)) =
     inner (maker_amount s) + maker_sum direction d fs"
  "fs \<noteq> [] \<Longrightarrow> is_divisible (taker_amount (apply_fills out_asset direction d fs s)) = taker_div direction d"
  "fs \<noteq> [] \<Longrightarrow> is_divisible (maker_amount (apply_fills out_asset direction d fs s)) = maker_div direction d"
proof -
  have "inner (taker_amount (apply_fills out_asset direction d fs s)) =
      inner (taker_amount s) + taker_sum direction d fs \<and>
    inner (maker_amount (apply_fills out_asset direction d fs s)) =
      inner (maker_amount s) + maker_sum direction d fs"
    by (induction fs arbitrary: s) (auto simp: fill_order_def)
  then show "inner (taker_amount (apply_fills out_asset direction d fs s)) =
      inner (taker_amount s) + taker_sum direction d fs"
    and "inner (maker_amount (apply_fills out_asset direction d fs s)) =
      inner (maker_amount s) + maker_sum direction d fs" by auto
  have "fs \<noteq> [] \<Longrightarrow>
      is_divisible (taker_amount (apply_fills out_asset direction d fs s)) = taker_div direction d \<and>
      is_divisible (maker_amount (apply_fills out_asset direction d fs s)) = maker_div direction d"
  proof (induction fs arbitrary: s)
    case (Cons f fs)
    then show ?case by (cases f; cases fs) (auto simp: fill_order_def)
  qed simp
  then show "fs \<noteq> [] \<Longrightarrow> is_divisible (taker_amount (apply_fills out_asset direction d fs s)) = taker_div direction d"
    and "fs \<noteq> [] \<Longrightarrow> is_divisible (maker_amount (apply_fills out_asset direction d fs s)) = maker_div direction d"
    by auto
qed

lemma apply_fills_executed:
  "full_execute (apply_fills out_asset direction d fs s) =
     foldl (\<lambda>m (x, n). bt_insert (lo_id x) x m) (full_execute s) (filter is_full fs)"
  "part_execute (apply_fills out_asset direction d fs s) =
     foldl (\<lambda>m (x, n). bt_insert (lo_id x)
              (x \<lparr> lo_amount := BalanceUnit (inner (lo_amount x) - n) d \<rparr>, Base (BalanceUnit n d)) m)
       (part_execute s) (filter (\<lambda>f. \<not> is_full f) fs)"
  by (induction fs arbitrary: s) (auto simp: fill_order_def is_full_def)

text \<open>
  Every maker is paid what its fills are worth: the payments to the makers add up to
  \<open>maker_amount\<close>, which has been checked against overflow, so no entry saturates.
\<close>

lemma apply_fills_unlocks:
  assumes "pay_ok D (unlocks s)" and "D out_asset = maker_div direction d"
    and "pay_total (unlocks s) out_asset = inner (maker_amount s)"
    and "inner (maker_amount s) + maker_sum direction d fs \<le> u128_max"
  shows "pay_ok D (unlocks (apply_fills out_asset direction d fs s))
    \<and> (\<forall>b. pay_total (unlocks (apply_fills out_asset direction d fs s)) b =
        pay_total (unlocks s) b + (if b = out_asset then maker_sum direction d fs else 0))
    \<and> (\<forall>b y. pay_to (unlocks (apply_fills out_asset direction d fs s)) b y =
        pay_to (unlocks s) b y + (if b = out_asset then maker_paid direction d fs y else 0))
    \<and> pay_accounts (unlocks (apply_fills out_asset direction d fs s)) \<subseteq>
        pay_accounts (unlocks s) \<union> lo_owner ` fst ` set fs"
  using assms
proof (induction fs arbitrary: s)
  case (Cons f fs)
  obtain x n where f: "f = (x, n)" by (cases f)
  let ?v = "BalanceUnit (maker_units direction d x n) (maker_div direction d)"
  let ?s = "fill_order out_asset direction d x n s"
  have dv: "is_divisible ?v = D out_asset" using Cons.prems(2) by simp
  have room: "pay_to (unlocks s) out_asset (lo_owner x) + inner ?v \<le> u128_max"
    using pay_to_le_total [of "unlocks s" out_asset "lo_owner x"] Cons.prems(3,4) by (simp add: f)
  have vmax: "inner ?v \<le> u128_max" using room by simp
  have u: "unlocks ?s = pay_entry out_asset (lo_owner x) ?v (unlocks s)"
    and mk: "inner (maker_amount ?s) = inner (maker_amount s) + maker_units direction d x n"
    by (simp_all add: fill_order_def)
  note ok1 = pay_ok_entry [OF Cons.prems(1) dv, of "lo_owner x"]
  note tot1 = pay_total_entry_exact [OF Cons.prems(1) dv room]
  note to1 = pay_to_entry [OF Cons.prems(1) dv vmax, of "lo_owner x"]
  have IH: "pay_ok D (unlocks (apply_fills out_asset direction d fs ?s))
    \<and> (\<forall>b. pay_total (unlocks (apply_fills out_asset direction d fs ?s)) b =
        pay_total (unlocks ?s) b + (if b = out_asset then maker_sum direction d fs else 0))
    \<and> (\<forall>b y. pay_to (unlocks (apply_fills out_asset direction d fs ?s)) b y =
        pay_to (unlocks ?s) b y + (if b = out_asset then maker_paid direction d fs y else 0))
    \<and> pay_accounts (unlocks (apply_fills out_asset direction d fs ?s)) \<subseteq>
        pay_accounts (unlocks ?s) \<union> lo_owner ` fst ` set fs"
    using Cons.prems(2-4) ok1 tot1 by (intro Cons.IH) (auto simp: u mk f)
  show ?case
    using IH tot1 to1 room pay_accounts_entry [of out_asset "lo_owner x" ?v "unlocks s"]
    by (auto simp: f u)
qed simp

end
