(* ===== verification/Price_Time.thy ===== *)
theory Price_Time
  imports Matching
begin

text \<open>
  Price-time priority: in a consistent book \<open>best_queue\<close> lists every order of the opposite side once,
  by price from the best to the worst, and within one price in the order of the price's queue, which
  is the order of insertion.
\<close>

definition better_price :: "price_variant \<Rightarrow> order_price \<Rightarrow> order_price \<Rightarrow> bool" where
  "better_price direction p q = (case direction of Buy \<Rightarrow> p < q | Sell \<Rightarrow> q < p)"

lemma better_price_irrefl: "\<not> better_price direction p p"
  by (cases direction) (auto simp: better_price_def)

lemma market_view_sorted:
  assumes "book_inv cfg d obid v"
  shows "sorted_wrt (better_price direction) (map fst (market_view v obid direction))"
proof -
  have "sorted_wrt (<) (map (bu_value \<circ> fst) (v_agg v side obid))" for side
    using assms by (auto simp: book_inv_def side_inv_def agg_wf_def)
  then have "sorted_wrt (\<lambda>a b. bu_value (fst a) < bu_value (fst b)) (v_agg v side obid)" for side
    by (simp add: sorted_wrt_map)
  then show ?thesis
    by (cases direction)
      (auto simp: market_view_def better_price_def sorted_wrt_map sorted_wrt_rev bu_less_value)
qed

lemma market_view_agg:
  "set (market_view v obid direction) = set (v_agg v (switched direction) obid)"
  by (cases direction) (auto simp: market_view_def)

lemma level_orders_price:
  assumes "book_inv cfg d obid v" and "x \<in> set (level_orders v side obid p)"
  shows "lo_price x = p" and "lo_side x = side" and "v_orders v obid (lo_id x) = Some x" and "order_wf d x"
proof -
  from assms(2) obtain q where q: "v_level v side obid p = Some q"
    by (cases "v_level v side obid p") (auto simp: level_orders_def)
  with assms(2) obtain i where i: "i \<in> set q" and x: "x = the (v_orders v obid i)"
    by (auto simp: level_orders_def)
  from level_ids_known [OF assms(1) q i] x
  show "lo_price x = p" and "lo_side x = side" and "v_orders v obid (lo_id x) = Some x" and "order_wf d x"
    by auto
qed

lemma level_orders_ids:
  assumes "book_inv cfg d obid v"
  shows "map lo_id (level_orders v side obid p) = unwrap_or (v_level v side obid p) []"
proof (cases "v_level v side obid p")
  case (Some q)
  then show ?thesis
    using level_ids_known [OF assms Some] by (force simp: level_orders_def Some intro!: map_idI)
qed (simp add: level_orders_def)

lemma level_orders_distinct:
  assumes "book_inv cfg d obid v"
  shows "distinct (map lo_id (level_orders v side obid p))"
  using assms unfolding level_orders_ids [OF assms]
  by (cases "v_level v side obid p") (auto simp: book_inv_def side_inv_def level_inv_def)

lemma best_queue_member:
  assumes "book_inv cfg d obid v" and "x \<in> set (best_queue v obid direction)"
  shows "lo_side x = switched direction" and "v_orders v obid (lo_id x) = Some x" and "order_wf d x"
  using assms level_orders_price [OF assms(1)] by (auto simp: best_queue_def)

lemma best_queue_complete:
  assumes inv: "book_inv cfg d obid v"
    and x: "v_orders v obid i = Some x" and side: "lo_side x = switched direction"
  shows "x \<in> set (best_queue v obid direction)"
proof -
  let ?s = "switched direction"
  have si: "side_inv cfg d ?s (v_orders v obid) (v_level v ?s obid) (v_agg v ?s obid)"
    using inv by (simp add: book_inv_def)
  then obtain q where q: "v_level v ?s obid (lo_price x) = Some q" "i \<in> set q"
    using x side by (fastforce simp: side_inv_def level_inv_def)
  have "is_divisible (lo_price x)" using si q by (auto simp: side_inv_def level_inv_def)
  then have "bt_get (lo_price x) (v_agg v ?s obid) \<noteq> None"
    using si q(1) unfolding side_inv_def agg_of_def by simp
  then obtain vol where "bt_get (lo_price x) (v_agg v ?s obid) = Some vol" by blast
  from bu_key.bt_get_Some_in [OF this]
  obtain p where "bu_value p = bu_value (lo_price x)" and mem: "(p, vol) \<in> set (v_agg v ?s obid)"
    by blast
  then have "p = lo_price x"
    using agg_level_present(1) [OF inv mem] \<open>is_divisible (lo_price x)\<close> by (simp add: price_key_eq)
  moreover have "x \<in> set (level_orders v ?s obid (lo_price x))"
    using q x by (force simp: level_orders_def)
  ultimately show ?thesis
    using mem by (auto simp: best_queue_def market_view_agg [of v obid direction])
qed

lemma sorted_wrt_same:
  "(\<And>x. x \<in> set xs \<Longrightarrow> f x = c) \<Longrightarrow> sorted_wrt (\<lambda>x y. f x = f y \<or> R x y) xs"
  by (induction xs) auto

lemma append_sorted_distinct:
  "sorted_wrt R xs \<Longrightarrow> sorted_wrt R ys \<Longrightarrow> distinct (map f xs) \<Longrightarrow> distinct (map f ys) \<Longrightarrow>
   (\<And>x y. x \<in> set xs \<Longrightarrow> y \<in> set ys \<Longrightarrow> R x y) \<Longrightarrow>
   (\<And>x y. x \<in> set xs \<Longrightarrow> y \<in> set ys \<Longrightarrow> f x \<noteq> f y) \<Longrightarrow>
   sorted_wrt R (xs @ ys) \<and> distinct (map f (xs @ ys))"
  by (auto simp: sorted_wrt_append)

lemma concat_levels_sorted:
  assumes "book_inv cfg d obid v" and "sorted_wrt (better_price direction) (map fst m)"
  shows "sorted_wrt (\<lambda>x y. lo_price x = lo_price y \<or> better_price direction (lo_price x) (lo_price y))
    (concat (map (\<lambda>(p, _). level_orders v side obid p) m))
  \<and> distinct (map lo_id (concat (map (\<lambda>(p, _). level_orders v side obid p) m)))"
  using assms(2)
proof (induction m)
  case (Cons e m)
  obtain p vol where e: "e = (p, vol)" by (cases e)
  let ?here = "level_orders v side obid p"
  let ?rest = "concat (map (\<lambda>(p, _). level_orders v side obid p) m)"
  have later: "better_price direction p (lo_price y)" if "y \<in> set ?rest" for y
    using that Cons.prems level_orders_price(1) [OF assms(1)] by (fastforce simp: e)
  have here: "lo_price x = p" "v_orders v obid (lo_id x) = Some x" if "x \<in> set ?here" for x
    using level_orders_price [OF assms(1) that] by auto
  have rest: "v_orders v obid (lo_id y) = Some y" if "y \<in> set ?rest" for y
    using that level_orders_price(3) [OF assms(1)] by fastforce
  have "sorted_wrt (\<lambda>x y. lo_price x = lo_price y \<or> better_price direction (lo_price x) (lo_price y)) ?here"
    by (rule sorted_wrt_same) (rule here(1))
  moreover have "lo_id x \<noteq> lo_id y" if "x \<in> set ?here" and "y \<in> set ?rest" for x y
  proof
    assume "lo_id x = lo_id y"
    then have "Some x = Some y" by (metis here(2) [OF that(1)] rest [OF that(2)])
    then have "x = y" by (rule option.inject [THEN iffD1])
    then show False using here(1) [OF that(1)] later [OF that(2)] better_price_irrefl by simp
  qed
  moreover have "better_price direction (lo_price x) (lo_price y)"
    if "x \<in> set ?here" and "y \<in> set ?rest" for x y
    using later [OF that(2)] here(1) [OF that(1)] by simp
  moreover have "sorted_wrt (better_price direction) (map fst m)" using Cons.prems by simp
  note Cons.IH [OF this]
  ultimately have "sorted_wrt (\<lambda>x y. lo_price x = lo_price y \<or> better_price direction (lo_price x) (lo_price y))
      (?here @ ?rest) \<and> distinct (map lo_id (?here @ ?rest))"
    using level_orders_distinct [OF assms(1), of side p] by (intro append_sorted_distinct) blast+
  then show ?case by (simp add: e)
qed simp

lemma best_queue_sorted:
  assumes "book_inv cfg d obid v"
  shows "sorted_wrt (\<lambda>x y. lo_price x = lo_price y \<or> better_price direction (lo_price x) (lo_price y))
      (best_queue v obid direction)"
    and "distinct (map lo_id (best_queue v obid direction))"
  using concat_levels_sorted [OF assms market_view_sorted [OF assms], where side = "switched direction"]
  by (simp_all add: best_queue_def)

lemma concat_levels_filter:
  assumes "book_inv cfg d obid v" and "sorted_wrt (better_price direction) (map fst m)"
  shows "filter (\<lambda>x. lo_price x = p) (concat (map (\<lambda>(p, _). level_orders v side obid p) m)) =
    (if p \<in> fst ` set m then level_orders v side obid p else [])"
  using assms(2)
proof (induction m)
  case (Cons e m)
  obtain p' vol where e: "e = (p', vol)" by (cases e)
  have here: "filter (\<lambda>x. lo_price x = p) (level_orders v side obid p') =
      (if p' = p then level_orders v side obid p' else [])"
    using level_orders_price(1) [OF assms(1)] by (auto simp: filter_id_conv filter_empty_conv)
  have "p' \<notin> fst ` set m" using Cons.prems better_price_irrefl by (force simp: e)
  then show ?case using Cons here by (auto simp: e)
qed simp

lemma best_queue_level:
  assumes inv: "book_inv cfg d obid v"
  shows "filter (\<lambda>x. lo_price x = p) (best_queue v obid direction) =
    level_orders v (switched direction) obid p"
proof -
  have "level_orders v (switched direction) obid p = []" if "p \<notin> fst ` set (market_view v obid direction)"
  proof (rule ccontr)
    assume "level_orders v (switched direction) obid p \<noteq> []"
    then obtain x where x: "x \<in> set (level_orders v (switched direction) obid p)" by fastforce
    note lp = level_orders_price [OF inv x]
    have "x \<in> set (best_queue v obid direction)"
      by (rule best_queue_complete [OF inv lp(3) lp(2)])
    then show False
      using that lp(1) level_orders_price(1) [OF inv] by (force simp: best_queue_def)
  qed
  then show ?thesis
    using concat_levels_filter [OF inv market_view_sorted [OF inv, where direction = direction],
        where side = "switched direction" and p = p]
    by (simp add: best_queue_def split: if_splits)
qed

text \<open>Orders of one price queue by a second key when the levels do.\<close>

lemma sorted_two_keys:
  assumes "sorted_wrt (\<lambda>x y. f x = f y \<or> R (f x) (f y)) xs"
    and "\<And>c. sorted_wrt (\<lambda>x y. P x y) (filter (\<lambda>x. f x = c) xs)"
  shows "sorted_wrt (\<lambda>x y. R (f x) (f y) \<or> f x = f y \<and> P x y) xs"
  using assms
proof (induction xs)
  case (Cons x xs)
  have "sorted_wrt P (filter (\<lambda>y. f y = c) xs)" for c
    using Cons.prems(2) [of c] by (cases "f x = c") auto
  moreover have "P x y" if "y \<in> set xs" "f y = f x" for y using Cons.prems(2) [of "f x"] that by simp
  ultimately show ?case using Cons by auto
qed simp

lemma best_queue_time:
  assumes inv: "book_inv cfg d obid v"
    and levels: "\<And>p q. v_level v (switched direction) obid p = Some q \<Longrightarrow> sorted_wrt (<) q"
  shows "sorted_wrt (\<lambda>x y. better_price direction (lo_price x) (lo_price y) \<or> lo_price x = lo_price y \<and> lo_id x < lo_id y)
      (best_queue v obid direction)"
proof (rule sorted_two_keys [OF best_queue_sorted(1) [OF inv]])
  fix c
  have "sorted_wrt (<) (map lo_id (level_orders v (switched direction) obid c))"
    using levels unfolding level_orders_ids [OF inv] by (cases "v_level v (switched direction) obid c") auto
  then show "sorted_wrt (\<lambda>x y. lo_id x < lo_id y) (filter (\<lambda>x. lo_price x = c) (best_queue v obid direction))"
    by (simp add: best_queue_level [OF inv] sorted_wrt_map)
qed

end
