(* ===== verification/Apply_Change.thy ===== *)
theory Apply_Change
  imports Matching "HOL-Library.Sublist"
begin

text \<open>
  The effect of \<open>apply_market_change\<close> on the book and on the agenda of expirations. A change whose
  orders agree with the book (\<open>change_ok\<close>) is applied as a map update (\<open>orders_after\<close>); the indices of
  the book and the agenda stay consistent.
\<close>

section \<open>The agenda invariant\<close>

text \<open>
  Every order of a book is scheduled exactly once, at the block it expires in; orders in \<open>E\<close> have
  been taken off the agenda and are about to be expired.
\<close>

type_synonym orders_of = "order_book_id \<Rightarrow> order_id \<Rightarrow> limit_order option"

definition agenda_inv :: "(order_book_id \<times> order_id) set \<Rightarrow> orders_of \<Rightarrow> world \<Rightarrow> bool" where
  "agenda_inv E orders w \<longleftrightarrow>
     (\<forall>b obid i. count_list (ExpirationsAgenda w b) (obid, i) =
        (if (obid, i) \<notin> E \<and> (\<exists>x. orders obid i = Some x \<and> lo_expires_at x = b) then 1 else 0))"

definition same_ledger :: "world \<Rightarrow> world \<Rightarrow> bool" where
  "same_ledger w w' \<longleftrightarrow>
     Accounts w' = Accounts w \<and> NativeBalances w' = NativeBalances w \<and> TechAccounts w' = TechAccounts w"

lemma same_ledger_refl [simp]: "same_ledger w w"
  by (simp add: same_ledger_def)

lemma same_ledger_trans: "same_ledger w w1 \<Longrightarrow> same_ledger w1 w2 \<Longrightarrow> same_ledger w w2"
  by (simp add: same_ledger_def)

lemma same_ledger_upd [simp]:
  "same_ledger w (w' \<lparr> ExpirationsAgenda := a \<rparr>) = same_ledger w w'"
  "same_ledger w (w' \<lparr> Events := es \<rparr>) = same_ledger w w'"
  by (simp_all add: same_ledger_def)

lemma same_ledger_balance: "same_ledger w w' \<Longrightarrow> balance_of env w' = balance_of env w"
  by (simp add: same_ledger_def balance_of_def token_balance_def accounts_def fun_eq_iff)

lemma agenda_inv_events [simp]: "agenda_inv E orders (w \<lparr> Events := es \<rparr>) = agenda_inv E orders w"
  by (simp add: agenda_inv_def)

lemma count_list_remove1:
  "count_list (remove1 a xs) y = (if a = y then count_list xs y - 1 else count_list xs y)"
  by (induction xs) (auto simp: count_list_0_iff)

lemma agenda_inv_removed:
  assumes "agenda_inv E orders w" and own: "\<And>b. count_list (ExpirationsAgenda w' b) (obid, i) = 0"
    and other: "\<And>b k. k \<noteq> (obid, i) \<Longrightarrow>
      count_list (ExpirationsAgenda w' b) k = count_list (ExpirationsAgenda w b) k"
  shows "agenda_inv E (upd2 orders obid i None) w'"
  unfolding agenda_inv_def
proof (intro allI)
  fix b ob j
  show "count_list (ExpirationsAgenda w' b) (ob, j) =
    (if (ob, j) \<notin> E \<and> (\<exists>y. upd2 orders obid i None ob j = Some y \<and> lo_expires_at y = b) then 1 else 0)"
  proof (cases "(ob, j) = (obid, i)")
    case True
    then show ?thesis using own by simp
  next
    case False
    then have "upd2 orders obid i None ob j = orders ob j" by auto
    then show ?thesis using assms(1) other [OF False] unfolding agenda_inv_def by simp
  qed
qed

lemma unschedule_order_agenda:
  assumes "agenda_inv E orders w" and "orders obid (lo_id x) = Some x"
    and "unschedule_order ignore_error obid x w = (Inr u, w')"
  shows "agenda_inv E (upd2 orders obid (lo_id x) None) w'" and "same_ledger w w'"
    and "Events w' = Events w"
proof -
  let ?k = "(obid, lo_id x)"
  show "agenda_inv E (upd2 orders obid (lo_id x) None) w'"
  proof (cases "?k \<in> set (ExpirationsAgenda w (lo_expires_at x))")
    case True
    then have w': "w' = w \<lparr> ExpirationsAgenda := (ExpirationsAgenda w)
        (lo_expires_at x := remove1 ?k (ExpirationsAgenda w (lo_expires_at x))) \<rparr>"
      using assms(3) by (simp add: unschedule_order_def unschedule_expiration_def)
    have own: "count_list (ExpirationsAgenda w' b) ?k = 0" for b
      using assms(1,2) by (auto simp: agenda_inv_def w' count_list_remove1)
    have other: "count_list (ExpirationsAgenda w' b) k = count_list (ExpirationsAgenda w b) k"
      if "k \<noteq> ?k" for b k
      using that by (auto simp: w' count_list_remove1)
    show ?thesis by (rule agenda_inv_removed [OF assms(1) own other])
  next
    case False
    then have "w' = w"
      using assms(3) by (auto simp: unschedule_order_def unschedule_expiration_def split: if_splits)
    moreover have "count_list (ExpirationsAgenda w b) ?k = 0" for b
      using assms(1,2) False unfolding agenda_inv_def by (metis count_list_0_iff option.inject)
    ultimately show ?thesis by (intro agenda_inv_removed [OF assms(1)]) auto
  qed
  show "same_ledger w w'" and "Events w' = Events w"
    using assms(3)
    by (auto simp: unschedule_order_def unschedule_expiration_def split: if_splits prod.splits sum.splits)
qed

lemma unschedule_order_succeeds:
  assumes "agenda_inv E orders w" and "orders obid (lo_id x) = Some x" and "(obid, lo_id x) \<notin> E"
  shows "\<exists>w'. unschedule_order ignore_error obid x w = (Inr (), w')"
proof -
  have "count_list (ExpirationsAgenda w (lo_expires_at x)) (obid, lo_id x) = 1"
    using assms by (simp add: agenda_inv_def)
  then have "(obid, lo_id x) \<in> set (ExpirationsAgenda w (lo_expires_at x))"
    by (metis count_list_0_iff zero_neq_one)
  then show ?thesis by (simp add: unschedule_order_def unschedule_expiration_def)
qed

lemma schedule_agenda:
  assumes "agenda_inv E orders w" and "orders obid (lo_id x) = None" and "(obid, lo_id x) \<notin> E"
    and "schedule_expiration env (lo_expires_at x) obid (lo_id x) w = (Inr u, w')"
  shows "agenda_inv E (upd2 orders obid (lo_id x) (Some x)) w'" and "same_ledger w w'"
    and "Events w' = Events w"
  using assms by (auto simp: agenda_inv_def run_simps)

lemma agenda_inv_shrink:
  assumes "agenda_inv E orders w" and "orders obid i = Some y" and "lo_expires_at x = lo_expires_at y"
  shows "agenda_inv E (upd2 orders obid i (Some x)) w"
  using assms by (auto simp: agenda_inv_def)

section \<open>Single changes\<close>

definition shrinks_to :: "limit_order \<Rightarrow> limit_order \<Rightarrow> bool" where
  "shrinks_to y x \<longleftrightarrow>
     x = y \<lparr> lo_amount := lo_amount x \<rparr> \<and> is_divisible (lo_amount x) = is_divisible (lo_amount y) \<and>
     0 < inner (lo_amount x) \<and> inner (lo_amount x) < inner (lo_amount y)"

lemma spec_update_shrink:
  assumes "view_inv cfg dv v" and "v_orders v obid (lo_id x) = Some y" and "shrinks_to y x"
  shows "\<exists>v'. spec_update cfg obid (lo_id x) (lo_amount x) v = Inr v' \<and> view_inv cfg dv v' \<and>
    v_orders v' = upd2 (v_orders v) obid (lo_id x) (Some x)"
proof -
  have wf: "order_wf (dv obid) y"
    using assms(1,2) by (auto simp: view_inv_def book_inv_def)
  obtain m where m: "lo_amount x = BalanceUnit m (dv obid)"
    using assms(3) wf by (cases "lo_amount x") (auto simp: shrinks_to_def order_wf_def)
  have pos: "0 < m" and less: "BalanceUnit m (dv obid) < lo_amount y"
    using assms(3) wf m by (auto simp: shrinks_to_def order_wf_def bu_less_value bu_value_def)
  obtain agg where run: "spec_update cfg obid (lo_id x) (BalanceUnit m (dv obid)) v =
       Inr (v \<lparr> v_orders := upd2 (v_orders v) obid (lo_id x) (Some (y \<lparr> lo_amount := BalanceUnit m (dv obid) \<rparr>)),
                v_agg := upd2 (v_agg v) (lo_side y) obid agg \<rparr>)" (is "_ = Inr ?v")
    by (rule spec_update_Inr [OF assms(1,2) pos less])
  have "view_inv cfg dv ?v" by (rule spec_update_inv [OF assms(1) _ run]) simp
  moreover have "y \<lparr> lo_amount := BalanceUnit m (dv obid) \<rparr> = x"
    using assms(3) m by (simp add: shrinks_to_def)
  ultimately show ?thesis using run m by auto
qed

lemma spec_delete_known:
  assumes "view_inv cfg dv v" and "v_orders v obid i = Some x"
  shows "\<exists>v'. spec_delete cfg obid i v = Inr v' \<and> view_inv cfg dv v' \<and>
    v_orders v' = upd2 (v_orders v) obid i None"
proof -
  obtain agg where run: "spec_delete cfg obid i v =
       Inr (v \<lparr> v_orders := upd2 (v_orders v) obid i None,
                v_level := upd3 (v_level v) (lo_side x) obid (lo_price x)
                  (drop_id i (v_level v (lo_side x) obid (lo_price x))),
                v_agg := upd2 (v_agg v) (lo_side x) obid agg,
                v_user := upd2 (v_user v) (lo_owner x) obid (drop_id i (v_user v (lo_owner x) obid)) \<rparr>)"
    by (rule spec_delete_Inr [OF assms])
  show ?thesis using run spec_delete_inv [OF assms(1) run] by simp
qed

lemma writes_Inr:
  assumes "writes coh view f spec d" and "spec (view d) = Inr v"
  obtains d' where "f d = (Inr (), d')" and "coh d'" and "view d' = v"
  using assms by (cases "f d") (auto simp: writes_def)

lemma writes_run:
  assumes "writes coh view f spec d" and "f d = (Inr u, d')"
  shows "coh d'" and "spec (view d) = Inr (view d')"
  using assms by (auto simp: writes_def split: sum.splits)

text \<open>The state of the data layer and the world that every change starts from and ends in.\<close>

definition consistent ::
  "config \<Rightarrow> ('d \<Rightarrow> book_view) \<Rightarrow> ('d \<Rightarrow> bool) \<Rightarrow> (order_book_id \<Rightarrow> bool) \<Rightarrow>
   (order_book_id \<times> order_id) set \<Rightarrow> 'd \<times> world \<Rightarrow> bool" where
  "consistent cfg view coh dv E s \<longleftrightarrow>
     coh (fst s) \<and> view_inv cfg dv (view (fst s)) \<and> agenda_inv E (v_orders (view (fst s))) (snd s)"

text \<open>Price levels lose orders, and new orders join at their end.\<close>

definition queue_grows :: "order_id set \<Rightarrow> order_id list \<Rightarrow> order_id list \<Rightarrow> bool" where
  "queue_grows N q q' \<longleftrightarrow> (\<exists>ks ns. q' = ks @ ns \<and> subseq ks q \<and> set ns \<subseteq> N)"

definition levels_grow :: "(order_book_id \<times> order_id) set \<Rightarrow> book_view \<Rightarrow> book_view \<Rightarrow> bool" where
  "levels_grow N v v' \<longleftrightarrow>
     (\<forall>side obid p q'. v_level v' side obid p = Some q' \<longrightarrow>
        queue_grows {i. (obid, i) \<in> N} (unwrap_or (v_level v side obid p) []) q')"

lemma subseq_set: "subseq xs ys \<Longrightarrow> set xs \<subseteq> set ys"
  by (auto elim: list_emb_set)

lemma queue_grows_subseq: "subseq q' q \<Longrightarrow> queue_grows N q q'"
  unfolding queue_grows_def by (rule exI [of _ q'], rule exI [of _ "[]"]) simp

lemma queue_grows_push: "i \<in> N \<Longrightarrow> queue_grows N q (q @ [i])"
  unfolding queue_grows_def by (rule exI [of _ q], rule exI [of _ "[i]"]) simp

lemma queue_grows_mono: "queue_grows N q q' \<Longrightarrow> N \<subseteq> N' \<Longrightarrow> queue_grows N' q q'"
  unfolding queue_grows_def by blast

lemma queue_grows_trans:
  assumes "queue_grows N q q1" and "queue_grows N q1 q2"
  shows "queue_grows N q q2"
proof -
  from assms(1) obtain k1 n1 where q1: "q1 = k1 @ n1" "subseq k1 q" "set n1 \<subseteq> N" unfolding queue_grows_def by blast
  from assms(2) obtain k2 n2 where q2: "q2 = k2 @ n2" "subseq k2 (k1 @ n1)" "set n2 \<subseteq> N"
    unfolding queue_grows_def q1(1) by blast
  from q2(2) obtain a b where ab: "k2 = a @ b" "subseq a k1" "subseq b n1" by (auto elim: subseq_appendE)
  have "subseq a q" using ab(2) q1(2) by (rule subseq_order.trans)
  moreover have "set (b @ n2) \<subseteq> N" using subseq_set [OF ab(3)] q1(3) q2(3) by auto
  ultimately show ?thesis unfolding queue_grows_def q2(1) ab(1) by (metis append_assoc)
qed

lemma levels_grow_upd:
  assumes v': "v_level v' = upd3 (v_level v) side obid p e"
    and e: "\<And>q. e = Some q \<Longrightarrow> queue_grows {i. (obid, i) \<in> N} (unwrap_or (v_level v side obid p) []) q"
  shows "levels_grow N v v'"
  unfolding levels_grow_def v' using e queue_grows_subseq [OF subseq_order.refl] by simp

lemma levels_grow_same: "v_level v' = v_level v \<Longrightarrow> levels_grow N v v'"
  by (simp add: levels_grow_def queue_grows_subseq)

lemma levels_grow_mono: "levels_grow N v v' \<Longrightarrow> N \<subseteq> N' \<Longrightarrow> levels_grow N' v v'"
  unfolding levels_grow_def using queue_grows_mono by (metis (mono_tags, lifting) Collect_mono subsetD)

lemma levels_grow_trans:
  assumes "levels_grow N v v1" and "levels_grow N v1 v2"
  shows "levels_grow N v v2"
  unfolding levels_grow_def
proof (intro allI impI)
  fix side obid p q2
  assume "v_level v2 side obid p = Some q2"
  then have two: "queue_grows {i. (obid, i) \<in> N} (unwrap_or (v_level v1 side obid p) []) q2"
    using assms(2) by (simp add: levels_grow_def)
  have "queue_grows {i. (obid, i) \<in> N} (unwrap_or (v_level v side obid p) []) (unwrap_or (v_level v1 side obid p) [])"
    using assms(1) by (cases "v_level v1 side obid p") (simp_all add: levels_grow_def queue_grows_subseq)
  from queue_grows_trans [OF this two]
  show "queue_grows {i. (obid, i) \<in> N} (unwrap_or (v_level v side obid p) []) q2" .
qed

lemma spec_delete_levels:
  assumes "spec_delete cfg obid i v = Inr v'"
  shows "levels_grow N v v'"
proof -
  from assms obtain side p j where "v_level v' = upd3 (v_level v) side obid p (drop_id j (v_level v side obid p))"
    by (auto simp: spec_delete_def split: option.splits if_splits)
  then show ?thesis
    by (rule levels_grow_upd) (auto simp: drop_id_def Let_def split: if_splits option.splits intro: queue_grows_subseq)
qed

lemma spec_update_levels: "spec_update cfg obid i a v = Inr v' \<Longrightarrow> levels_grow N v v'"
  by (auto simp: spec_update_def split: option.splits if_splits intro: spec_delete_levels levels_grow_same)

lemma spec_insert_levels:
  assumes "spec_insert cfg obid x v = Inr v'" and "(obid, lo_id x) \<in> N"
  shows "levels_grow N v v'"
proof -
  from assms(1) have "v_level v' = upd3 (v_level v) (lo_side x) obid (lo_price x)
      (Some (unwrap_or (v_level v (lo_side x) obid (lo_price x)) [] @ [lo_id x]))"
    by (auto simp: spec_insert_Inr try_push_def split: if_splits)
  then show ?thesis
    by (rule levels_grow_upd) (use assms(2) in \<open>auto intro: queue_grows_push\<close>)
qed

text \<open>A step that keeps the state consistent, moves no balances and edits the orders of one book.\<close>

definition edits ::
  "config \<Rightarrow> ('d \<Rightarrow> book_view) \<Rightarrow> ('d \<Rightarrow> bool) \<Rightarrow> (order_book_id \<Rightarrow> bool) \<Rightarrow>
   (order_book_id \<times> order_id) set \<Rightarrow> (order_book_id \<times> order_id) set \<Rightarrow> order_book_id \<Rightarrow> 'd \<times> world \<Rightarrow> 'd \<times> world \<Rightarrow>
   (order_id \<Rightarrow> limit_order option) \<Rightarrow> bool" where
  "edits cfg view coh dv E N obid s s' orders' \<longleftrightarrow>
     consistent cfg view coh dv E s' \<and> same_ledger (snd s) (snd s') \<and>
     v_orders (view (fst s')) = (v_orders (view (fst s)))(obid := orders') \<and>
     levels_grow N (view (fst s)) (view (fst s'))"

lemma edits_trans:
  assumes "edits cfg view coh dv E N obid s s1 o1" and "edits cfg view coh dv E N obid s1 s2 o2"
  shows "edits cfg view coh dv E N obid s s2 o2"
  using assms by (auto simp: edits_def intro: same_ledger_trans levels_grow_trans)

lemma edits_events [simp]:
  "edits cfg view coh dv E N obid s (d, w \<lparr> Events := es \<rparr>) m = edits cfg view coh dv E N obid s (d, w) m"
  by (simp add: edits_def consistent_def)

lemma upd2_fun_upd: "upd2 f a b c = f(a := (f a)(b := c))"
  by (simp add: upd2_def)

section \<open>Payments leave the agenda alone\<close>

definition same_agenda :: "world \<Rightarrow> world \<Rightarrow> bool" where
  "same_agenda w w' \<longleftrightarrow>
     ExpirationsAgenda w' = ExpirationsAgenda w \<and> Events w' = Events w \<and> TechAccounts w' = TechAccounts w"

lemma same_agenda_refl [simp]: "same_agenda w w"
  by (simp add: same_agenda_def)

lemma same_agenda_trans: "same_agenda w w1 \<Longrightarrow> same_agenda w1 w2 \<Longrightarrow> same_agenda w w2"
  by (simp add: same_agenda_def)

lemma do_transfer_agenda: "same_agenda w (snd (do_transfer env a f t n w))"
  unfolding do_transfer_def Let_def same_agenda_def by (simp split: sum.split prod.split)

lemma currencies_agenda: "same_agenda w (snd (currencies_transfer env a f t n w))"
  using do_transfer_agenda [of w env a f t n]
  unfolding currencies_transfer_def by (simp add: same_agenda_def split: prod.split)

lemma transfer_from_agenda:
  assumes "transfer_from env a f t n w = (r, w')"
  shows "same_agenda w w'"
proof -
  have "w' = w \<or> w' = snd (currencies_transfer env a f t n w)"
    using assms
    by (cases "AssetRegulator_check_transfer env f t a"; cases "currencies_transfer env a f t n w";
        cases "fst (currencies_transfer env a f t n w)")
      (auto simp: transfer_from_def sbind_def slift_def)
  then show ?thesis using currencies_agenda by auto
qed

lemma transfer_in_agenda: "transfer_in env a f t n w = (r, w') \<Longrightarrow> same_agenda w w'"
  by (auto simp: transfer_in_def sbind_def slift_def ensure_account_registered_def
      split: sum.splits prod.splits dest: transfer_from_agenda)

lemma transfer_out_agenda: "transfer_out env a f t n w = (r, w') \<Longrightarrow> same_agenda w w'"
  by (auto simp: transfer_out_def sbind_def slift_def ensure_account_registered_def
      split: sum.splits prod.splits dest: transfer_from_agenda)

lemma sfor_agenda:
  assumes "\<And>x w r w'. f x w = (r, w') \<Longrightarrow> same_agenda w w'" and "sfor f xs w = (r, w')"
  shows "same_agenda w w'"
  using assms(2)
proof (induction xs arbitrary: w)
  case (Cons x xs)
  obtain r1 w1 where one: "f x w = (r1, w1)" by (cases "f x w")
  show ?case
  proof (cases r1)
    case (Inl e)
    then show ?thesis using Cons.prems one assms(1) [OF one] by (simp add: sbind_def)
  next
    case (Inr a)
    then have "sfor f xs w1 = (r, w')" using Cons.prems one by (simp add: sbind_def)
    from Cons.IH [OF this] assms(1) [OF one] show ?thesis by (rule same_agenda_trans [rotated])
  qed
qed (simp add: sret_def)

lemma execute_all_agenda:
  assumes "execute_all (lock_liquidity env) (unlock_liquidity_batch env) p w = (Inr u, w')"
  shows "same_agenda w w'"
proof -
  from assms obtain w1 where l: "payment_lock (lock_liquidity env) p w = (Inr (), w1)"
    and u: "payment_unlock (unlock_liquidity_batch env) p w1 = (Inr u, w')"
    by (auto simp: execute_all_def run_simps)
  have "same_agenda w w1"
    using l unfolding payment_lock_def
    by (rule sfor_agenda [rotated])
      (auto simp: lock_liquidity_def elim!: sfor_agenda [rotated] dest: transfer_in_agenda)
  moreover have "same_agenda w1 w'"
    using u unfolding payment_unlock_def
    by (rule sfor_agenda [rotated])
      (auto simp: unlock_liquidity_batch_def elim!: sfor_agenda [rotated] dest: transfer_out_agenda)
  ultimately show ?thesis by (rule same_agenda_trans)
qed

lemma consistent_payment:
  "consistent cfg view coh dv E (d, w) \<Longrightarrow> same_agenda w w' \<Longrightarrow> consistent cfg view coh dv E (d, w')"
  by (simp add: consistent_def same_agenda_def agenda_inv_def)

section \<open>Loops of changes\<close>

definition del_orders ::
  "limit_order list \<Rightarrow> (order_id \<Rightarrow> limit_order option) \<Rightarrow> order_id \<Rightarrow> limit_order option" where
  "del_orders xs m = foldl (\<lambda>m x. m(lo_id x := None)) m xs"

definition put_orders ::
  "limit_order list \<Rightarrow> (order_id \<Rightarrow> limit_order option) \<Rightarrow> order_id \<Rightarrow> limit_order option" where
  "put_orders xs m = foldl (\<lambda>m x. m(lo_id x \<mapsto> x)) m xs"

lemma del_orders_get: "del_orders xs m i = (if i \<in> lo_id ` set xs then None else m i)"
  by (induction xs arbitrary: m) (auto simp: del_orders_def)

lemma put_orders_other: "i \<notin> lo_id ` set xs \<Longrightarrow> put_orders xs m i = m i"
  by (induction xs arbitrary: m) (auto simp: put_orders_def)

lemma put_orders_get:
  "distinct (map lo_id xs) \<Longrightarrow> x \<in> set xs \<Longrightarrow> put_orders xs m (lo_id x) = Some x"
proof (induction xs arbitrary: m)
  case (Cons y xs)
  then show ?case
    using put_orders_other [of "lo_id y" xs "m(lo_id y \<mapsto> y)"] by (auto simp: put_orders_def)
qed simp

text \<open>A condition on the orders that holds before each step of a loop.\<close>

fun holds_along :: "('x \<Rightarrow> 'm \<Rightarrow> bool) \<Rightarrow> ('x \<Rightarrow> 'm \<Rightarrow> 'm) \<Rightarrow> 'x list \<Rightarrow> 'm \<Rightarrow> bool" where
  "holds_along P f [] m = True"
| "holds_along P f (x # xs) m = (P x m \<and> holds_along P f xs (f x m))"

lemma holds_along_del:
  assumes "distinct (map (\<lambda>c. lo_id (g c)) cs)" and "\<forall>c\<in>set cs. m (lo_id (g c)) = Some (g c)"
  shows "holds_along (\<lambda>c m. m (lo_id (g c)) = Some (g c)) (\<lambda>c m. m(lo_id (g c) := None)) cs m"
  using assms
proof (induction cs arbitrary: m)
  case (Cons c cs)
  then have "\<forall>c'\<in>set cs. lo_id (g c') \<noteq> lo_id (g c)" by (auto simp: image_iff)
  with Cons show ?case by simp
qed simp

lemma holds_along_put:
  assumes "distinct (map (\<lambda>c. lo_id (g c)) cs)"
    and "\<forall>c\<in>set cs. \<exists>y. m (lo_id (g c)) = Some y \<and> shrinks_to y (g c)"
  shows "holds_along (\<lambda>c m. \<exists>y. m (lo_id (g c)) = Some y \<and> shrinks_to y (g c))
    (\<lambda>c m. m(lo_id (g c) \<mapsto> g c)) cs m"
  using assms
proof (induction cs arbitrary: m)
  case (Cons c cs)
  then have "\<forall>c'\<in>set cs. lo_id (g c') \<noteq> lo_id (g c)" by (auto simp: image_iff)
  with Cons show ?case by simp
qed simp

lemma holds_along_const: "holds_along (\<lambda>c m. P c) f cs m \<longleftrightarrow> (\<forall>c\<in>set cs. P c)"
  by (induction cs arbitrary: m) auto

lemma foldl_del: "foldl (\<lambda>m c. m(lo_id (g c) := None)) m cs = del_orders (map g cs) m"
  by (induction cs arbitrary: m) (auto simp: del_orders_def)

lemma foldl_put: "foldl (\<lambda>m c. m(lo_id (g c) \<mapsto> g c)) m cs = put_orders (map g cs) m"
  by (induction cs arbitrary: m) (auto simp: put_orders_def)

section \<open>Whole changes\<close>

definition cancelled :: "market_change \<Rightarrow> limit_order list" where
  "cancelled mc = map (fst \<circ> snd) (to_cancel mc)"

definition filled_full :: "market_change \<Rightarrow> limit_order list" where
  "filled_full mc = map snd (to_full_execute mc)"

definition filled_part :: "market_change \<Rightarrow> limit_order list" where
  "filled_part mc = map (fst \<circ> snd) (to_part_execute mc)"

definition updated :: "market_change \<Rightarrow> limit_order list" where
  "updated mc = map snd (to_force_update mc)"

definition placed :: "market_change \<Rightarrow> limit_order list" where
  "placed mc = map snd (to_place mc)"

definition change_ok :: "bool \<Rightarrow> (order_id \<Rightarrow> limit_order option) \<Rightarrow> market_change \<Rightarrow> bool" where
  "change_ok d m mc \<longleftrightarrow>
     distinct (map lo_id (cancelled mc @ filled_full mc @ filled_part mc @ updated mc)) \<and>
     (\<forall>x \<in> set (cancelled mc @ filled_full mc). m (lo_id x) = Some x) \<and>
     (\<forall>x \<in> set (filled_part mc @ updated mc). \<exists>y. m (lo_id x) = Some y \<and> shrinks_to y x) \<and>
     (\<forall>x \<in> set (placed mc). order_wf d x)"

definition orders_after ::
  "market_change \<Rightarrow> (order_id \<Rightarrow> limit_order option) \<Rightarrow> order_id \<Rightarrow> limit_order option" where
  "orders_after mc m =
     put_orders (placed mc) (put_orders (updated mc) (put_orders (filled_part mc)
       (del_orders (filled_full mc) (del_orders (cancelled mc) m))))"

context DataLayer
begin

lemma delete_step:
  assumes "consistent cfg view coh dv E (d, w)" and "v_orders (view d) obid (lo_id x) = Some x"
    and "dl_delete_limit_order dl obid (lo_id x) d = (Inr u, d')"
    and "unschedule_order ignore_error obid x w = (Inr u', w')"
  shows "edits cfg view coh dv E N obid (d, w) (d', w') ((v_orders (view d) obid)(lo_id x := None))"
proof -
  have c: "coh d" "view_inv cfg dv (view d)" "agenda_inv E (v_orders (view d)) w"
    using assms(1) by (auto simp: consistent_def)
  note wr = writes_run [OF delete_limit_order [OF c(1,2)] assms(3)]
  from spec_delete_known [OF c(2) assms(2)] wr(2)
  have v: "view_inv cfg dv (view d')" "v_orders (view d') = upd2 (v_orders (view d)) obid (lo_id x) None"
    by auto
  note un = unschedule_order_agenda [OF c(3) assms(2,4)]
  show ?thesis
    using wr(1) v un spec_delete_levels [OF wr(2)] by (simp add: edits_def consistent_def upd2_fun_upd)
qed

lemma update_step:
  assumes "consistent cfg view coh dv E (d, w)" and "v_orders (view d) obid (lo_id x) = Some y"
    and "shrinks_to y x"
    and "dl_update_limit_order_amount dl obid (lo_id x) (lo_amount x) d = (Inr u, d')"
  shows "edits cfg view coh dv E N obid (d, w) (d', w) ((v_orders (view d) obid)(lo_id x \<mapsto> x))"
proof -
  have c: "coh d" "view_inv cfg dv (view d)" "agenda_inv E (v_orders (view d)) w"
    using assms(1) by (auto simp: consistent_def)
  have dv: "is_divisible (lo_amount x) = dv obid"
    using c(2) assms(2,3) by (auto simp: view_inv_def book_inv_def order_wf_def shrinks_to_def)
  note wr = writes_run [OF update_limit_order_amount [OF c(1,2) dv] assms(4)]
  from spec_update_shrink [OF c(2) assms(2,3)] wr(2)
  have v: "view_inv cfg dv (view d')" "v_orders (view d') = upd2 (v_orders (view d)) obid (lo_id x) (Some x)"
    by auto
  have "lo_expires_at x = lo_expires_at y" using assms(3) unfolding shrinks_to_def by (metis limit_order.select_convs(9) limit_order.surjective limit_order.update_convs(6))
  then show ?thesis
    using wr(1) v agenda_inv_shrink [OF c(3) assms(2)] spec_update_levels [OF wr(2)] by (simp add: edits_def consistent_def upd2_fun_upd)
qed

lemma insert_step:
  assumes "consistent cfg view coh dv E (d, w)" and "order_wf (dv obid) x" and "(obid, lo_id x) \<notin> E"
    and "dl_insert_limit_order dl obid x d = (Inr u, d')"
    and "schedule_expiration env (lo_expires_at x) obid (lo_id x) w = (Inr u', w')" and "(obid, lo_id x) \<in> N"
  shows "edits cfg view coh dv E N obid (d, w) (d', w') ((v_orders (view d) obid)(lo_id x \<mapsto> x))"
    and "v_orders (view d) obid (lo_id x) = None"
proof -
  have c: "coh d" "view_inv cfg dv (view d)" "agenda_inv E (v_orders (view d)) w"
    using assms(1) by (auto simp: consistent_def)
  note wr = writes_run [OF insert_limit_order [OF c(1,2) assms(2)] assms(4)]
  note inv' = spec_insert_inv [OF c(2) assms(2) wr(2)]
  show new: "v_orders (view d) obid (lo_id x) = None" using wr(2) by (auto simp: spec_insert_Inr)
  have v: "v_orders (view d') = upd2 (v_orders (view d)) obid (lo_id x) (Some x)"
    using wr(2) by (auto simp: spec_insert_Inr)
  note sc = schedule_agenda [OF c(3) new assms(3,5)]
  show "edits cfg view coh dv E N obid (d, w) (d', w') ((v_orders (view d) obid)(lo_id x \<mapsto> x))"
    using wr(1) inv' v sc spec_insert_levels [OF wr(2) assms(6)] by (simp add: edits_def consistent_def upd2_fun_upd)
qed

lemma apply_cancel_step:
  assumes "consistent cfg view coh dv E s" and "v_orders (view (fst s)) obid (lo_id (fst c)) = Some (fst c)"
    and "apply_cancel dl ignore_error obid c s = (Inr u, s')"
  shows "edits cfg view coh dv E N obid s s' ((v_orders (view (fst s)) obid)(lo_id (fst c) := None))"
proof -
  obtain x reason d w where eq: "c = (x, reason)" "s = (d, w)" by (cases c; cases s)
  from assms(3) obtain d' w1 where
      del: "dl_delete_limit_order dl obid (lo_id x) d = (Inr (), d')"
    and un: "unschedule_order ignore_error obid x w = (Inr (), w1)"
    and s': "s' = (d', w1 \<lparr> Events := Events w1 @ [BookEvent obid (LimitOrderCanceled (lo_id x) (lo_owner x) reason)] \<rparr>)"
    by (auto simp: apply_cancel_def eq run_simps)
  show ?thesis
    using delete_step [OF _ _ del un, of dv E] assms(1,2) by (simp add: eq s')
qed

lemma apply_full_step:
  assumes "consistent cfg view coh dv E s" and "v_orders (view (fst s)) obid (lo_id x) = Some x"
    and "apply_full dl ignore_error obid x s = (Inr u, s')"
  shows "edits cfg view coh dv E N obid s s' ((v_orders (view (fst s)) obid)(lo_id x := None))"
proof -
  obtain d w where eq: "s = (d, w)" by (cases s)
  from assms(3) obtain d' w1 es where
      del: "dl_delete_limit_order dl obid (lo_id x) d = (Inr (), d')"
    and un: "unschedule_order ignore_error obid x w = (Inr (), w1)"
    and s': "s' = (d', w1 \<lparr> Events := es \<rparr>)"
    by (auto simp: apply_full_def eq run_simps)
  show ?thesis
    using delete_step [OF _ _ del un, of dv E] assms(1,2) by (simp add: eq s')
qed

lemma apply_part_step:
  assumes "consistent cfg view coh dv E s" and "v_orders (view (fst s)) obid (lo_id (fst c)) = Some y"
    and "shrinks_to y (fst c)" and "apply_part dl obid c s = (Inr u, s')"
  shows "edits cfg view coh dv E N obid s s' ((v_orders (view (fst s)) obid)(lo_id (fst c) \<mapsto> fst c))"
proof -
  obtain x a d w where eq: "c = (x, a)" "s = (d, w)" by (cases c; cases s)
  from assms(4) obtain d' es where
      upd: "dl_update_limit_order_amount dl obid (lo_id x) (lo_amount x) d = (Inr (), d')"
    and s': "s' = (d', w \<lparr> Events := es \<rparr>)"
    by (auto simp: apply_part_def eq run_simps)
  show ?thesis
    using update_step [OF _ _ _ upd, of dv E w y] assms(1-3) by (simp add: eq s')
qed

lemma apply_update_step:
  assumes "consistent cfg view coh dv E s" and "v_orders (view (fst s)) obid (lo_id x) = Some y"
    and "shrinks_to y x" and "apply_update dl obid x s = (Inr u, s')"
  shows "edits cfg view coh dv E N obid s s' ((v_orders (view (fst s)) obid)(lo_id x \<mapsto> x))"
proof -
  obtain d w where eq: "s = (d, w)" by (cases s)
  from assms(4) obtain d' es where
      upd: "dl_update_limit_order_amount dl obid (lo_id x) (lo_amount x) d = (Inr (), d')"
    and s': "s' = (d', w \<lparr> Events := es \<rparr>)"
    by (auto simp: apply_update_def eq run_simps)
  show ?thesis
    using update_step [OF _ _ _ upd, of dv E w y] assms(1-3) by (simp add: eq s')
qed

lemma apply_place_step:
  assumes "consistent cfg view coh dv E s" and "order_wf (dv obid) x" and "(obid, lo_id x) \<notin> E"
    and "apply_place env dl obid x s = (Inr u, s')" and "(obid, lo_id x) \<in> N"
  shows "edits cfg view coh dv E N obid s s' ((v_orders (view (fst s)) obid)(lo_id x \<mapsto> x))"
proof -
  obtain d w where eq: "s = (d, w)" by (cases s)
  from assms(4) obtain d' w1 es where
      ins: "dl_insert_limit_order dl obid x d = (Inr (), d')"
    and sc: "schedule_expiration env (lo_expires_at x) obid (lo_id x) w = (Inr (), w1)"
    and s': "s' = (d', w1 \<lparr> Events := es \<rparr>)"
    by (auto simp: apply_place_def eq run_simps)
  show ?thesis
    using insert_step(1) [where dv = dv and obid = obid, OF _ assms(2,3) ins sc assms(5)] assms(1) by (simp add: eq s')
qed

text \<open>A loop of edits.\<close>

lemma sfor_edits:
  assumes step: "\<And>x s s'. consistent cfg view coh dv E s \<Longrightarrow> P x (v_orders (view (fst s)) obid) \<Longrightarrow>
      step x s = (Inr (), s') \<Longrightarrow> edits cfg view coh dv E N obid s s' (f x (v_orders (view (fst s)) obid))"
    and "consistent cfg view coh dv E s" and "holds_along P f xs (v_orders (view (fst s)) obid)"
    and "sfor step xs s = (Inr u, s')"
  shows "edits cfg view coh dv E N obid s s' (foldl (\<lambda>m x. f x m) (v_orders (view (fst s)) obid) xs)"
  using assms(2-4)
proof (induction xs arbitrary: s)
  case Nil
  then show ?case by (simp add: run_simps edits_def levels_grow_same)
next
  case (Cons x xs)
  from Cons.prems(3) obtain s1 where one: "step x s = (Inr (), s1)" and rest: "sfor step xs s1 = (Inr u, s')"
    by (auto simp: run_simps)
  have P: "P x (v_orders (view (fst s)) obid)"
    and tl: "holds_along P f xs (f x (v_orders (view (fst s)) obid))" using Cons.prems(2) by auto
  note e = step [OF Cons.prems(1) P one]
  have o1: "v_orders (view (fst s1)) obid = f x (v_orders (view (fst s)) obid)"
    using e by (simp add: edits_def)
  have c1: "consistent cfg view coh dv E s1" using e by (simp add: edits_def)
  from Cons.IH [OF c1 _ rest] tl o1
  have "edits cfg view coh dv E N obid s1 s' (foldl (\<lambda>m x. f x m) (f x (v_orders (view (fst s)) obid)) xs)"
    by simp
  with e show ?case by (auto intro: edits_trans)
qed

lemma cancels_edit:
  assumes "consistent cfg view coh dv E s" and "sfor (apply_cancel dl ignore_error obid) cs s = (Inr u, s')"
    and "distinct (map lo_id (map fst cs))" and "\<forall>x\<in>set (map fst cs). v_orders (view (fst s)) obid (lo_id x) = Some x"
  shows "edits cfg view coh dv E N obid s s' (del_orders (map fst cs) (v_orders (view (fst s)) obid))"
proof -
  have "holds_along (\<lambda>c m. m (lo_id (fst c)) = Some (fst c)) (\<lambda>c m. m(lo_id (fst c) := None)) cs
      (v_orders (view (fst s)) obid)"
    by (rule holds_along_del) (use assms(3,4) in \<open>auto simp: comp_def\<close>)
  then have "edits cfg view coh dv E N obid s s'
      (foldl (\<lambda>m c. m(lo_id (fst c) := None)) (v_orders (view (fst s)) obid) cs)"
    by (rule sfor_edits [OF _ assms(1) _ assms(2), rotated]) (rule apply_cancel_step)
  then show ?thesis by (simp add: foldl_del)
qed

lemma fulls_edit:
  assumes "consistent cfg view coh dv E s" and "sfor (apply_full dl ignore_error obid) xs s = (Inr u, s')"
    and "distinct (map lo_id xs)" and "\<forall>x\<in>set xs. v_orders (view (fst s)) obid (lo_id x) = Some x"
  shows "edits cfg view coh dv E N obid s s' (del_orders xs (v_orders (view (fst s)) obid))"
proof -
  have "holds_along (\<lambda>x m. m (lo_id x) = Some x) (\<lambda>x m. m(lo_id x := None)) xs
      (v_orders (view (fst s)) obid)"
    by (rule holds_along_del [where g = "\<lambda>x. x"]) (use assms(3,4) in auto)
  then have "edits cfg view coh dv E N obid s s'
      (foldl (\<lambda>m x. m(lo_id x := None)) (v_orders (view (fst s)) obid) xs)"
    by (rule sfor_edits [OF _ assms(1) _ assms(2), rotated]) (rule apply_full_step)
  then show ?thesis by (simp add: del_orders_def)
qed

lemma parts_edit:
  assumes "consistent cfg view coh dv E s" and "sfor (apply_part dl obid) cs s = (Inr u, s')"
    and "distinct (map lo_id (map fst cs))"
    and "\<forall>x\<in>set (map fst cs). \<exists>y. v_orders (view (fst s)) obid (lo_id x) = Some y \<and> shrinks_to y x"
  shows "edits cfg view coh dv E N obid s s' (put_orders (map fst cs) (v_orders (view (fst s)) obid))"
proof -
  have "holds_along (\<lambda>c m. \<exists>y. m (lo_id (fst c)) = Some y \<and> shrinks_to y (fst c))
      (\<lambda>c m. m(lo_id (fst c) \<mapsto> fst c)) cs (v_orders (view (fst s)) obid)"
    by (rule holds_along_put) (use assms(3,4) in \<open>auto simp: comp_def\<close>)
  then have "edits cfg view coh dv E N obid s s'
      (foldl (\<lambda>m c. m(lo_id (fst c) \<mapsto> fst c)) (v_orders (view (fst s)) obid) cs)"
    by (rule sfor_edits [OF _ assms(1) _ assms(2), rotated]) (elim exE conjE, rule apply_part_step)
  then show ?thesis by (simp add: foldl_put)
qed

lemma updates_edit:
  assumes "consistent cfg view coh dv E s" and "sfor (apply_update dl obid) xs s = (Inr u, s')"
    and "distinct (map lo_id xs)"
    and "\<forall>x\<in>set xs. \<exists>y. v_orders (view (fst s)) obid (lo_id x) = Some y \<and> shrinks_to y x"
  shows "edits cfg view coh dv E N obid s s' (put_orders xs (v_orders (view (fst s)) obid))"
proof -
  have "holds_along (\<lambda>x m. \<exists>y. m (lo_id x) = Some y \<and> shrinks_to y x) (\<lambda>x m. m(lo_id x \<mapsto> x)) xs
      (v_orders (view (fst s)) obid)"
    by (rule holds_along_put [where g = "\<lambda>x. x"]) (use assms(3,4) in auto)
  then have "edits cfg view coh dv E N obid s s'
      (foldl (\<lambda>m x. m(lo_id x \<mapsto> x)) (v_orders (view (fst s)) obid) xs)"
    by (rule sfor_edits [OF _ assms(1) _ assms(2), rotated]) (elim exE conjE, rule apply_update_step)
  then show ?thesis by (simp add: put_orders_def)
qed

lemma places_edit:
  assumes "consistent cfg view coh dv E s" and "sfor (apply_place env dl obid) xs s = (Inr u, s')"
    and "\<forall>x\<in>set xs. order_wf (dv obid) x \<and> (obid, lo_id x) \<notin> E \<and> (obid, lo_id x) \<in> N"
  shows "edits cfg view coh dv E N obid s s' (put_orders xs (v_orders (view (fst s)) obid))"
proof -
  have "holds_along (\<lambda>x m. order_wf (dv obid) x \<and> (obid, lo_id x) \<notin> E \<and> (obid, lo_id x) \<in> N) (\<lambda>x m. m(lo_id x \<mapsto> x)) xs
      (v_orders (view (fst s)) obid)"
    using assms(3) by (simp add: holds_along_const)
  then have "edits cfg view coh dv E N obid s s'
      (foldl (\<lambda>m x. m(lo_id x \<mapsto> x)) (v_orders (view (fst s)) obid) xs)"
    by (rule sfor_edits [OF _ assms(1) _ assms(2), rotated]) (elim conjE, rule apply_place_step)
  then show ?thesis by (simp add: put_orders_def)
qed

lemma dels_edit:
  assumes cons: "consistent cfg view coh dv E s"
    and r1: "sfor (apply_cancel dl ignore_error obid) cs s = (Inr (), s1)"
    and r2: "sfor (apply_full dl ignore_error obid) xs s1 = (Inr (), s2)"
    and dist: "distinct (map lo_id (map fst cs @ xs))"
    and st: "\<forall>x\<in>set (map fst cs @ xs). v_orders (view (fst s)) obid (lo_id x) = Some x"
  shows "edits cfg view coh dv E N obid s s2 (del_orders xs (del_orders (map fst cs) (v_orders (view (fst s)) obid)))"
proof -
  have e1: "edits cfg view coh dv E N obid s s1 (del_orders (map fst cs) (v_orders (view (fst s)) obid))"
    using dist st by (intro cancels_edit [OF cons r1]) auto
  then have c1: "consistent cfg view coh dv E s1"
    and o1: "v_orders (view (fst s1)) obid = del_orders (map fst cs) (v_orders (view (fst s)) obid)"
    by (auto simp: edits_def)
  have "lo_id x \<notin> lo_id ` set (map fst cs)" if "x \<in> set xs" for x
    using dist that unfolding map_append distinct_append by (metis disjoint_iff imageI list.set_map)
  then have "\<forall>x\<in>set xs. v_orders (view (fst s1)) obid (lo_id x) = Some x"
    using st by (auto simp: o1 del_orders_get)
  then have "edits cfg view coh dv E N obid s1 s2 (del_orders xs (v_orders (view (fst s1)) obid))"
    using dist by (intro fulls_edit [OF c1 r2]) auto
  with e1 show ?thesis unfolding o1 by (rule edits_trans)
qed

lemma puts_edit:
  assumes cons: "consistent cfg view coh dv E s"
    and r1: "sfor (apply_part dl obid) cs s = (Inr (), s1)"
    and r2: "sfor (apply_update dl obid) xs s1 = (Inr (), s2)"
    and dist: "distinct (map lo_id (map fst cs @ xs))"
    and sh: "\<forall>x\<in>set (map fst cs @ xs). \<exists>y. v_orders (view (fst s)) obid (lo_id x) = Some y \<and> shrinks_to y x"
  shows "edits cfg view coh dv E N obid s s2 (put_orders xs (put_orders (map fst cs) (v_orders (view (fst s)) obid)))"
proof -
  have e1: "edits cfg view coh dv E N obid s s1 (put_orders (map fst cs) (v_orders (view (fst s)) obid))"
    using dist sh by (intro parts_edit [OF cons r1]) auto
  then have c1: "consistent cfg view coh dv E s1"
    and o1: "v_orders (view (fst s1)) obid = put_orders (map fst cs) (v_orders (view (fst s)) obid)"
    by (auto simp: edits_def)
  have "lo_id x \<notin> lo_id ` set (map fst cs)" if "x \<in> set xs" for x
    using dist that unfolding map_append distinct_append by (metis disjoint_iff imageI list.set_map)
  then have "v_orders (view (fst s1)) obid (lo_id x) = v_orders (view (fst s)) obid (lo_id x)"
    if "x \<in> set xs" for x
    using that unfolding o1 by (intro put_orders_other) blast
  then have "\<forall>x\<in>set xs. \<exists>y. v_orders (view (fst s1)) obid (lo_id x) = Some y \<and> shrinks_to y x"
    using sh by simp
  then have "edits cfg view coh dv E N obid s1 s2 (put_orders xs (v_orders (view (fst s1)) obid))"
    using dist by (intro updates_edit [OF c1 r2]) auto
  with e1 show ?thesis unfolding o1 by (rule edits_trans)
qed

lemma apply_market_change_effect:
  assumes cons: "consistent cfg view coh dv E (d, w)"
    and run: "apply_market_change env dl book mc (d, w) = (Inr u, s')"
    and ok: "change_ok (dv (book_id book)) (v_orders (view d) (book_id book)) mc"
    and fresh: "\<forall>x\<in>set (placed mc). (book_id book, lo_id x) \<notin> E"
  shows "\<exists>w1. execute_all (lock_liquidity env) (unlock_liquidity_batch env) (mc_payment mc) w = (Inr (), w1) \<and>
    edits cfg view coh dv E (Pair (book_id book) ` lo_id ` set (placed mc)) (book_id book) (d, w1) s' (orders_after mc (v_orders (view d) (book_id book)))"
proof -
  let ?obid = "book_id book" and ?ig = "ignore_unschedule_error mc"
  let ?m = "v_orders (view d) ?obid" and ?N = "Pair (book_id book) ` lo_id ` set (placed mc)"
  from run obtain w1 s1 s2 s3 s4 where
      pay: "execute_all (lock_liquidity env) (unlock_liquidity_batch env) (mc_payment mc) w = (Inr (), w1)"
    and r1: "sfor (apply_cancel dl ?ig ?obid) (map snd (to_cancel mc)) (d, w1) = (Inr (), s1)"
    and r2: "sfor (apply_full dl ?ig ?obid) (filled_full mc) s1 = (Inr (), s2)"
    and r3: "sfor (apply_part dl ?obid) (map snd (to_part_execute mc)) s2 = (Inr (), s3)"
    and r4: "sfor (apply_update dl ?obid) (updated mc) s3 = (Inr (), s4)"
    and r5: "sfor (apply_place env dl ?obid) (placed mc) s4 = (Inr u, s')"
    by (auto simp: apply_market_change_def sbind_Inr on_snd_Inr filled_full_def updated_def placed_def)
  have maps: "map fst (map snd (to_cancel mc)) = cancelled mc"
    "map fst (map snd (to_part_execute mc)) = filled_part mc"
    by (simp_all add: cancelled_def filled_part_def)
  have dist: "distinct (map lo_id (cancelled mc @ filled_full mc))" "distinct (map lo_id (filled_part mc @ updated mc))"
    and apart: "lo_id ` set (cancelled mc @ filled_full mc) \<inter> lo_id ` set (filled_part mc @ updated mc) = {}"
    using ok unfolding change_ok_def by auto
  have c0: "consistent cfg view coh dv E (d, w1)"
    using consistent_payment [OF cons execute_all_agenda [OF pay]] .
  have e2: "edits cfg view coh dv E ?N ?obid (d, w1) s2 (del_orders (filled_full mc) (del_orders (cancelled mc) ?m))"
    using dels_edit [OF c0 r1 r2, unfolded maps] dist(1) ok by (simp add: change_ok_def)
  then have c2: "consistent cfg view coh dv E s2"
    and o2: "v_orders (view (fst s2)) ?obid = del_orders (filled_full mc) (del_orders (cancelled mc) ?m)"
    by (auto simp: edits_def)
  have "v_orders (view (fst s2)) ?obid (lo_id x) = ?m (lo_id x)"
    if "x \<in> set (filled_part mc @ updated mc)" for x
    using apart that unfolding o2 del_orders_get by fastforce
  then have e4: "edits cfg view coh dv E ?N ?obid s2 s4
      (put_orders (updated mc) (put_orders (filled_part mc) (v_orders (view (fst s2)) ?obid)))"
    using puts_edit [OF c2 r3 r4, unfolded maps] dist(2) ok by (simp add: change_ok_def)
  then have c4: "consistent cfg view coh dv E s4" by (simp add: edits_def)
  have "edits cfg view coh dv E ?N ?obid s4 s' (put_orders (placed mc) (v_orders (view (fst s4)) ?obid))"
    using fresh ok by (intro places_edit [OF c4 r5]) (simp add: change_ok_def)
  moreover have "put_orders (placed mc) (v_orders (view (fst s4)) ?obid) = orders_after mc ?m"
    using e4 by (simp add: edits_def o2 orders_after_def)
  ultimately show ?thesis
    using pay edits_trans [OF edits_trans [OF e2 e4]] by auto
qed

end

end
