(* ===== verification/Solvency.thy ===== *)
theory Solvency
  imports Fills Price_Time Apply_Change
begin

text \<open>
  Solvency of the technical account: it holds at least what the open orders of its book have locked.
  A sell order locks its amount of the base asset, a buy order the price of its amount in the quote
  asset, rounded down. Every operation of the engine keeps this inequality, asset by asset.
\<close>

section \<open>What the open orders have locked\<close>

definition lock_units :: "order_book_id \<Rightarrow> bool \<Rightarrow> asset_id \<Rightarrow> limit_order \<Rightarrow> nat" where
  "lock_units obid d a x =
     (case lo_side x of
        Sell \<Rightarrow> if a = ob_base obid then inner (lo_amount x) else 0
      | Buy \<Rightarrow> if a = ob_quote obid then quote_units (lo_price x) d (inner (lo_amount x)) else 0)"

definition locked ::
  "order_book_id \<Rightarrow> bool \<Rightarrow> (order_id \<Rightarrow> limit_order option) \<Rightarrow> asset_id \<Rightarrow> nat" where
  "locked obid d m a = (\<Sum>i\<in>dom m. lock_units obid d a (the (m i)))"

abbreviation lock_sum :: "order_book_id \<Rightarrow> bool \<Rightarrow> asset_id \<Rightarrow> limit_order list \<Rightarrow> nat" where
  "lock_sum obid d a xs \<equiv> sum_list (map (lock_units obid d a) xs)"

lemma locked_del:
  assumes "finite (dom m)" and "m i = Some x"
  shows "locked obid d (m(i := None)) a + lock_units obid d a x = locked obid d m a"
proof -
  have "locked obid d m a = lock_units obid d a (the (m i)) + (\<Sum>j\<in>dom m - {i}. lock_units obid d a (the (m j)))"
    unfolding locked_def using assms by (intro sum.remove) auto
  moreover have "locked obid d (m(i := None)) a = (\<Sum>j\<in>dom m - {i}. lock_units obid d a (the (m j)))"
    unfolding locked_def by (intro sum.cong) auto
  ultimately show ?thesis using assms by simp
qed

lemma locked_new:
  assumes "finite (dom m)" and "m i = None"
  shows "locked obid d (m(i \<mapsto> x)) a = locked obid d m a + lock_units obid d a x"
proof -
  have "(m(i \<mapsto> x))(i := None) = m" using assms(2) by auto
  then show ?thesis using locked_del [of "m(i \<mapsto> x)" i x obid d a] assms(1) by simp
qed

lemma locked_put:
  assumes "finite (dom m)" and "m i = Some y"
  shows "locked obid d (m(i \<mapsto> x)) a + lock_units obid d a y = locked obid d m a + lock_units obid d a x"
proof -
  have "locked obid d (m(i \<mapsto> x)) a = locked obid d (m(i := None)) a + lock_units obid d a x"
    using locked_new [of "m(i := None)" i obid d x a] assms(1) by simp
  then show ?thesis using locked_del [OF assms, of obid d a] by simp
qed

lemma locked_dels:
  assumes "finite (dom m)" and "distinct (map lo_id xs)" and "\<forall>x\<in>set xs. m (lo_id x) = Some x"
  shows "locked obid d (del_orders xs m) a + lock_sum obid d a xs = locked obid d m a"
  using assms
proof (induction xs arbitrary: m)
  case (Cons x xs)
  have "\<forall>y\<in>set xs. (m(lo_id x := None)) (lo_id y) = Some y"
    using Cons.prems(2,3) by (auto simp: image_iff)
  moreover have "finite (dom (m(lo_id x := None)))" and "distinct (map lo_id xs)"
    using Cons.prems(1,2) by (simp_all only: dom_fun_upd) auto
  ultimately have "locked obid d (del_orders xs (m(lo_id x := None))) a + lock_sum obid d a xs =
      locked obid d (m(lo_id x := None)) a"
    by (intro Cons.IH)
  then show ?case
    using locked_del [of m "lo_id x" x obid d a] Cons.prems by (simp add: del_orders_def)
qed (simp add: del_orders_def)

lemma locked_puts:
  assumes "finite (dom m)" and "distinct (map lo_id xs)" and "\<forall>x\<in>set xs. m (lo_id x) \<noteq> None"
  shows "locked obid d (put_orders xs m) a + lock_sum obid d a (map (\<lambda>x. the (m (lo_id x))) xs) =
    locked obid d m a + lock_sum obid d a xs"
  using assms
proof (induction xs arbitrary: m)
  case (Cons x xs)
  let ?m = "m(lo_id x \<mapsto> x)"
  obtain y where y: "m (lo_id x) = Some y" using Cons.prems(3) by auto
  have same: "?m (lo_id z) = m (lo_id z)" if "z \<in> set xs" for z
    using Cons.prems(2) that by (auto simp: image_iff)
  have eqs: "map (\<lambda>x. the (?m (lo_id x))) xs = map (\<lambda>x. the (m (lo_id x))) xs"
    using same by (intro map_cong) auto
  have "locked obid d (put_orders xs ?m) a + lock_sum obid d a (map (\<lambda>x. the (?m (lo_id x))) xs) =
      locked obid d ?m a + lock_sum obid d a xs"
  proof (rule Cons.IH)
    show "finite (dom ?m)" using Cons.prems(1) by (simp only: dom_fun_upd) auto
    show "\<forall>z\<in>set xs. ?m (lo_id z) \<noteq> None" using Cons.prems(3) same by fastforce
  qed (use Cons.prems(2) in simp)
  then show ?case
    unfolding eqs using locked_put [OF Cons.prems(1) y, of obid d x a] y by (simp add: put_orders_def)
qed (simp add: put_orders_def)

lemma locked_news:
  assumes "finite (dom m)" and "distinct (map lo_id xs)" and "\<forall>x\<in>set xs. m (lo_id x) = None"
  shows "locked obid d (put_orders xs m) a = locked obid d m a + lock_sum obid d a xs"
  using assms
proof (induction xs arbitrary: m)
  case (Cons x xs)
  have "\<forall>z\<in>set xs. (m(lo_id x \<mapsto> x)) (lo_id z) = None"
    using Cons.prems by (auto simp: image_iff)
  moreover have "finite (dom (m(lo_id x \<mapsto> x)))" and "distinct (map lo_id xs)"
    using Cons.prems(1,2) by (simp_all only: dom_fun_upd) auto
  ultimately have "locked obid d (put_orders xs (m(lo_id x \<mapsto> x))) a =
      locked obid d (m(lo_id x \<mapsto> x)) a + lock_sum obid d a xs"
    by (intro Cons.IH)
  then show ?case
    using locked_new [of m "lo_id x" obid d x a] Cons.prems by (simp add: put_orders_def)
qed (simp add: put_orders_def)

lemma finite_del_put:
  "finite (dom m) \<Longrightarrow> finite (dom (del_orders xs m))" "finite (dom m) \<Longrightarrow> finite (dom (put_orders xs m))"
proof -
  show "finite (dom m) \<Longrightarrow> finite (dom (del_orders xs m))"
    by (rule finite_subset [of _ "dom m"]) (auto simp: del_orders_get dom_def split: if_splits)
  have "dom (put_orders xs m) \<subseteq> dom m \<union> lo_id ` set xs"
    using put_orders_other [of _ xs m] by (force simp: dom_def)
  then show "finite (dom m) \<Longrightarrow> finite (dom (put_orders xs m))"
    by (rule finite_subset) simp
qed

text \<open>How a change moves the locked amounts.\<close>

lemma locked_after:
  assumes fin: "finite (dom m)" and ok: "change_ok d m mc"
    and new: "distinct (map lo_id (placed mc))" "\<forall>x\<in>set (placed mc). m (lo_id x) = None"
  shows "locked obid d (orders_after mc m) a + lock_sum obid d a (cancelled mc @ filled_full mc)
      + lock_sum obid d a (map (\<lambda>x. the (m (lo_id x))) (filled_part mc @ updated mc)) =
    locked obid d m a + lock_sum obid d a (filled_part mc @ updated mc) + lock_sum obid d a (placed mc)"
proof -
  let ?dels = "cancelled mc @ filled_full mc" and ?puts = "filled_part mc @ updated mc"
  let ?m1 = "del_orders ?dels m" let ?m2 = "put_orders ?puts ?m1"
  have dist: "distinct (map lo_id ?dels)" "distinct (map lo_id ?puts)"
    and apart: "lo_id ` set ?dels \<inter> lo_id ` set ?puts = {}"
    and st: "\<forall>x\<in>set ?dels. m (lo_id x) = Some x"
    and sh: "\<forall>x\<in>set ?puts. \<exists>y. m (lo_id x) = Some y \<and> shrinks_to y x"
    using ok unfolding change_ok_def by auto
  have same: "?m1 (lo_id x) = m (lo_id x)" if "x \<in> set ?puts" for x
    using apart that unfolding del_orders_get by fastforce
  have after: "orders_after mc m = put_orders (placed mc) ?m2"
    by (simp add: orders_after_def del_orders_def put_orders_def)
  have "\<forall>x\<in>set ?puts. ?m1 (lo_id x) \<noteq> None" using same sh by fastforce
  note p = locked_puts [OF finite_del_put(1) [OF fin] dist(2) this, of obid d a]
  have eqs: "map (\<lambda>x. the (?m1 (lo_id x))) ?puts = map (\<lambda>x. the (m (lo_id x))) ?puts"
    using same by (intro map_cong) auto
  have "\<forall>x\<in>set (placed mc). ?m2 (lo_id x) = None"
  proof
    fix x
    assume x: "x \<in> set (placed mc)"
    then have none: "m (lo_id x) = None" using new(2) by blast
    then have "lo_id x \<notin> lo_id ` set ?puts" using sh by fastforce
    then show "?m2 (lo_id x) = None" using none by (simp add: put_orders_other del_orders_get)
  qed
  note n = locked_news [OF finite_del_put(2) [OF finite_del_put(1) [OF fin]] new(1) this, of obid d a]
  note de = locked_dels [OF fin dist(1) st, of obid d a]
  show ?thesis using p n de unfolding eqs after by simp
qed

section \<open>Solvency and funded changes\<close>

definition solvent ::
  "chain \<Rightarrow> order_book_id \<Rightarrow> bool \<Rightarrow> account_id \<Rightarrow> (order_id \<Rightarrow> limit_order option) \<Rightarrow> world \<Rightarrow> bool" where
  "solvent env obid d t m w \<longleftrightarrow> (\<forall>a. locked obid d m a \<le> balance_of env w a t)"

text \<open>A change pays out at most what it frees and what it locks.\<close>

definition change_funded ::
  "order_book_id \<Rightarrow> bool \<Rightarrow> (order_id \<Rightarrow> limit_order option) \<Rightarrow> market_change \<Rightarrow> bool" where
  "change_funded obid d m mc \<longleftrightarrow>
     (\<forall>a. locked obid d (orders_after mc m) a + pay_total (to_unlock (mc_payment mc)) a \<le>
          locked obid d m a + pay_total (to_lock (mc_payment mc)) a)"

definition change_accounts :: "market_change \<Rightarrow> account_id set" where
  "change_accounts mc = pay_accounts (to_lock (mc_payment mc)) \<union> pay_accounts (to_unlock (mc_payment mc))"

context DataLayer
begin

lemma apply_change_solvent:
  assumes cons: "consistent cfg view coh dv E (d, w)"
    and run: "apply_market_change env dl book mc (d, w) = (Inr u, (d', w'))"
    and ok: "change_ok (dv (book_id book)) (v_orders (view d) (book_id book)) mc"
    and fresh: "\<forall>x\<in>set (placed mc). (book_id book, lo_id x) \<notin> E"
    and funded: "change_funded (book_id book) (dv (book_id book)) (v_orders (view d) (book_id book)) mc"
    and env: "native_exact env" "book_account env (pay_order_book_id (mc_payment mc)) t"
      "t \<notin> change_accounts mc"
    and solv: "solvent env (book_id book) (dv (book_id book)) t (v_orders (view d) (book_id book)) w"
  shows "consistent cfg view coh dv E (d', w')"
    and "v_orders (view d') = (v_orders (view d))
      (book_id book := orders_after mc (v_orders (view d) (book_id book)))"
    and "solvent env (book_id book) (dv (book_id book)) t (v_orders (view d') (book_id book)) w'"
    and "y \<noteq> t \<Longrightarrow> balance_of env w' a y + pay_to (to_lock (mc_payment mc)) a y =
           balance_of env w a y + pay_to (to_unlock (mc_payment mc)) a y"
    and "levels_grow (Pair (book_id book) ` lo_id ` set (placed mc)) (view d) (view d')"
proof -
  from apply_market_change_effect [OF cons run ok fresh] obtain w1 where
      pay: "execute_all (lock_liquidity env) (unlock_liquidity_batch env) (mc_payment mc) w = (Inr (), w1)"
    and ed: "edits cfg view coh dv E (Pair (book_id book) ` lo_id ` set (placed mc)) (book_id book) (d, w1) (d', w')
      (orders_after mc (v_orders (view d) (book_id book)))"
    by blast
  show "consistent cfg view coh dv E (d', w')"
    and orders: "v_orders (view d') = (v_orders (view d))
      (book_id book := orders_after mc (v_orders (view d) (book_id book)))"
    and "levels_grow (Pair (book_id book) ` lo_id ` set (placed mc)) (view d) (view d')"
    using ed by (simp_all add: edits_def)
  have bal: "balance_of env w' = balance_of env w1"
    using ed same_ledger_balance by (simp add: edits_def)
  have out: "t \<notin> pay_accounts (to_lock (mc_payment mc))" "t \<notin> pay_accounts (to_unlock (mc_payment mc))"
    using env(3) by (auto simp: change_accounts_def)
  note eff = execute_all_effect [OF env(1,2) pay out]
  show "solvent env (book_id book) (dv (book_id book)) t (v_orders (view d') (book_id book)) w'"
    unfolding solvent_def
  proof
    fix a
    have "locked (book_id book) (dv (book_id book)) (v_orders (view d) (book_id book)) a \<le> balance_of env w a t"
      using solv by (simp add: solvent_def)
    moreover have "locked (book_id book) (dv (book_id book)) (v_orders (view d') (book_id book)) a +
        pay_total (to_unlock (mc_payment mc)) a \<le>
        locked (book_id book) (dv (book_id book)) (v_orders (view d) (book_id book)) a +
        pay_total (to_lock (mc_payment mc)) a"
      using funded by (simp add: change_funded_def orders)
    ultimately show "locked (book_id book) (dv (book_id book)) (v_orders (view d') (book_id book)) a \<le>
        balance_of env w' a t"
      using eff(1) [of a] by (simp add: bal)
  qed
  show "y \<noteq> t \<Longrightarrow> balance_of env w' a y + pay_to (to_lock (mc_payment mc)) a y =
      balance_of env w a y + pay_to (to_unlock (mc_payment mc)) a y"
    using eff(2) by (simp add: bal)
qed

end

end
