(* ===== verification/Changes.thy ===== *)
theory Changes
  imports Solvency "HOL-Library.Multiset"
begin

text \<open>
  Every change the engine calculates agrees with the book (\<open>change_ok\<close>) and is funded
  (\<open>change_funded\<close>): placing, cancelling one or all orders, executing a market order, crossing the
  spread, aligning.
\<close>

definition asset_div :: "order_book_id \<Rightarrow> bool \<Rightarrow> asset_id \<Rightarrow> bool" where
  "asset_div obid d a \<longleftrightarrow> a = ob_quote obid \<or> d"

section \<open>One order\<close>

lemma deal_amount_lock:
  assumes "deal_amount x Taker None = Inr r" and "order_wf d x" and "ob_base obid \<noteq> ob_quote obid"
  shows "(if a = associated_asset r obid then inner (amount_value r) else 0) = lock_units obid d a x"
    and "is_divisible (amount_value r) = asset_div obid d (associated_asset r obid)"
    and "inner (amount_value r) \<le> u128_max"
proof -
  note r = deal_amount_Inr [OF assms(1) refl, simplified]
  have wf: "is_divisible (lo_price x)" "is_divisible (lo_amount x) = d" "inner (lo_amount x) \<le> u128_max"
    using assms(2) by (auto simp: order_wf_def)
  have "(if a = associated_asset r obid then inner (amount_value r) else 0) = lock_units obid d a x
    \<and> is_divisible (amount_value r) = asset_div obid d (associated_asset r obid) \<and> inner (amount_value r) \<le> u128_max"
  proof (cases "lo_side x")
    case Sell
    then show ?thesis using r wf assms(3) by (auto simp: lock_units_def asset_div_def)
  next
    case Buy
    then obtain z where z: "bu_checked_mul (lo_price x) (lo_amount x) = Some z" and "r = Quote z"
      using r by auto
    then show ?thesis
      using Buy checked_mul_price [OF z wf(1)] wf(2) by (auto simp: lock_units_def asset_div_def)
  qed
  then show "(if a = associated_asset r obid then inner (amount_value r) else 0) = lock_units obid d a x"
    and "is_divisible (amount_value r) = asset_div obid d (associated_asset r obid)"
    and "inner (amount_value r) \<le> u128_max" by auto
qed

lemmas change_lists = cancelled_def filled_full_def filled_part_def updated_def placed_def

lemma limit_order_impact:
  assumes "calculate_limit_order_impact book x = Inr mc" and "order_wf d x"
    and "ob_base (book_id book) \<noteq> ob_quote (book_id book)"
  obtains r where "deal_amount x Taker None = Inr r"
    and "mc = (market_change_new (book_id book))
          \<lparr> market_input := Some r, to_place := [(lo_id x, x)],
            mc_payment := \<lparr> pay_order_book_id = book_id book,
              to_lock = [(associated_asset r (book_id book), [(lo_owner x, amount_value r)])], to_unlock = [] \<rparr> \<rparr>"
  using assms(1)
  by (auto simp: calculate_limit_order_impact_def run_simps Let_def payment_new_def pay_entry_fresh)

lemma limit_order_change:
  assumes "calculate_limit_order_impact book x = Inr mc" and "order_wf d x"
    and "ob_base (book_id book) \<noteq> ob_quote (book_id book)" and "finite (dom m)" and "m (lo_id x) = None"
  shows "change_ok d m mc" and "change_funded (book_id book) d m mc"
    and "change_accounts mc = {lo_owner x}" and "placed mc = [x]"
    and "pay_order_book_id (mc_payment mc) = book_id book"
    and "orders_after mc m = m(lo_id x \<mapsto> x)"
    and "pay_to (to_unlock (mc_payment mc)) a y = 0"
    and "pay_to (to_lock (mc_payment mc)) a y = (if y = lo_owner x then lock_units (book_id book) d a x else 0)"
proof -
  obtain r where r: "deal_amount x Taker None = Inr r"
    and mc: "mc = (market_change_new (book_id book))
          \<lparr> market_input := Some r, to_place := [(lo_id x, x)],
            mc_payment := \<lparr> pay_order_book_id = book_id book,
              to_lock = [(associated_asset r (book_id book), [(lo_owner x, amount_value r)])], to_unlock = [] \<rparr> \<rparr>"
    by (rule limit_order_impact [OF assms(1-3)])
  show "change_ok d m mc" and accounts: "change_accounts mc = {lo_owner x}" and "placed mc = [x]"
    and "pay_order_book_id (mc_payment mc) = book_id book"
    and after: "orders_after mc m = m(lo_id x \<mapsto> x)"
    and "pay_to (to_unlock (mc_payment mc)) a y = 0"
    using assms(2)
    by (simp_all add: mc market_change_new_def change_ok_def change_lists change_accounts_def
        orders_after_def del_orders_def put_orders_def)
  show "pay_to (to_lock (mc_payment mc)) a y = (if y = lo_owner x then lock_units (book_id book) d a x else 0)"
    using deal_amount_lock(1) [OF r assms(2,3), of a] by (auto simp: mc split: if_splits)
  show "change_funded (book_id book) d m mc"
    unfolding change_funded_def after
    using deal_amount_lock(1) [OF r assms(2,3)] locked_new [OF assms(4,5)]
    by (simp add: mc market_change_new_def)
qed

lemma cancellation_change:
  assumes "calculate_cancellation_limit_order_impact book x reason ignore_error = Inr mc" and "order_wf d x"
    and "ob_base (book_id book) \<noteq> ob_quote (book_id book)" and "finite (dom m)" and "m (lo_id x) = Some x"
  shows "change_ok d m mc" and "change_funded (book_id book) d m mc"
    and "change_accounts mc = {lo_owner x}" and "placed mc = []"
    and "pay_order_book_id (mc_payment mc) = book_id book"
    and "orders_after mc m = m(lo_id x := None)"
    and "pay_to (to_lock (mc_payment mc)) a y = 0"
    and "pay_to (to_unlock (mc_payment mc)) a y = (if y = lo_owner x then lock_units (book_id book) d a x else 0)"
proof -
  obtain r where r: "deal_amount x Taker None = Inr r"
    and mc: "mc = (market_change_new (book_id book))
          \<lparr> market_output := Some r, to_cancel := [(lo_id x, (x, reason))],
            mc_payment := \<lparr> pay_order_book_id = book_id book, to_lock = [],
              to_unlock = [(associated_asset r (book_id book), [(lo_owner x, amount_value r)])] \<rparr>,
            ignore_unschedule_error := ignore_error \<rparr>"
    using assms(1)
    by (auto simp: calculate_cancellation_limit_order_impact_def run_simps Let_def payment_new_def
        pay_entry_fresh)
  note lock = deal_amount_lock(1) [OF r assms(2,3)]
  show "change_ok d m mc" and "change_accounts mc = {lo_owner x}" and "placed mc = []"
    and "pay_order_book_id (mc_payment mc) = book_id book"
    and after: "orders_after mc m = m(lo_id x := None)"
    and "pay_to (to_lock (mc_payment mc)) a y = 0"
    using assms(5)
    by (simp_all add: mc market_change_new_def change_ok_def change_lists change_accounts_def
        orders_after_def del_orders_def put_orders_def)
  show "pay_to (to_unlock (mc_payment mc)) a y = (if y = lo_owner x then lock_units (book_id book) d a x else 0)"
    using lock [of a] by (auto simp: mc split: if_splits)
  show "change_funded (book_id book) d m mc"
    unfolding change_funded_def after
  proof
    fix a
    show "locked (book_id book) d (m(lo_id x := None)) a + pay_total (to_unlock (mc_payment mc)) a \<le>
        locked (book_id book) d m a + pay_total (to_lock (mc_payment mc)) a"
      using lock [of a] locked_del [OF assms(4,5), of "book_id book" d a] by (simp add: mc)
  qed
qed

section \<open>Insertions in any order\<close>

lemma mset_bt_insert:
  fixes k :: "'k::linorder"
  shows "k \<notin> fst ` set m \<Longrightarrow> mset (bt_insert k v m) = add_mset (k, v) (mset m)"
  by (induction m) auto

lemma mset_fold_insert:
  fixes key :: "'x \<Rightarrow> 'k::linorder"
  assumes "distinct (map key xs)" and "key ` set xs \<inter> fst ` set m = {}"
  shows "mset (foldl (\<lambda>m x. bt_insert (key x) (val x) m) m xs) = mset m + mset (map (\<lambda>x. (key x, val x)) xs)"
  using assms
proof (induction xs arbitrary: m)
  case (Cons x xs)
  have "key x \<notin> fst ` set m" using Cons.prems(2) by auto
  moreover have "key ` set xs \<inter> fst ` set (bt_insert (key x) (val x) m) = {}"
    using Cons.prems by (auto simp: set_bt_insert_keys)
  ultimately show ?case using Cons by (simp add: mset_bt_insert)
qed simp

lemma sum_list_mset: "mset xs = mset ys \<Longrightarrow> sum_list (map f xs) = sum_list (map f ys)"
  for f :: "'a \<Rightarrow> nat"
  by (metis mset_map sum_mset_sum_list)

section \<open>Market orders\<close>

definition reduced :: "bool \<Rightarrow> limit_order \<times> nat \<Rightarrow> limit_order" where
  "reduced d f = (fst f) \<lparr> lo_amount := BalanceUnit (inner (lo_amount (fst f)) - snd f) d \<rparr>"

lemma quote_units_add: "quote_units p d n + quote_units p d k \<le> quote_units p d (n + k)"
  by (auto simp: quote_units_def add_mult_distrib2 div_superadd)

text \<open>A fill pays its taker at most what it frees of the maker's lock.\<close>

lemma fill_release:
  assumes "lo_side x = switched direction" and "n \<le> inner (lo_amount x)"
    and "ob_base obid \<noteq> ob_quote obid"
  shows "(if a = taker_out_asset obid direction then taker_units direction d x n else 0) +
      lock_units obid d a (reduced d (x, n)) \<le> lock_units obid d a x"
proof (cases direction)
  case Buy
  then show ?thesis
    using assms by (auto simp: lock_units_def reduced_def taker_units_def taker_out_asset_def)
next
  case Sell
  have "quote_units (lo_price x) d n + quote_units (lo_price x) d (inner (lo_amount x) - n) \<le>
      quote_units (lo_price x) d (inner (lo_amount x))"
    using quote_units_add [of "lo_price x" d n "inner (lo_amount x) - n"] assms(2) by simp
  then show ?thesis
    using assms Sell by (auto simp: lock_units_def reduced_def taker_units_def taker_out_asset_def)
qed

lemma fills_release:
  assumes "\<forall>f\<in>set fs. lo_side (fst f) = switched direction \<and> snd f \<le> inner (lo_amount (fst f))"
    and "ob_base obid \<noteq> ob_quote obid"
  shows "(if a = taker_out_asset obid direction then taker_sum direction d fs else 0) +
      lock_sum obid d a (map (reduced d) (filter (\<lambda>f. \<not> is_full f) fs)) \<le> lock_sum obid d a (map fst fs)"
  using assms(1)
proof (induction fs)
  case (Cons f fs)
  obtain x n where f: "f = (x, n)" by (cases f)
  have one: "(if a = taker_out_asset obid direction then taker_units direction d x n else 0) +
      lock_units obid d a (reduced d (x, n)) \<le> lock_units obid d a x"
    using Cons.prems assms(2) by (intro fill_release) (auto simp: f)
  have rest: "(if a = taker_out_asset obid direction then taker_sum direction d fs else 0) +
      lock_sum obid d a (map (reduced d) (filter (\<lambda>f. \<not> is_full f) fs)) \<le> lock_sum obid d a (map fst fs)"
    using Cons by simp
  show ?case using one rest by (cases "is_full (x, n)") (auto simp: f split: if_splits)
qed simp

text \<open>The fills of a market order, along the best queue of the book.\<close>

definition market_fills :: "order_book_id \<Rightarrow> book_view \<Rightarrow> market_order \<Rightarrow> (limit_order \<times> nat) list" where
  "market_fills obid v mo = fills (inner (mo_amount mo)) (best_queue v obid (mo_direction mo))"

definition market_end :: "order_book_id \<Rightarrow> bool \<Rightarrow> book_view \<Rightarrow> market_order \<Rightarrow> impact" where
  "market_end obid d v mo =
     apply_fills (maker_out_asset obid (mo_direction mo)) (mo_direction mo) d (market_fills obid v mo)
       (impact_start (mo_amount mo))"

lemma market_impact_end:
  assumes run: "spec_market_impact obid v mo = Inr mc" and inv: "book_inv cfg d obid v"
    and amount: "is_divisible (mo_amount mo) = d" "0 < inner (mo_amount mo)"
  shows "mc = impact_result obid (mo_direction mo) (mo_owner mo) (unwrap_or (mo_to mo) (mo_owner mo))
      (market_end obid d v mo)"
    and "taken (market_fills obid v mo) = inner (mo_amount mo)"
    and "taker_sum (mo_direction mo) d (market_fills obid v mo) \<le> u128_max"
    and "maker_sum (mo_direction mo) d (market_fills obid v mo) \<le> u128_max"
proof -
  let ?s = "impact_start (mo_amount mo)"
  from run obtain s' where
      m: "match_orders (maker_out_asset obid (mo_direction mo)) (best_queue v obid (mo_direction mo)) ?s = Inr s'"
    and z: "bu_is_zero (remaining_amount s')"
    and mc: "mc = impact_result obid (mo_direction mo) (mo_owner mo) (unwrap_or (mo_to mo) (mo_owner mo)) s'"
    by (auto simp: spec_market_impact_def run_simps)
  have start: "matching (mo_direction mo) d ?s" and rem: "remaining_amount ?s = mo_amount mo"
    and zero: "taker_amount ?s = bu_zero" "maker_amount ?s = bu_zero"
    using amount by (simp_all add: matching_def impact_start_def has_div_def)
  have "\<forall>x\<in>set (best_queue v obid (mo_direction mo)). order_wf d x \<and> lo_side x = switched (mo_direction mo)"
    using best_queue_member [OF inv] by blast
  note fm = match_orders_fills [OF m z this start, unfolded rem zero]
  show "mc = impact_result obid (mo_direction mo) (mo_owner mo) (unwrap_or (mo_to mo) (mo_owner mo))
      (market_end obid d v mo)"
    and "taken (market_fills obid v mo) = inner (mo_amount mo)"
    and "taker_sum (mo_direction mo) d (market_fills obid v mo) \<le> u128_max"
    and "maker_sum (mo_direction mo) d (market_fills obid v mo) \<le> u128_max"
    using fm mc by (simp_all add: market_end_def market_fills_def)
qed

lemma market_fills_orders:
  assumes "book_inv cfg d obid v" and "0 < inner (mo_amount mo)" and "f \<in> set (market_fills obid v mo)"
  shows "v_orders v obid (lo_id (fst f)) = Some (fst f)" and "order_wf d (fst f)"
    and "lo_side (fst f) = switched (mo_direction mo)" and "0 < snd f" and "snd f \<le> inner (lo_amount (fst f))"
proof -
  have "\<forall>x\<in>set (best_queue v obid (mo_direction mo)). 0 < inner (lo_amount x)"
    using best_queue_member(3) [OF assms(1)] by (auto simp: order_wf_def)
  note b = fills_bounds [OF assms(2) this assms(3) [unfolded market_fills_def]]
  show "v_orders v obid (lo_id (fst f)) = Some (fst f)" and "order_wf d (fst f)"
    and "lo_side (fst f) = switched (mo_direction mo)" and "0 < snd f" and "snd f \<le> inner (lo_amount (fst f))"
    using best_queue_member [OF assms(1) b(3)] b by auto
qed

lemma market_fills_distinct:
  assumes "book_inv cfg d obid v"
  shows "distinct (map (lo_id \<circ> fst) (market_fills obid v mo))"
proof -
  have "map (lo_id \<circ> fst) (market_fills obid v mo) =
      take (length (market_fills obid v mo)) (map lo_id (best_queue v obid (mo_direction mo)))"
    unfolding market_fills_def take_map using fills_prefix by (metis map_map)
  then show ?thesis
    using distinct_take [OF best_queue_sorted(2) [OF assms]] by metis
qed

lemma market_lists:
  assumes "book_inv cfg d obid v"
    and mc: "mc = impact_result obid (mo_direction mo) owner receiver (market_end obid d v mo)"
  shows "mset (filled_full mc) = mset (map fst (filter is_full (market_fills obid v mo)))"
    and "mset (filled_part mc) = mset (map (reduced d) (filter (\<lambda>f. \<not> is_full f) (market_fills obid v mo)))"
    and "cancelled mc = []" and "updated mc = []" and "placed mc = []"
proof -
  let ?fs = "market_fills obid v mo"
  have dist: "distinct (map (\<lambda>f. lo_id (fst f)) (filter P ?fs))" for P
    using market_fills_distinct [OF assms(1), of mo] by (auto simp: distinct_map comp_def inj_on_def)
  have fields: "to_full_execute mc = full_execute (market_end obid d v mo)"
      "to_part_execute mc = part_execute (market_end obid d v mo)"
    by (simp_all add: mc impact_result_def Let_def split: price_variant.splits)
  have ff: "mset (to_full_execute mc) = mset (map (\<lambda>f. (lo_id (fst f), fst f)) (filter is_full ?fs))"
    using mset_fold_insert [OF dist, where m = "[]" and P1 = is_full and val = fst]
    by (simp add: fields market_end_def apply_fills_executed impact_start_def case_prod_unfold)
  have pf: "mset (to_part_execute mc) = mset (map (\<lambda>f. (lo_id (fst f),
      (reduced d f, Base (BalanceUnit (snd f) d)))) (filter (\<lambda>f. \<not> is_full f) ?fs))"
    using mset_fold_insert [OF dist, where m = "[]" and P1 = "\<lambda>f. \<not> is_full f" and val = "\<lambda>f. (reduced d f, Base (BalanceUnit (snd f) d))"]
    by (simp add: fields market_end_def apply_fills_executed impact_start_def case_prod_unfold reduced_def)
  show "mset (filled_full mc) = mset (map fst (filter is_full ?fs))"
    using arg_cong [OF ff, of "image_mset snd"] by (simp add: filled_full_def multiset.map_comp comp_def)
  show "mset (filled_part mc) = mset (map (reduced d) (filter (\<lambda>f. \<not> is_full f) ?fs))"
    using arg_cong [OF pf, of "image_mset (fst \<circ> snd)"]
    by (simp add: filled_part_def multiset.map_comp comp_def)
  show "cancelled mc = []" and "updated mc = []" and "placed mc = []"
    by (simp_all add: mc impact_result_def Let_def change_lists split: price_variant.splits)
qed

lemma market_payment:
  assumes run: "spec_market_impact obid v mo = Inr mc" and inv: "book_inv cfg d obid v"
    and amount: "is_divisible (mo_amount mo) = d" "0 < inner (mo_amount mo)"
    and assets: "ob_base obid \<noteq> ob_quote obid"
  shows "to_lock (mc_payment mc) = [(maker_out_asset obid (mo_direction mo), [(mo_owner mo,
      BalanceUnit (maker_sum (mo_direction mo) d (market_fills obid v mo)) (maker_div (mo_direction mo) d))])]"
    and "pay_ok (asset_div obid d) (to_unlock (mc_payment mc))"
    and "pay_total (to_unlock (mc_payment mc)) b =
      (if b = maker_out_asset obid (mo_direction mo) then maker_sum (mo_direction mo) d (market_fills obid v mo)
       else if b = taker_out_asset obid (mo_direction mo) then taker_sum (mo_direction mo) d (market_fills obid v mo)
       else 0)"
    and "pay_to (to_unlock (mc_payment mc)) b y =
      (if b = maker_out_asset obid (mo_direction mo) then maker_paid (mo_direction mo) d (market_fills obid v mo) y
       else if b = taker_out_asset obid (mo_direction mo) \<and> y = unwrap_or (mo_to mo) (mo_owner mo)
       then taker_sum (mo_direction mo) d (market_fills obid v mo) else 0)"
    and "pay_accounts (to_unlock (mc_payment mc)) \<subseteq>
      insert (unwrap_or (mo_to mo) (mo_owner mo)) (lo_owner ` fst ` set (market_fills obid v mo))"
    and "pay_order_book_id (mc_payment mc) = obid"
proof -
  let ?dir = "mo_direction mo" and ?fs = "market_fills obid v mo" and ?r = "unwrap_or (mo_to mo) (mo_owner mo)"
  let ?out = "maker_out_asset obid ?dir" and ?tout = "taker_out_asset obid ?dir"
  let ?e = "market_end obid d v mo"
  note me = market_impact_end [OF run inv amount]
  have ne: "?fs \<noteq> []" using me(2) amount(2) by (auto simp: taken_def)
  have outs: "?tout \<noteq> ?out" "asset_div obid d ?out = maker_div ?dir d" "asset_div obid d ?tout = taker_div ?dir d"
    using assets by (auto simp: maker_out_asset_def taker_out_asset_def asset_div_def maker_div_def
        taker_div_def split: price_variant.splits)
  have tk: "taker_amount ?e = BalanceUnit (taker_sum ?dir d ?fs) (taker_div ?dir d)"
    and mk: "maker_amount ?e = BalanceUnit (maker_sum ?dir d ?fs) (maker_div ?dir d)"
    using apply_fills_amounts [where fs = ?fs and s = "impact_start (mo_amount mo)"] ne
    by (simp_all add: market_end_def bu_eq_iff impact_start_def)
  have "pay_ok (asset_div obid d) (unlocks (impact_start (mo_amount mo)))"
    "pay_total (unlocks (impact_start (mo_amount mo))) ?out = inner (maker_amount (impact_start (mo_amount mo)))"
    "inner (maker_amount (impact_start (mo_amount mo))) + maker_sum ?dir d ?fs \<le> u128_max"
    using me(4) by (simp_all add: impact_start_def)
  from apply_fills_unlocks [OF this(1) outs(2) this(2,3)]
  have ok: "pay_ok (asset_div obid d) (unlocks ?e)"
    and tot: "pay_total (unlocks ?e) b = (if b = ?out then maker_sum ?dir d ?fs else 0)"
    and pto: "pay_to (unlocks ?e) b y = (if b = ?out then maker_paid ?dir d ?fs y else 0)"
    and acc: "pay_accounts (unlocks ?e) \<subseteq> lo_owner ` fst ` set ?fs" for b y
    by (simp_all add: market_end_def impact_start_def)
  have pay: "mc_payment mc = \<lparr> pay_order_book_id = obid, to_lock = pay_entry ?out (mo_owner mo) (maker_amount ?e) [],
      to_unlock = pay_entry ?tout ?r (taker_amount ?e) (unlocks ?e) \<rparr>"
    by (simp add: me(1) impact_result_def Let_def split: price_variant.splits)
  have dv: "is_divisible (taker_amount ?e) = asset_div obid d ?tout" using tk outs(3) by simp
  have room: "pay_to (unlocks ?e) ?tout ?r + inner (taker_amount ?e) \<le> u128_max"
    using outs(1) pto me(3) tk by simp
  show "to_lock (mc_payment mc) = [(?out, [(mo_owner mo, BalanceUnit (maker_sum ?dir d ?fs) (maker_div ?dir d))])]"
    and "pay_order_book_id (mc_payment mc) = obid"
    by (simp_all add: pay pay_entry_fresh mk)
  show "pay_ok (asset_div obid d) (to_unlock (mc_payment mc))"
    using pay_ok_entry [OF ok dv] by (simp add: pay)
  show "pay_total (to_unlock (mc_payment mc)) b = (if b = ?out then maker_sum ?dir d ?fs
      else if b = ?tout then taker_sum ?dir d ?fs else 0)"
    using pay_total_entry_exact [OF ok dv room, of b] outs(1) tot [of b] tk by (simp add: pay)
  show "pay_to (to_unlock (mc_payment mc)) b y = (if b = ?out then maker_paid ?dir d ?fs y
      else if b = ?tout \<and> y = ?r then taker_sum ?dir d ?fs else 0)"
    using pay_to_entry [OF ok dv, of ?r b y] outs(1) pto tk me(3) by (simp add: pay)
  show "pay_accounts (to_unlock (mc_payment mc)) \<subseteq> insert ?r (lo_owner ` fst ` set ?fs)"
    using pay_accounts_entry [of ?tout ?r "taker_amount ?e" "unlocks ?e"] acc by (auto simp: pay)
qed

lemma mset_full_part:
  "mset (map g (filter P fs @ filter (\<lambda>f. \<not> P f) fs)) = mset (map g fs)"
  by (simp add: image_mset_union [symmetric] union_filter_mset_complement del: image_mset_union)

lemma market_change_ok:
  assumes run: "spec_market_impact obid v mo = Inr mc" and inv: "book_inv cfg d obid v"
    and amount: "is_divisible (mo_amount mo) = d" "0 < inner (mo_amount mo)"
  shows "change_ok d (v_orders v obid) mc"
proof -
  let ?fs = "market_fills obid v mo"
  note l = market_lists [OF inv market_impact_end(1) [OF run inv amount]]
  have "mset (map lo_id (filled_full mc @ filled_part mc)) =
      mset (map (\<lambda>f. lo_id (fst f)) (filter is_full ?fs @ filter (\<lambda>f. \<not> is_full f) ?fs))"
    by (simp add: l(1,2) multiset.map_comp comp_def reduced_def)
  then have "mset (map lo_id (filled_full mc @ filled_part mc)) = mset (map (lo_id \<circ> fst) ?fs)"
    unfolding mset_full_part by (simp add: comp_def)
  then have dist: "distinct (map lo_id (filled_full mc @ filled_part mc))"
    using market_fills_distinct [OF inv] mset_eq_imp_distinct_iff by blast
  have full: "set (filled_full mc) = fst ` set (filter is_full ?fs)"
    using arg_cong [OF l(1), of set_mset] by simp
  have part: "set (filled_part mc) = reduced d ` set (filter (\<lambda>f. \<not> is_full f) ?fs)"
    using arg_cong [OF l(2), of set_mset] by simp
  have "\<exists>y. v_orders v obid (lo_id x) = Some y \<and> shrinks_to y x" if "x \<in> set (filled_part mc)" for x
  proof -
    from that obtain f where f: "f \<in> set ?fs" "\<not> is_full f" and x: "x = reduced d f"
      unfolding part by auto
    note o = market_fills_orders [OF inv amount(2) f(1)]
    have "shrinks_to (fst f) x"
      using o f(2) by (auto simp: shrinks_to_def x reduced_def is_full_def order_wf_def)
    then show ?thesis using o(1) by (auto simp: x reduced_def)
  qed
  then show ?thesis
    using dist full market_fills_orders(1) [OF inv amount(2)]
    unfolding change_ok_def l(3-5) by auto
qed

lemma market_change_funded:
  assumes run: "spec_market_impact obid v mo = Inr mc" and inv: "book_inv cfg d obid v"
    and amount: "is_divisible (mo_amount mo) = d" "0 < inner (mo_amount mo)"
    and assets: "ob_base obid \<noteq> ob_quote obid"
  shows "change_funded obid d (v_orders v obid) mc"
  unfolding change_funded_def
proof
  fix a
  let ?fs = "market_fills obid v mo" and ?m = "v_orders v obid" and ?dir = "mo_direction mo"
  note l = market_lists [OF inv market_impact_end(1) [OF run inv amount]]
  note pay = market_payment [OF run inv amount assets]
  have fin: "finite (dom ?m)" using inv by (simp add: book_inv_def)
  have "lock_sum obid d a (map (\<lambda>x. the (?m (lo_id x))) (filled_part mc)) =
      lock_sum obid d a (map (\<lambda>x. the (?m (lo_id x))) (map (reduced d) (filter (\<lambda>f. \<not> is_full f) ?fs)))"
    using sum_list_mset [OF l(2), where f = "\<lambda>x. lock_units obid d a (the (?m (lo_id x)))"]
    by (simp add: comp_def)
  also have "\<dots> = lock_sum obid d a (map fst (filter (\<lambda>f. \<not> is_full f) ?fs))"
    using market_fills_orders(1) [OF inv amount(2)]
    by (auto simp: reduced_def comp_def intro!: arg_cong [where f = sum_list] map_cong)
  finally have parts: "lock_sum obid d a (map (\<lambda>x. the (?m (lo_id x))) (filled_part mc)) =
      lock_sum obid d a (map fst (filter (\<lambda>f. \<not> is_full f) ?fs))" .
  have fulls: "lock_sum obid d a (filled_full mc) = lock_sum obid d a (map fst (filter is_full ?fs))"
    by (rule sum_list_mset [OF l(1)])
  have reds: "lock_sum obid d a (filled_part mc) =
      lock_sum obid d a (map (reduced d) (filter (\<lambda>f. \<not> is_full f) ?fs))"
    by (rule sum_list_mset [OF l(2)])
  have both: "lock_sum obid d a (map fst (filter is_full ?fs)) +
      lock_sum obid d a (map fst (filter (\<lambda>f. \<not> is_full f) ?fs)) = lock_sum obid d a (map fst ?fs)"
    by (simp add: sum_list_filter_split [of _ ?fs is_full] comp_def)
  have rel: "(if a = taker_out_asset obid ?dir then taker_sum ?dir d ?fs else 0) +
      lock_sum obid d a (map (reduced d) (filter (\<lambda>f. \<not> is_full f) ?fs)) \<le> lock_sum obid d a (map fst ?fs)"
    using market_fills_orders [OF inv amount(2)] assets by (intro fills_release) auto
  have outs: "taker_out_asset obid ?dir \<noteq> maker_out_asset obid ?dir"
    using assets by (auto simp: maker_out_asset_def taker_out_asset_def split: price_variant.splits)
  from locked_after [OF fin market_change_ok [OF run inv amount], of obid a]
  have "locked obid d (orders_after mc ?m) a + lock_sum obid d a (map fst ?fs) =
      locked obid d ?m a + lock_sum obid d a (map (reduced d) (filter (\<lambda>f. \<not> is_full f) ?fs))"
    using parts fulls reds both by (simp add: l(3-5))
  then show "locked obid d (orders_after mc ?m) a + pay_total (to_unlock (mc_payment mc)) a \<le>
      locked obid d ?m a + pay_total (to_lock (mc_payment mc)) a"
    using rel outs unfolding pay(1) pay(3) by (auto split: if_splits)
qed

section \<open>Cancelling all orders\<close>

lemma cancel_all_loop_result:
  assumes "cancel_all_loop obid reason xs cancels unlock = Inr (cancels', unlock')"
    and "\<forall>x\<in>set xs. order_wf d x" and "distinct (map lo_id xs)"
    and "lo_id ` set xs \<inter> fst ` set cancels = {}" and "pay_ok (asset_div obid d) unlock"
    and "ob_base obid \<noteq> ob_quote obid"
  shows "mset cancels' = mset cancels + mset (map (\<lambda>x. (lo_id x, (x, reason))) xs)
    \<and> (\<forall>a. pay_total unlock' a \<le> pay_total unlock a + lock_sum obid d a xs)
    \<and> pay_accounts unlock' \<subseteq> pay_accounts unlock \<union> lo_owner ` set xs"
  using assms(1-5)
proof (induction xs arbitrary: cancels unlock)
  case (Cons x xs)
  from Cons.prems(1) obtain r where r: "deal_amount x Taker None = Inr r"
    and rest: "cancel_all_loop obid reason xs (bt_insert (lo_id x) (x, reason) cancels)
      (pay_entry (associated_asset r obid) (lo_owner x) (amount_value r) unlock) = Inr (cancels', unlock')"
    by (auto simp: run_simps)
  have wf: "order_wf d x" using Cons.prems(2) by simp
  note lock = deal_amount_lock [OF r wf assms(6)]
  have new: "lo_id x \<notin> fst ` set cancels" using Cons.prems(4) by auto
  have apart: "lo_id ` set xs \<inter> fst ` set (bt_insert (lo_id x) (x, reason) cancels) = {}"
    using Cons.prems(3,4) by (auto simp: set_bt_insert_keys)
  from Cons.IH [OF rest _ _ apart pay_ok_entry [OF Cons.prems(5) lock(2)]] Cons.prems(2,3)
  have IH: "mset cancels' = mset (bt_insert (lo_id x) (x, reason) cancels) + mset (map (\<lambda>x. (lo_id x, (x, reason))) xs)"
    "\<And>a. pay_total unlock' a \<le> pay_total (pay_entry (associated_asset r obid) (lo_owner x) (amount_value r) unlock) a
      + lock_sum obid d a xs"
    "pay_accounts unlock' \<subseteq> pay_accounts (pay_entry (associated_asset r obid) (lo_owner x) (amount_value r) unlock)
      \<union> lo_owner ` set xs"
    by auto
  have "pay_total unlock' a \<le> pay_total unlock a + lock_sum obid d a (x # xs)" for a
    using IH(2) [of a] pay_total_entry_le [OF Cons.prems(5) lock(2,3), of "lo_owner x" a] lock(1) [of a]
    by (simp split: if_splits)
  then show ?case
    using IH(1,3) mset_bt_insert [OF new, of "(x, reason)"]
      pay_accounts_entry [of "associated_asset r obid" "lo_owner x" "amount_value r" unlock]
    by auto
qed simp

lemma cancel_all_change:
  assumes "cancel_all_loop (book_id book) reason xs [] [] = Inr (cancels, unlock)"
    and mc: "mc = (market_change_new (book_id book))
       \<lparr> to_cancel := cancels, mc_payment := (payment_new (book_id book)) \<lparr> to_unlock := unlock \<rparr> \<rparr>"
    and inv: "book_inv cfg d (book_id book) v" and xs: "lists_orders (v_orders v (book_id book)) xs"
    and assets: "ob_base (book_id book) \<noteq> ob_quote (book_id book)"
  shows "change_ok d (v_orders v (book_id book)) mc"
    and "change_funded (book_id book) d (v_orders v (book_id book)) mc"
    and "change_accounts mc \<subseteq> lo_owner ` set xs" and "placed mc = []"
    and "pay_order_book_id (mc_payment mc) = book_id book"
    and "orders_after mc (v_orders v (book_id book)) = Map.empty"
    and "length (to_cancel mc) = card (dom (v_orders v (book_id book)))"
proof -
  let ?m = "v_orders v (book_id book)"
  obtain ids where ids: "distinct ids" "set ids = dom ?m" "xs = map (\<lambda>i. the (?m i)) ids"
    using xs by (auto simp: lists_orders_def)
  have known: "?m i = Some (the (?m i))" "lo_id (the (?m i)) = i" "order_wf d (the (?m i))" if "i \<in> set ids" for i
    using that ids(2) inv by (auto simp: book_inv_def)
  have lo_ids: "map lo_id xs = ids" using known(2) by (simp add: ids(3) map_idI)
  have stored: "\<forall>x\<in>set xs. ?m (lo_id x) = Some x" "\<forall>x\<in>set xs. order_wf d x"
    using known by (auto simp: ids(3))
  have fin: "finite (dom ?m)" using inv by (simp add: book_inv_def)
  have dxs: "distinct (map lo_id xs)" using ids(1) by (simp only: lo_ids)
  note res = cancel_all_loop_result [OF assms(1) stored(2) dxs _ _ assets, simplified]
  have canc: "mset (cancelled mc) = mset xs"
    using arg_cong [OF conjunct1 [OF res], of "image_mset (fst \<circ> snd)"]
    by (simp add: mc cancelled_def multiset.map_comp comp_def)
  have dist: "distinct (map lo_id (cancelled mc))"
    using canc ids(1) lo_ids by (metis mset_eq_imp_distinct_iff mset_map)
  have rest: "filled_full mc = []" "filled_part mc = []" "updated mc = []" "placed mc = []"
    by (simp_all add: mc market_change_new_def change_lists)
  have pays: "to_unlock (mc_payment mc) = unlock" "to_lock (mc_payment mc) = []"
    by (simp_all add: mc payment_new_def)
  have set_c: "set (cancelled mc) = set xs" using canc by (metis set_mset_mset)
  show ok: "change_ok d ?m mc" using dist stored(1) by (simp add: change_ok_def rest set_c)
  show "placed mc = []" by (rule rest)
  show "change_accounts mc \<subseteq> lo_owner ` set xs"
    using res by (simp add: mc change_accounts_def payment_new_def)
  show "pay_order_book_id (mc_payment mc) = book_id book" by (simp add: mc payment_new_def)
  have "del_orders (cancelled mc) ?m = Map.empty"
    using ids(2) lo_ids set_c by (auto simp: del_orders_get fun_eq_iff dom_def)
  then show after: "orders_after mc ?m = Map.empty"
    by (simp add: orders_after_def rest put_orders_def del_orders_def)
  show "length (to_cancel mc) = card (dom ?m)"
    using arg_cong [OF canc, of size] ids by (simp add: cancelled_def distinct_card [symmetric])
  show "change_funded (book_id book) d ?m mc"
    unfolding change_funded_def
  proof
    fix a
    have "pay_total unlock a \<le> lock_sum (book_id book) d a xs" using res by simp
    moreover have "lock_sum (book_id book) d a (cancelled mc) = lock_sum (book_id book) d a xs"
      by (rule sum_list_mset [OF canc])
    ultimately show "locked (book_id book) d (orders_after mc ?m) a + pay_total (to_unlock (mc_payment mc)) a \<le>
        locked (book_id book) d ?m a + pay_total (to_lock (mc_payment mc)) a"
      using locked_after [OF fin ok, of "book_id book" a] by (simp add: rest pays)
  qed
qed

end
