(* ===== verification/Alignment.thy ===== *)
theory Alignment
  imports Changes
begin

text \<open>
  Aligning orders to the lot step of their book: \<open>align_amount\<close> rounds down to a multiple of the step,
  and aligning the orders of a book cancels what is smaller than one step, cuts the rest down, and
  refunds no more than what it frees.
\<close>

section \<open>Rounding\<close>

lemma align_amount_eq:
  assumes "inner amount \<le> u128_max"
  shows "align_amount book amount =
    BalanceUnit (inner amount div inner (step_lot_size book) * inner (step_lot_size book)) (is_divisible amount)"
proof -
  have "inner amount div inner (step_lot_size book) * inner (step_lot_size book) \<le> u128_max"
    using div_times_less_eq_dividend [of "inner amount" "inner (step_lot_size book)"] assms by linarith
  then show ?thesis
    by (simp add: align_amount_def Let_def saturating_mul_u_def bu_set_def)
qed

lemma align_amount_dust:
  assumes "inner amount \<le> u128_max"
  shows "inner (align_amount book amount) + inner amount mod inner (step_lot_size book) = inner amount"
  by (simp add: align_amount_eq [OF assms])

section \<open>Aligning a list of orders\<close>

definition misaligned :: "order_book \<Rightarrow> limit_order \<Rightarrow> bool" where
  "misaligned book x \<longleftrightarrow> inner (lo_amount x) mod inner (step_lot_size book) \<noteq> 0"

definition too_small :: "order_book \<Rightarrow> limit_order \<Rightarrow> bool" where
  "too_small book x \<longleftrightarrow> misaligned book x \<and> lo_amount x < step_lot_size book"

definition to_cut :: "order_book \<Rightarrow> limit_order \<Rightarrow> bool" where
  "to_cut book x \<longleftrightarrow> misaligned book x \<and> \<not> lo_amount x < step_lot_size book"

definition cut :: "order_book \<Rightarrow> limit_order \<Rightarrow> limit_order" where
  "cut book x = x \<lparr> lo_amount := align_amount book (lo_amount x) \<rparr>"

lemma cut_facts:
  assumes "order_wf d x" and "to_cut book x" and "is_divisible (step_lot_size book) = d"
    and "0 < inner (step_lot_size book)"
  shows "cut book x = reduced d (x, inner (lo_amount x) mod inner (step_lot_size book))"
    and "shrinks_to x (cut book x)"
    and "inner (lo_amount x) mod inner (step_lot_size book) \<le> inner (lo_amount x)"
    and "bu_checked_sub (lo_amount x) (align_amount book (lo_amount x)) =
      Some (BalanceUnit (inner (lo_amount x) mod inner (step_lot_size book)) d)"
proof -
  let ?n = "inner (lo_amount x)" and ?s = "inner (step_lot_size book)"
  have wf: "?n \<le> u128_max" "is_divisible (lo_amount x) = d" "0 < ?n" using assms(1) by (auto simp: order_wf_def)
  have al: "align_amount book (lo_amount x) = BalanceUnit (?n - ?n mod ?s) d"
    using align_amount_eq [OF wf(1), of book] wf(2) by (simp add: minus_mod_eq_div_mult)
  show "cut book x = reduced d (x, ?n mod ?s)" by (simp add: cut_def reduced_def al)
  show le: "?n mod ?s \<le> ?n" by simp
  have "\<not> ?n < ?s" and mis: "?n mod ?s \<noteq> 0"
    using assms(2,3) wf(2) less_same_div [of "lo_amount x" "step_lot_size book"]
    by (auto simp: to_cut_def misaligned_def)
  then have "?n mod ?s < ?n" using assms(4) mod_less_divisor [of ?s ?n] by linarith
  then show "shrinks_to x (cut book x)"
    using wf mis by (auto simp: shrinks_to_def cut_def al)
  show "bu_checked_sub (lo_amount x) (align_amount book (lo_amount x)) = Some (BalanceUnit (?n mod ?s) d)"
    using checked_sub_same_div [of ?n d "?n - ?n mod ?s" "BalanceUnit (?n mod ?s) d"] wf(2) le al
    by (cases "lo_amount x") simp
qed

lemma refund_amount:
  assumes "deal_amount x Taker (Some n) = Inr r" and "is_divisible (lo_price x)" and "is_divisible n = d"
    and "inner n \<le> u128_max" and "ob_base obid \<noteq> ob_quote obid"
  shows "associated_asset r obid = taker_out_asset obid (switched (lo_side x))"
    and "is_divisible (amount_value r) = asset_div obid d (associated_asset r obid)"
    and "inner (amount_value r) = taker_units (switched (lo_side x)) d x (inner n)"
    and "inner (amount_value r) \<le> u128_max"
proof -
  have side: "lo_side x = switched (switched (lo_side x))" by (cases "lo_side x") auto
  note t = deal_amount_taker [OF assms(1) side assms(2,3), simplified]
  show a: "associated_asset r obid = taker_out_asset obid (switched (lo_side x))"
    using t(2) by (cases "lo_side x"; cases r) (simp_all add: taker_out_asset_def)
  show "is_divisible (amount_value r) = asset_div obid d (associated_asset r obid)"
    using t(1) assms(5) unfolding a
    by (cases "lo_side x") (auto simp: taker_out_asset_def taker_div_def asset_div_def)
  show v: "inner (amount_value r) = taker_units (switched (lo_side x)) d x (inner n)" using t(1) by simp
  show "inner (amount_value r) \<le> u128_max"
  proof (cases "lo_side x")
    case Sell
    then show ?thesis using v assms(4) by (simp add: taker_units_def)
  next
    case Buy
    then obtain z where z: "bu_checked_mul (lo_price x) n = Some z" "r = Quote z"
      using deal_amount_Inr [OF assms(1) refl] by auto
    then show ?thesis using checked_mul_price [OF z(1) assms(2)] by simp
  qed
qed

text \<open>Refunding \<open>n\<close> units of an order whose lock shrinks by \<open>n\<close> units is funded.\<close>

lemma refund_entry:
  assumes "deal_amount y Taker (Some (BalanceUnit n d)) = Inr r" and "n \<le> inner (lo_amount x)"
    and "lo_price y = lo_price x" "lo_side y = lo_side x" and wf: "order_wf d x"
    and assets: "ob_base obid \<noteq> ob_quote obid" and ok: "pay_ok (asset_div obid d) unlock"
  shows "pay_ok (asset_div obid d) (pay_entry (associated_asset r obid) z (amount_value r) unlock)"
    and "pay_total (pay_entry (associated_asset r obid) z (amount_value r) unlock) a +
      lock_units obid d a (reduced d (x, n)) \<le> pay_total unlock a + lock_units obid d a x"
proof -
  have "is_divisible (lo_price y)" and "n \<le> u128_max" using wf assms(2,3) by (auto simp: order_wf_def)
  note ref = refund_amount [OF assms(1) this(1) _ _ assets, simplified balance_unit.sel, OF refl this(2)]
  show "pay_ok (asset_div obid d) (pay_entry (associated_asset r obid) z (amount_value r) unlock)"
    using pay_ok_entry [OF ok ref(2)] .
  have "lo_side x = switched (switched (lo_side x))" by (cases "lo_side x") auto
  note rel = fill_release [OF this assms(2) assets, of a d]
  have "taker_units (switched (lo_side x)) d y n = taker_units (switched (lo_side x)) d x n"
    using assms(3) by (simp add: taker_units_def split: price_variant.split)
  then show "pay_total (pay_entry (associated_asset r obid) z (amount_value r) unlock) a +
      lock_units obid d a (reduced d (x, n)) \<le> pay_total unlock a + lock_units obid d a x"
    using pay_total_entry_le [OF ok ref(2,4), of z a] ref(1,3) rel assms(4) by (simp split: if_splits)
qed

text \<open>
  One order of the loop: it is skipped, cancelled or cut, and what is refunded together with what
  stays locked is at most what was locked.
\<close>

lemma align_loop_Cons:
  assumes "align_loop book (x # xs) cancels updates unlock = Inr res" and wf: "order_wf d x"
    and step: "is_divisible (step_lot_size book) = d" "0 < inner (step_lot_size book)"
    and assets: "ob_base (book_id book) \<noteq> ob_quote (book_id book)"
    and ok: "pay_ok (asset_div (book_id book) d) unlock"
  shows "\<exists>unlock1.
    align_loop book xs
      (if too_small book x then bt_insert (lo_id x) (x, Aligned) cancels else cancels)
      (if to_cut book x then bt_insert (lo_id x) (cut book x) updates else updates) unlock1 = Inr res
    \<and> pay_ok (asset_div (book_id book) d) unlock1
    \<and> pay_accounts unlock1 \<subseteq> insert (lo_owner x) (pay_accounts unlock)
    \<and> (\<forall>a. pay_total unlock1 a + (if to_cut book x then lock_units (book_id book) d a (cut book x) else 0)
        \<le> pay_total unlock a + (if misaligned book x then lock_units (book_id book) d a x else 0))"
proof -
  let ?entry = "\<lambda>r. pay_entry (associated_asset r (book_id book)) (lo_owner x) (amount_value r) unlock"
  have dv: "lo_amount x = BalanceUnit (inner (lo_amount x)) d" using wf by (simp add: order_wf_def bu_eq_iff)
  consider "\<not> misaligned book x" | "too_small book x" | "to_cut book x"
    by (auto simp: too_small_def to_cut_def)
  then show ?thesis
  proof cases
    case 1
    then show ?thesis using assms(1) ok by (auto simp: misaligned_def too_small_def to_cut_def)
  next
    case 2
    then have kind: "\<not> to_cut book x" "misaligned book x" by (auto simp: too_small_def to_cut_def)
    from 2 obtain r where rest: "align_loop book xs (bt_insert (lo_id x) (x, Aligned) cancels) updates (?entry r) = Inr res"
      and "deal_amount x Taker (Some (lo_amount x)) = Inr r"
      using assms(1) by (auto simp: too_small_def misaligned_def run_simps)
    then have "deal_amount x Taker (Some (BalanceUnit (inner (lo_amount x)) d)) = Inr r" using dv by simp
    note ref = refund_entry [OF this order_refl refl refl wf assets ok, of "lo_owner x"]
    show ?thesis
      using 2 kind rest ref(1) add_leD1 [OF ref(2)] pay_accounts_entry
      by (intro exI [of _ "?entry r"]) auto
  next
    case 3
    then have kind: "\<not> too_small book x" "misaligned book x" by (auto simp: too_small_def to_cut_def)
    note c = cut_facts [OF wf 3 step]
    obtain r where r: "deal_amount (cut book x) Taker
        (Some (BalanceUnit (inner (lo_amount x) mod inner (step_lot_size book)) d)) = Inr r"
      and rest: "align_loop book xs cancels (bt_insert (lo_id x) (cut book x) updates) (?entry r) = Inr res"
      using assms(1) 3 c(4) by (auto simp: to_cut_def misaligned_def run_simps Let_def cut_def)
    have "lo_price (cut book x) = lo_price x" "lo_side (cut book x) = lo_side x" by (simp_all add: cut_def)
    note ref = refund_entry [OF r c(3) this wf assets ok, of "lo_owner x", folded c(1)]
    show ?thesis
      using 3 kind rest ref pay_accounts_entry by (intro exI [of _ "?entry r"]) auto
  qed
qed

lemma align_loop_result:
  assumes "align_loop book xs cancels updates unlock = Inr (cancels', updates', unlock')"
    and "\<forall>x\<in>set xs. order_wf d x" and "distinct (map lo_id xs)"
    and "lo_id ` set xs \<inter> fst ` set cancels = {}" and "lo_id ` set xs \<inter> fst ` set updates = {}"
    and "pay_ok (asset_div (book_id book) d) unlock"
    and step: "is_divisible (step_lot_size book) = d" "0 < inner (step_lot_size book)"
    and assets: "ob_base (book_id book) \<noteq> ob_quote (book_id book)"
  shows "mset cancels' = mset cancels + mset (map (\<lambda>x. (lo_id x, (x, Aligned))) (filter (too_small book) xs))
    \<and> mset updates' = mset updates + mset (map (\<lambda>x. (lo_id x, cut book x)) (filter (to_cut book) xs))
    \<and> (\<forall>a. pay_total unlock' a + lock_sum (book_id book) d a (map (cut book) (filter (to_cut book) xs)) \<le>
        pay_total unlock a + lock_sum (book_id book) d a (filter (misaligned book) xs))
    \<and> pay_accounts unlock' \<subseteq> pay_accounts unlock \<union> lo_owner ` set xs"
  using assms(1-6)
proof (induction xs arbitrary: cancels updates unlock)
  case (Cons x xs)
  let ?c = "if too_small book x then bt_insert (lo_id x) (x, Aligned) cancels else cancels"
  let ?u = "if to_cut book x then bt_insert (lo_id x) (cut book x) updates else updates"
  have wf: "order_wf d x" using Cons.prems(2) by simp
  from align_loop_Cons [OF Cons.prems(1) wf step assets Cons.prems(6)] obtain unlock1
    where rest: "align_loop book xs ?c ?u unlock1 = Inr (cancels', updates', unlock')"
      and ok1: "pay_ok (asset_div (book_id book) d) unlock1"
      and acc1: "pay_accounts unlock1 \<subseteq> insert (lo_owner x) (pay_accounts unlock)"
      and tot1: "\<And>a. pay_total unlock1 a + (if to_cut book x then lock_units (book_id book) d a (cut book x) else 0)
        \<le> pay_total unlock a + (if misaligned book x then lock_units (book_id book) d a x else 0)"
    by blast
  have apart: "lo_id ` set xs \<inter> fst ` set ?c = {}" "lo_id ` set xs \<inter> fst ` set ?u = {}"
    using Cons.prems(3-5) by (auto simp: set_bt_insert_keys)
  have new: "lo_id x \<notin> fst ` set cancels" "lo_id x \<notin> fst ` set updates"
    using Cons.prems(4,5) by auto
  from Cons.IH [OF rest _ _ apart ok1] Cons.prems(2,3)
  have IH: "mset cancels' = mset ?c + mset (map (\<lambda>x. (lo_id x, (x, Aligned))) (filter (too_small book) xs))"
    "mset updates' = mset ?u + mset (map (\<lambda>x. (lo_id x, cut book x)) (filter (to_cut book) xs))"
    "\<And>a. pay_total unlock' a + lock_sum (book_id book) d a (map (cut book) (filter (to_cut book) xs)) \<le>
      pay_total unlock1 a + lock_sum (book_id book) d a (filter (misaligned book) xs)"
    "pay_accounts unlock' \<subseteq> pay_accounts unlock1 \<union> lo_owner ` set xs"
    by auto
  have "pay_total unlock' a + lock_sum (book_id book) d a (map (cut book) (filter (to_cut book) (x # xs))) \<le>
      pay_total unlock a + lock_sum (book_id book) d a (filter (misaligned book) (x # xs))" for a
    using tot1 [of a] IH(3) [of a] by (auto split: if_splits)
  then show ?case
    using IH(1,2,4) acc1 mset_bt_insert [OF new(1), of "(x, Aligned)"] mset_bt_insert [OF new(2), of "cut book x"]
    by auto
qed simp

lemma align_change:
  assumes run: "calculate_align_limit_orders_impact book xs = Inr mc"
    and xs: "\<forall>x\<in>set xs. order_wf d x \<and> m (lo_id x) = Some x" "distinct (map lo_id xs)" and fin: "finite (dom m)"
    and step: "is_divisible (step_lot_size book) = d" "0 < inner (step_lot_size book)"
    and assets: "ob_base (book_id book) \<noteq> ob_quote (book_id book)"
  shows "change_ok d m mc" and "change_funded (book_id book) d m mc"
    and "change_accounts mc \<subseteq> lo_owner ` set xs" and "placed mc = []"
    and "pay_order_book_id (mc_payment mc) = book_id book"
    and "mset (cancelled mc) = mset (filter (too_small book) xs)"
    and "mset (updated mc) = mset (map (cut book) (filter (to_cut book) xs))"
proof -
  let ?small = "filter (too_small book) xs" and ?cut = "filter (to_cut book) xs"
  from run obtain cancels updates unlock
    where loop: "align_loop book xs [] [] [] = Inr (cancels, updates, unlock)"
      and mc: "mc = (market_change_new (book_id book)) \<lparr> to_cancel := cancels, to_force_update := updates,
         mc_payment := (payment_new (book_id book)) \<lparr> to_unlock := unlock \<rparr> \<rparr>"
    by (auto simp: calculate_align_limit_orders_impact_def run_simps)
  have "\<forall>x\<in>set xs. order_wf d x" using xs(1) by simp
  note res = align_loop_result [OF loop this xs(2) _ _ _ step assets, simplified]
  have pays: "to_unlock (mc_payment mc) = unlock" "to_lock (mc_payment mc) = []"
    and fields: "to_cancel mc = cancels" "to_force_update mc = updates"
    and rest: "filled_full mc = []" "filled_part mc = []"
    by (simp_all add: mc payment_new_def market_change_new_def change_lists)
  show "placed mc = []" "pay_order_book_id (mc_payment mc) = book_id book"
    by (simp_all add: mc payment_new_def market_change_new_def change_lists)
  show canc: "mset (cancelled mc) = mset ?small"
    using arg_cong [OF conjunct1 [OF res], of "image_mset (fst \<circ> snd)"]
    by (simp add: cancelled_def fields multiset.map_comp comp_def)
  show upd: "mset (updated mc) = mset (map (cut book) ?cut)"
    using arg_cong [OF conjunct1 [OF conjunct2 [OF res]], of "image_mset snd"]
    by (simp add: updated_def fields multiset.map_comp comp_def)
  show "change_accounts mc \<subseteq> lo_owner ` set xs" using res by (simp add: change_accounts_def pays)
  have cut_id: "lo_id (cut book x) = lo_id x" for x by (simp add: cut_def)
  have "mset (map lo_id (cancelled mc @ updated mc)) = mset (map lo_id ?small @ map lo_id ?cut)"
    using canc upd by (simp add: multiset.map_comp comp_def cut_id)
  moreover have "distinct (map lo_id ?small @ map lo_id ?cut)"
    using xs(2) by (auto simp: distinct_map inj_on_def too_small_def to_cut_def)
  ultimately have dist: "distinct (map lo_id (cancelled mc @ updated mc))"
    using mset_eq_imp_distinct_iff by blast
  have sets: "set (cancelled mc) = set ?small" "set (updated mc) = cut book ` set ?cut"
    using arg_cong [OF canc, of set_mset] arg_cong [OF upd, of set_mset] by simp_all
  show ok: "change_ok d m mc"
    using dist xs(1) cut_facts(2) [OF _ _ step] unfolding change_ok_def rest \<open>placed mc = []\<close>
    by (auto simp: sets cut_id)
  show "change_funded (book_id book) d m mc"
    unfolding change_funded_def
  proof
    fix a
    have "lock_sum (book_id book) d a (map (\<lambda>x. the (m (lo_id x))) (updated mc)) =
        lock_sum (book_id book) d a (map (\<lambda>x. the (m (lo_id x))) (map (cut book) ?cut))"
      using sum_list_mset [OF upd, where f = "\<lambda>x. lock_units (book_id book) d a (the (m (lo_id x)))"]
      by (simp add: comp_def)
    also have "\<dots> = lock_sum (book_id book) d a ?cut"
      using xs(1) by (auto simp: cut_id comp_def intro!: arg_cong [where f = sum_list] map_cong)
    finally have olds: "lock_sum (book_id book) d a (map (\<lambda>x. the (m (lo_id x))) (updated mc)) =
        lock_sum (book_id book) d a ?cut" .
    have small: "lock_sum (book_id book) d a (cancelled mc) = lock_sum (book_id book) d a ?small"
      by (rule sum_list_mset [OF canc])
    have cuts: "lock_sum (book_id book) d a (updated mc) = lock_sum (book_id book) d a (map (cut book) ?cut)"
      by (rule sum_list_mset [OF upd])
    have total: "pay_total unlock a + lock_sum (book_id book) d a (map (cut book) ?cut) \<le>
        lock_sum (book_id book) d a (filter (misaligned book) xs)" using res by simp
    have split: "filter (too_small book) xs = filter (\<lambda>x. lo_amount x < step_lot_size book) (filter (misaligned book) xs)"
      "filter (to_cut book) xs = filter (\<lambda>x. \<not> lo_amount x < step_lot_size book) (filter (misaligned book) xs)"
      by (auto simp: too_small_def to_cut_def intro!: filter_cong)
    have "lock_sum (book_id book) d a (filter (misaligned book) xs) =
        lock_sum (book_id book) d a ?small + lock_sum (book_id book) d a ?cut"
      unfolding split by (rule sum_list_filter_split)
    then show "locked (book_id book) d (orders_after mc m) a + pay_total (to_unlock (mc_payment mc)) a \<le>
        locked (book_id book) d m a + pay_total (to_lock (mc_payment mc)) a"
      using locked_after [OF fin ok, of "book_id book" a] total unfolding rest pays \<open>placed mc = []\<close>
      by (simp add: olds [unfolded map_map] small cuts)
  qed
qed

end
