(* ===== verification/Cross_Spread.thy ===== *)
theory Cross_Spread
  imports Alignment
begin

text \<open>
  A limit order that crosses the spread: the volume up to its price becomes a market order and the
  rest is placed. The change the engine calculates is a function of the abstract book, agrees with it
  and is funded as long as the merged lock does not saturate.
\<close>

section \<open>Splitting the amount at the price\<close>

lemma saturating_add_has_div:
  assumes "has_div d a" and "is_divisible b = d" and "inner a + inner b \<le> u128_max"
  shows "bu_saturating_add a b = BalanceUnit (inner a + inner b) d"
proof -
  have "is_divisible a = d \<or> a = bu_zero" using assms(1) by (simp add: has_div_def)
  then show ?thesis
    using assms(2,3)
    by (cases d) (auto simp: bu_saturating_add_def bu_align_saturating_def bu_new_def
        saturating_add_u_def saturating_mul_u_def bu_zero_def)
qed

lemma saturating_sub_same_div:
  "is_divisible a = d \<Longrightarrow> is_divisible b = d \<Longrightarrow> bu_saturating_sub a b = BalanceUnit (inner a - inner b) d"
  by (cases d) (auto simp: bu_saturating_sub_def bu_align_saturating_def bu_new_def saturating_sub_u_def)

text \<open>The levels whose price the order accepts, and their volume.\<close>

definition reached :: "ordering \<Rightarrow> order_price \<Rightarrow> market_side \<Rightarrow> market_side" where
  "reached ord price m = takeWhile (\<lambda>e. bu_cmp (fst e) price \<noteq> ord) m"

definition volume_of :: "market_side \<Rightarrow> nat" where
  "volume_of m = sum_list (map (inner \<circ> snd) m)"

lemma depth_volume_loop_split:
  assumes "depth_volume_loop ord price m start amount = (ma, la)"
    and "\<forall>e\<in>set m. is_divisible (snd e) = d" and "is_divisible amount = d" and "has_div d start"
    and "inner start + inner amount \<le> u128_max"
  shows "inner ma + inner la = inner start + inner amount \<and> has_div d ma \<and> has_div d la
    \<and> inner ma \<le> inner start + volume_of (reached ord price m)
    \<and> (0 < inner la \<longrightarrow> inner ma = inner start + volume_of (reached ord price m))"
  using assms
proof (induction m arbitrary: start amount)
  case (Cons e m)
  obtain p v where e: "e = (p, v)" by (cases e)
  have dv: "is_divisible v = d" using Cons.prems(2) e by simp
  consider "bu_cmp p price = ord" | "bu_cmp p price \<noteq> ord" "v \<le> amount" | "bu_cmp p price \<noteq> ord" "\<not> v \<le> amount"
    by blast
  then show ?case
  proof cases
    case 1
    then show ?thesis using Cons.prems e by (auto simp: has_div_def reached_def volume_of_def)
  next
    case 2
    have le: "inner v \<le> inner amount" using 2(2) dv Cons.prems(3) by (simp add: le_same_div)
    let ?s = "BalanceUnit (inner start + inner v) d" and ?a = "BalanceUnit (inner amount - inner v) d"
    have s: "bu_saturating_add start v = ?s"
      using Cons.prems(4,5) dv le by (intro saturating_add_has_div) auto
    have a: "bu_saturating_sub amount v = ?a"
      by (rule saturating_sub_same_div [OF Cons.prems(3) dv])
    have vol: "volume_of (reached ord price (e # m)) = inner v + volume_of (reached ord price m)"
      using 2(1) e by (simp add: reached_def volume_of_def)
    show ?thesis
    proof (cases "bu_is_zero ?a")
      case True
      then have "ma = ?s" "la = ?a" using Cons.prems(1) 2 e s a by auto
      then show ?thesis
        using True le vol by (auto simp: has_div_def bu_is_zero_def)
    next
      case False
      then have "depth_volume_loop ord price m ?s ?a = (ma, la)" using Cons.prems(1) 2 e s a by auto
      from Cons.IH [OF this] Cons.prems(2,5) le show ?thesis
        unfolding vol by (simp add: has_div_def)
    qed
  next
    case 3
    then have lt: "inner amount < inner v" using dv Cons.prems(3) by (simp add: le_same_div)
    have "bu_saturating_add start amount = BalanceUnit (inner start + inner amount) d"
      using Cons.prems(3-5) by (intro saturating_add_has_div) auto
    then have "ma = BalanceUnit (inner start + inner amount) d" "la = bu_zero"
      using Cons.prems(1) 3 e by auto
    then show ?thesis using lt 3(1) e by (auto simp: has_div_def reached_def volume_of_def)
  qed
qed (auto simp: has_div_def reached_def volume_of_def)

section \<open>The change as a function of the book\<close>

definition spread_split ::
  "order_book \<Rightarrow> book_view \<Rightarrow> limit_order \<Rightarrow> dispatch_error + (order_volume \<times> order_volume)" where
  "spread_split book v x =
     (let (market_amount, limit_amount) =
            calculate_market_depth_volume_to_price (switched (lo_side x)) (lo_price x) (lo_amount x)
              (market_view v (book_id book) (lo_side x))
      in if limit_amount < min_lot_size book
         then and_then (ok_or (bu_checked_sub
                (sum_volumes (v_agg v (switched (lo_side x)) (book_id book))) market_amount)
                AmountCalculationFailed) (\<lambda>left.
              if limit_amount \<le> left
              then and_then (ok_or (bu_checked_add market_amount limit_amount) AmountCalculationFailed)
                     (\<lambda>market_amount. Inr (market_amount, bu_zero))
              else Inr (market_amount, bu_zero))
         else Inr (market_amount, limit_amount))"

definition spread_market_order :: "order_book \<Rightarrow> limit_order \<Rightarrow> order_volume \<Rightarrow> market_order" where
  "spread_market_order book x amount =
     \<lparr> mo_owner = lo_owner x, mo_direction = lo_side x, mo_order_book_id = book_id book,
       mo_amount = amount, mo_to = None \<rparr>"

definition spec_cross_spread ::
  "order_book \<Rightarrow> book_view \<Rightarrow> limit_order \<Rightarrow> dispatch_error + market_change" where
  "spec_cross_spread book v x =
     and_then (spread_split book v x) (\<lambda>(market_amount, limit_amount).
     and_then
       (if \<not> bu_is_zero market_amount
        then spec_market_impact (book_id book) v (spread_market_order book x market_amount)
        else Inr (market_change_new (book_id book)))
       (\<lambda>market_change.
     if \<not> bu_is_zero limit_amount
     then and_then (calculate_limit_order_impact book (x \<lparr> lo_amount := limit_amount \<rparr>)) (\<lambda>placed.
          ok_or (market_change_merge market_change placed) AmountCalculationFailed)
     else Inr market_change))"

lemma reads_sbind_Inr:
  assumes "reads coh view f (Inr a) d"
    and "\<And>d'. coh d' \<Longrightarrow> view d' = view d \<Longrightarrow> reads coh view (g a) r d'"
  shows "reads coh view (sbind f g) r d"
proof -
  have "reads coh view (sbind f g) (and_then (Inr a) (\<lambda>_. r)) d"
    using assms by (intro reads_sbind) auto
  then show ?thesis by simp
qed

context DataLayer
begin

lemma market_volume_reads:
  assumes "coh d"
  shows "reads coh view (market_volume dl book side) (Inr (sum_volumes (v_agg (view d) side (book_id book)))) d"
proof -
  have "reads coh view (market_volume dl book side)
      (and_then (Inr (v_agg (view d) side (book_id book))) (\<lambda>m. Inr (sum_volumes m))) d"
    unfolding market_volume_def
    by (cases side; simp only: price_variant.case; intro reads_sbind reads_sread reads_sret
        get_aggregated_bids get_aggregated_asks assms)
  then show ?thesis by simp
qed

lemma cross_spread_reads:
  assumes coh: "coh d" and inv: "book_inv cfg dv (book_id book) (view d)"
  shows "reads coh view (cross_spread dl book x) (spec_cross_spread book (view d) x) d"
proof -
  obtain ma la where split: "calculate_market_depth_volume_to_price (switched (lo_side x)) (lo_price x) (lo_amount x)
      (market_view (view d) (book_id book) (lo_side x)) = (ma, la)" by fastforce
  show ?thesis
    unfolding cross_spread_def
  proof (rule reads_sbind_Inr [OF market_data_reads [OF coh]], goal_cases)
    case d1: (1 d1)
    then have vol: "reads coh view (market_volume dl book (switched (lo_side x)))
        (Inr (sum_volumes (v_agg (view d) (switched (lo_side x)) (book_id book)))) d1"
      using market_volume_reads [OF d1(1)] by simp
    show ?case
      unfolding spec_cross_spread_def spread_split_def split Let_def prod.case
    proof (rule reads_sbind, goal_cases)
      case 1
      show ?case
      proof (cases "la < min_lot_size book")
        case True
        show ?thesis
          unfolding if_P [OF True]
          by (rule reads_sbind_Inr [OF vol], rule reads_sbind [OF reads_slift])
            (auto intro: reads_sbind reads_slift reads_sret)
      qed (use d1 in \<open>auto intro: reads_sret\<close>)
    next
      case d2: (2 r d2)
      obtain ma' la' where r: "r = (ma', la')" by (cases r)
      have v2: "view d2 = view d" using d1 d2 by simp
      show ?case
        unfolding r prod.case spread_market_order_def
      proof (rule reads_sbind, goal_cases)
        case 1
        show ?case
          using market_order_impact_reads [OF d2(2), where book = book and dv = dv] inv v2 d2(2)
          by (auto intro: reads_sret)
      qed (auto intro!: reads_sbind reads_slift reads_sret)
    qed
  qed
qed

end

section \<open>The amounts and the changes\<close>

lemma checked_add_zero_right: "bu_checked_add a bu_zero = Some c \<Longrightarrow> c = a"
  by (auto simp: bu_checked_add_def bu_align_checked_def bu_new_def bu_zero_def checked_add_u_def
      checked_mul_u_def bu_eq_iff split: if_splits bool.splits)

lemma spread_split_amounts:
  assumes run: "spread_split book v x = Inr (ma, la)" and inv: "book_inv cfg d (book_id book) v"
    and wf: "order_wf d x"
  shows "inner ma + inner la \<le> inner (lo_amount x)" and "has_div d ma" and "has_div d la"
proof -
  obtain ma0 la0 where split: "calculate_market_depth_volume_to_price (switched (lo_side x)) (lo_price x) (lo_amount x)
      (market_view v (book_id book) (lo_side x)) = (ma0, la0)" by fastforce
  have "\<forall>e\<in>set (market_view v (book_id book) (lo_side x)). is_divisible (snd e) = d"
    using agg_level_present(2) [OF inv] by (fastforce simp: market_view_def split: price_variant.splits)
  then have s0: "inner ma0 + inner la0 = inner (lo_amount x)" "has_div d ma0" "has_div d la0"
    using depth_volume_loop_split [OF split [unfolded calculate_market_depth_volume_to_price_def], of d] wf
    by (auto simp: order_wf_def has_div_def)
  consider "ma = ma0" "la = la0" | "ma = ma0" "la = bu_zero"
    | "bu_checked_add ma0 la0 = Some ma" "la = bu_zero"
    using run unfolding spread_split_def split by (auto simp: run_simps split: if_splits)
  then have "inner ma + inner la \<le> inner (lo_amount x) \<and> has_div d ma \<and> has_div d la"
  proof cases
    case 3
    have "inner ma = inner ma0 + inner la0 \<and> has_div d ma"
    proof (cases "la0 = bu_zero")
      case True
      then show ?thesis using checked_add_zero_right 3(1) s0(2) by auto
    next
      case False
      then show ?thesis using checked_add_has_div [OF 3(1) s0(2)] s0(3) by (simp add: has_div_def)
    qed
    then show ?thesis using s0 3(2) by (simp add: has_div_def)
  qed (use s0 in \<open>auto simp: has_div_def\<close>)
  then show "inner ma + inner la \<le> inner (lo_amount x)" and "has_div d ma" and "has_div d la" by auto
qed

lemma merge_fields:
  assumes pl: "calculate_limit_order_impact book y = Inr pl" and merge: "market_change_merge mc1 pl = Some mc"
    and wf: "order_wf d y" and assets: "ob_base (book_id book) \<noteq> ob_quote (book_id book)" and none: "to_place mc1 = []"
  obtains r where "deal_amount y Taker None = Inr r"
    and "to_lock (mc_payment mc) =
      pay_entry (associated_asset r (book_id book)) (lo_owner y) (amount_value r) (to_lock (mc_payment mc1))"
    and "to_unlock (mc_payment mc) = to_unlock (mc_payment mc1)"
    and "cancelled mc = cancelled mc1" and "filled_full mc = filled_full mc1" and "filled_part mc = filled_part mc1"
    and "updated mc = updated mc1" and "placed mc = [y]"
    and "pay_order_book_id (mc_payment mc) = pay_order_book_id (mc_payment mc1)"
proof -
  obtain r where r: "deal_amount y Taker None = Inr r"
    and pl': "pl = (market_change_new (book_id book))
          \<lparr> market_input := Some r, to_place := [(lo_id y, y)],
            mc_payment := \<lparr> pay_order_book_id = book_id book,
              to_lock = [(associated_asset r (book_id book), [(lo_owner y, amount_value r)])], to_unlock = [] \<rparr> \<rparr>"
    by (rule limit_order_impact [OF pl wf assets])
  show ?thesis
    using merge none unfolding pl' market_change_merge_def
    by (intro that [OF r])
      (auto simp: bind_eq_Some_conv payment_merge_def merge_single market_change_new_def change_lists
        simp del: merge_asset_map.simps(2) split: if_splits)
qed

lemma merge_placement:
  assumes pl: "calculate_limit_order_impact book y = Inr pl" and merge: "market_change_merge mc1 pl = Some mc"
    and wf: "order_wf d y" and assets: "ob_base (book_id book) \<noteq> ob_quote (book_id book)"
    and m: "finite (dom m)" "m (lo_id y) = None"
    and mc1: "change_ok d m mc1" "change_funded (book_id book) d m mc1" "to_place mc1 = []"
      "pay_ok (asset_div (book_id book) d) (to_lock (mc_payment mc1))"
    and lock: "\<forall>a. pay_to (to_lock (mc_payment mc)) a (lo_owner y) < u128_max"
  shows "change_ok d m mc" and "change_funded (book_id book) d m mc"
    and "change_accounts mc \<subseteq> insert (lo_owner y) (change_accounts mc1)" and "placed mc = [y]"
    and "pay_order_book_id (mc_payment mc) = pay_order_book_id (mc_payment mc1)"
proof -
  from merge_fields [OF pl merge wf assets mc1(3)] obtain r where r: "deal_amount y Taker None = Inr r"
    and pays: "to_lock (mc_payment mc) =
        pay_entry (associated_asset r (book_id book)) (lo_owner y) (amount_value r) (to_lock (mc_payment mc1))"
      "to_unlock (mc_payment mc) = to_unlock (mc_payment mc1)"
    and lists: "cancelled mc = cancelled mc1" "filled_full mc = filled_full mc1" "filled_part mc = filled_part mc1"
      "updated mc = updated mc1"
    and placed: "placed mc = [y]"
    and obid: "pay_order_book_id (mc_payment mc) = pay_order_book_id (mc_payment mc1)"
    by metis
  let ?a = "associated_asset r (book_id book)"
  show "placed mc = [y]" and "pay_order_book_id (mc_payment mc) = pay_order_book_id (mc_payment mc1)"
    by (rule placed obid)+
  show ok: "change_ok d m mc" using mc1(1,3) wf by (simp add: change_ok_def lists placed)
  show "change_accounts mc \<subseteq> insert (lo_owner y) (change_accounts mc1)"
    using pay_accounts_entry [of ?a "lo_owner y" "amount_value r" "to_lock (mc_payment mc1)"]
    by (auto simp: change_accounts_def pays)
  note lockr = deal_amount_lock [OF r wf assets]
  have "pay_to (to_lock (mc_payment mc1)) ?a (lo_owner y) + inner (amount_value r) \<le> u128_max"
    using lock [rule_format, of ?a] pay_to_entry [OF mc1(4) lockr(2,3), of "lo_owner y" ?a "lo_owner y"]
    by (simp add: pays)
  note tot = pay_total_entry_exact [OF mc1(4) lockr(2) this]
  show "change_funded (book_id book) d m mc"
    unfolding change_funded_def
  proof
    fix a
    have "locked (book_id book) d (orders_after mc m) a =
        locked (book_id book) d (orders_after mc1 m) a + lock_units (book_id book) d a y"
      using locked_after [OF m(1) ok, of "book_id book" a] locked_after [OF m(1) mc1(1), of "book_id book" a] m(2) mc1(3)
      by (simp add: lists placed) (simp add: placed_def)
    then show "locked (book_id book) d (orders_after mc m) a + pay_total (to_unlock (mc_payment mc)) a \<le>
        locked (book_id book) d m a + pay_total (to_lock (mc_payment mc)) a"
      using mc1(2) [unfolded change_funded_def, rule_format, of a] tot [of a] lockr(1) [of a]
      by (simp add: pays)
  qed
qed

text \<open>What holds of the market order's change, also when it is empty.\<close>

definition sound_change :: "order_book_id \<Rightarrow> bool \<Rightarrow> book_view \<Rightarrow> account_id set \<Rightarrow> market_change \<Rightarrow> bool" where
  "sound_change obid d v parties mc \<longleftrightarrow>
     change_ok d (v_orders v obid) mc \<and> change_funded obid d (v_orders v obid) mc \<and>
     change_accounts mc \<subseteq> parties \<union> lo_owner ` ran (v_orders v obid) \<and>
     pay_order_book_id (mc_payment mc) = obid"

lemma market_change_sound:
  assumes run: "spec_market_impact obid v mo = Inr mc" and inv: "book_inv cfg d obid v"
    and amount: "is_divisible (mo_amount mo) = d" "0 < inner (mo_amount mo)"
    and assets: "ob_base obid \<noteq> ob_quote obid"
  shows "sound_change obid d v {mo_owner mo, unwrap_or (mo_to mo) (mo_owner mo)} mc"
    and "pay_ok (asset_div obid d) (to_lock (mc_payment mc))" and "to_place mc = []"
proof -
  note pay = market_payment [OF run inv amount assets]
  have "lo_owner ` fst ` set (market_fills obid v mo) \<subseteq> lo_owner ` ran (v_orders v obid)"
    using market_fills_orders(1) [OF inv amount(2)] by (force simp: ran_def)
  then have "change_accounts mc \<subseteq> {mo_owner mo, unwrap_or (mo_to mo) (mo_owner mo)} \<union> lo_owner ` ran (v_orders v obid)"
    using subset_trans [OF pay(5) insert_mono] by (simp add: change_accounts_def pay(1) insert_commute subset_insertI2)
  then show "sound_change obid d v {mo_owner mo, unwrap_or (mo_to mo) (mo_owner mo)} mc"
    using market_change_ok [OF run inv amount] market_change_funded [OF run inv amount assets] pay(6)
    by (simp add: sound_change_def)
  show "pay_ok (asset_div obid d) (to_lock (mc_payment mc))"
    using pay(1) assets
    by (cases "mo_direction mo") (auto simp: maker_div_def maker_out_asset_def asset_div_def)
  show "to_place mc = []"
    using market_lists(5) [OF inv market_impact_end(1) [OF run inv amount]] by (simp add: placed_def)
qed

lemma empty_change_sound:
  "sound_change obid d v parties (market_change_new obid)"
  "pay_ok D (to_lock (mc_payment (market_change_new obid)))" "to_place (market_change_new obid) = []"
  by (auto simp: sound_change_def market_change_new_def payment_new_def change_ok_def change_funded_def
      change_lists change_accounts_def orders_after_def del_orders_def put_orders_def pay_ok_def)

lemma cross_spread_run:
  assumes run: "spec_cross_spread book v x = Inr mc" and inv: "book_inv cfg d (book_id book) v"
    and wf: "order_wf d x" and assets: "ob_base (book_id book) \<noteq> ob_quote (book_id book)"
  obtains ma la mc1 where "spread_split book v x = Inr (ma, la)"
    and "if bu_is_zero ma then mc1 = market_change_new (book_id book)
      else is_divisible ma = d \<and> 0 < inner ma \<and>
        spec_market_impact (book_id book) v (spread_market_order book x ma) = Inr mc1"
    and "if bu_is_zero la then mc = mc1
      else order_wf d (x \<lparr> lo_amount := la \<rparr>) \<and> (\<exists>pl. calculate_limit_order_impact book (x \<lparr> lo_amount := la \<rparr>) = Inr pl \<and>
        market_change_merge mc1 pl = Some mc)"
    and "sound_change (book_id book) d v {lo_owner x} mc1"
    and "pay_ok (asset_div (book_id book) d) (to_lock (mc_payment mc1))" and "to_place mc1 = []"
    and "pay_accounts (to_lock (mc_payment mc1)) \<subseteq> {lo_owner x}"
proof -
  from run obtain ma la mc1 where split: "spread_split book v x = Inr (ma, la)"
    and mc1: "(if \<not> bu_is_zero ma then spec_market_impact (book_id book) v (spread_market_order book x ma)
        else Inr (market_change_new (book_id book))) = Inr mc1"
    and rest: "(if \<not> bu_is_zero la
        then and_then (calculate_limit_order_impact book (x \<lparr> lo_amount := la \<rparr>)) (\<lambda>placed.
          ok_or (market_change_merge mc1 placed) AmountCalculationFailed)
        else Inr mc1) = Inr mc"
    by (auto simp: spec_cross_spread_def run_simps)
  note am = spread_split_amounts [OF split inv wf]
  have ma: "is_divisible ma = d \<and> 0 < inner ma" if "\<not> bu_is_zero ma"
    using that am(2) by (auto simp: has_div_def bu_is_zero_def)
  have la: "order_wf d (x \<lparr> lo_amount := la \<rparr>)" if "\<not> bu_is_zero la"
    using that am wf by (auto simp: order_wf_def has_div_def bu_is_zero_def)
  have "sound_change (book_id book) d v {lo_owner x} mc1
      \<and> pay_ok (asset_div (book_id book) d) (to_lock (mc_payment mc1)) \<and> to_place mc1 = []
      \<and> pay_accounts (to_lock (mc_payment mc1)) \<subseteq> {lo_owner x}"
  proof (cases "bu_is_zero ma")
    case True
    then have mc: "mc1 = market_change_new (book_id book)" using mc1 by simp
    have "pay_accounts (to_lock (mc_payment mc1)) = {}"
      by (simp add: mc market_change_new_def payment_new_def)
    then show ?thesis by (simp add: mc empty_change_sound)
  next
    case False
    let ?mo = "spread_market_order book x ma"
    have amt: "is_divisible (mo_amount ?mo) = d" "0 < inner (mo_amount ?mo)"
      using ma [OF False] by (simp_all add: spread_market_order_def)
    have sp: "spec_market_impact (book_id book) v ?mo = Inr mc1" using mc1 False by simp
    have "pay_accounts (to_lock (mc_payment mc1)) = {lo_owner x}"
      unfolding market_payment(1) [OF sp inv amt assets] by (simp add: spread_market_order_def)
    then show ?thesis
      using market_change_sound [OF sp inv amt assets] by (simp add: spread_market_order_def)
  qed
  with split mc1 rest ma la show ?thesis
    by (intro that [of ma la mc1]) (auto simp: run_simps split: if_splits)
qed

lemma cross_spread_payers:
  assumes run: "spec_cross_spread book v x = Inr mc" and inv: "book_inv cfg d (book_id book) v"
    and wf: "order_wf d x" and assets: "ob_base (book_id book) \<noteq> ob_quote (book_id book)"
  shows "pay_accounts (to_lock (mc_payment mc)) \<subseteq> {lo_owner x}"
    and "pay_order_book_id (mc_payment mc) = book_id book"
proof -
  from cross_spread_run [OF run inv wf assets] obtain la mc1 where
      mc: "if bu_is_zero la then mc = mc1
        else order_wf d (x \<lparr> lo_amount := la \<rparr>) \<and> (\<exists>pl. calculate_limit_order_impact book (x \<lparr> lo_amount := la \<rparr>) = Inr pl \<and>
          market_change_merge mc1 pl = Some mc)"
    and mc1: "sound_change (book_id book) d v {lo_owner x} mc1" "to_place mc1 = []"
      "pay_accounts (to_lock (mc_payment mc1)) \<subseteq> {lo_owner x}"
    by metis
  have "pay_accounts (to_lock (mc_payment mc)) \<subseteq> {lo_owner x} \<and> pay_order_book_id (mc_payment mc) = book_id book"
  proof (cases "bu_is_zero la")
    case True
    then show ?thesis using mc mc1 by (simp add: sound_change_def)
  next
    case False
    let ?y = "x \<lparr> lo_amount := la \<rparr>"
    from mc False obtain pl where "calculate_limit_order_impact book ?y = Inr pl" "market_change_merge mc1 pl = Some mc"
      "order_wf d ?y" by auto
    from merge_fields [OF this assets mc1(2)] obtain r
      where l: "to_lock (mc_payment mc) =
          pay_entry (associated_asset r (book_id book)) (lo_owner x) (amount_value r) (to_lock (mc_payment mc1))"
        and i: "pay_order_book_id (mc_payment mc) = pay_order_book_id (mc_payment mc1)"
      by (metis limit_order.select_convs(2) limit_order.surjective limit_order.update_convs(6))
    have "pay_accounts (to_lock (mc_payment mc)) \<subseteq> insert (lo_owner x) (pay_accounts (to_lock (mc_payment mc1)))"
      unfolding l by (rule pay_accounts_entry)
    then show ?thesis using mc1(1,3) i by (auto simp: sound_change_def)
  qed
  then show "pay_accounts (to_lock (mc_payment mc)) \<subseteq> {lo_owner x}"
    and "pay_order_book_id (mc_payment mc) = book_id book" by auto
qed

lemma cross_spread_change:
  assumes run: "spec_cross_spread book v x = Inr mc" and inv: "book_inv cfg d (book_id book) v"
    and wf: "order_wf d x" and assets: "ob_base (book_id book) \<noteq> ob_quote (book_id book)"
    and new: "v_orders v (book_id book) (lo_id x) = None"
    and lock: "\<forall>a. pay_to (to_lock (mc_payment mc)) a (lo_owner x) < u128_max"
  shows "sound_change (book_id book) d v {lo_owner x} mc" and "\<forall>y\<in>set (placed mc). \<exists>l. y = x \<lparr> lo_amount := l \<rparr>"
proof -
  let ?m = "v_orders v (book_id book)"
  from cross_spread_run [OF run inv wf assets] obtain la mc1 where
      rest: "if bu_is_zero la then mc = mc1
        else order_wf d (x \<lparr> lo_amount := la \<rparr>) \<and> (\<exists>pl. calculate_limit_order_impact book (x \<lparr> lo_amount := la \<rparr>) = Inr pl \<and>
          market_change_merge mc1 pl = Some mc)"
    and sound1: "sound_change (book_id book) d v {lo_owner x} mc1"
      "pay_ok (asset_div (book_id book) d) (to_lock (mc_payment mc1))" "to_place mc1 = []"
    by metis
  have "sound_change (book_id book) d v {lo_owner x} mc \<and> (\<forall>y\<in>set (placed mc). \<exists>l. y = x \<lparr> lo_amount := l \<rparr>)"
  proof (cases "bu_is_zero la")
    case True
    then show ?thesis using rest sound1 by (simp add: placed_def)
  next
    case False
    let ?y = "x \<lparr> lo_amount := la \<rparr>"
    from rest False obtain pl where wf': "order_wf d ?y" and "calculate_limit_order_impact book ?y = Inr pl"
      and "market_change_merge mc1 pl = Some mc" by auto
    note mp = merge_placement [OF this(2,3,1) assets, where m = ?m]
    have "finite (dom ?m)" using inv by (simp add: book_inv_def)
    with mp sound1 new lock show ?thesis by (auto simp: sound_change_def)
  qed
  then show "sound_change (book_id book) d v {lo_owner x} mc" and "\<forall>y\<in>set (placed mc). \<exists>l. y = x \<lparr> lo_amount := l \<rparr>" by auto
qed

section \<open>The limit price\<close>

lemma fills_within:
  assumes "0 < n" and "n \<le> sum_list (map (inner \<circ> lo_amount) xs)"
  shows "fst ` set (fills n (xs @ ys)) \<subseteq> set xs"
  using assms
proof (induction xs arbitrary: n)
  case (Cons x xs)
  show ?case
  proof (cases "inner (lo_amount x) < n")
    case True
    then have "fst ` set (fills (n - inner (lo_amount x)) (xs @ ys)) \<subseteq> set xs"
      using Cons.prems by (intro Cons.IH) auto
    then show ?thesis using True by auto
  qed auto
qed simp

lemma level_orders_volume:
  assumes "book_inv cfg d obid v" and "(p, vol) \<in> set (v_agg v side obid)"
  shows "sum_list (map (inner \<circ> lo_amount) (level_orders v side obid p)) = inner vol"
  using agg_level_present(2) [OF assms] by (auto simp: level_orders_def level_volume_def comp_def)

lemma levels_volume:
  assumes "book_inv cfg d obid v" and "set es \<subseteq> set (v_agg v side obid)"
  shows "sum_list (map (inner \<circ> lo_amount) (concat (map (\<lambda>(p, _). level_orders v side obid p) es))) = volume_of es"
  using assms(2) by (induction es) (auto simp: volume_of_def level_orders_volume [OF assms(1)])

lemma reached_subset: "set (reached ord price (market_view v obid direction)) \<subseteq> set (v_agg v (switched direction) obid)"
  using market_view_agg [of v obid direction] by (auto simp: reached_def dest: set_takeWhileD)

lemma reached_queue:
  "best_queue v obid direction =
     concat (map (\<lambda>(p, _). level_orders v (switched direction) obid p) (reached ord price (market_view v obid direction))) @
     concat (map (\<lambda>(p, _). level_orders v (switched direction) obid p)
       (dropWhile (\<lambda>e. bu_cmp (fst e) price \<noteq> ord) (market_view v obid direction)))"
  unfolding best_queue_def reached_def by (metis concat_append map_append takeWhile_dropWhile_id)

lemma spread_fills_price:
  assumes inv: "book_inv cfg d obid v" and n: "0 < n" "n \<le> volume_of (reached ord price (market_view v obid direction))"
    and f: "f \<in> set (fills n (best_queue v obid direction))"
  shows "bu_cmp (lo_price (fst f)) price \<noteq> ord"
proof -
  let ?lev = "\<lambda>(p, _). level_orders v (switched direction) obid p"
  let ?r = "reached ord price (market_view v obid direction)"
  have "fst f \<in> set (concat (map ?lev ?r))"
    using fills_within [OF n(1), of "concat (map ?lev ?r)"] n(2) f levels_volume [OF inv reached_subset]
    unfolding reached_queue [of v obid direction ord price] by fastforce
  then obtain e where "e \<in> set ?r" and "fst f \<in> set (level_orders v (switched direction) obid (fst e))" by auto
  then show ?thesis
    using level_orders_price(1) [OF inv] by (auto simp: reached_def dest: set_takeWhileD)
qed

text \<open>
  A limit order that crosses the spread is executed at prices it accepts, unless what is left over at
  its price is a remainder below the minimal lot.
\<close>

definition accepts_price :: "limit_order \<Rightarrow> order_price \<Rightarrow> bool" where
  "accepts_price x p = (case lo_side x of Buy \<Rightarrow> p \<le> lo_price x | Sell \<Rightarrow> lo_price x \<le> p)"

lemma spread_split_price:
  assumes run: "spread_split book v x = Inr (ma, la)" and inv: "book_inv cfg d (book_id book) v"
    and wf: "order_wf d x"
    and depth: "calculate_market_depth_volume_to_price (switched (lo_side x)) (lo_price x) (lo_amount x)
      (market_view v (book_id book) (lo_side x)) = (m0, l0)"
    and l0: "bu_is_zero l0 \<or> min_lot_size book \<le> l0"
    and f: "0 < inner ma" "f \<in> set (market_fills (book_id book) v (spread_market_order book x ma))"
  shows "accepts_price x (lo_price (fst f))"
proof -
  let ?m = "market_view v (book_id book) (lo_side x)"
  let ?ord = "case switched (lo_side x) of Buy \<Rightarrow> Less | Sell \<Rightarrow> Greater"
  have "\<forall>e\<in>set ?m. is_divisible (snd e) = d"
    using agg_level_present(2) [OF inv] by (fastforce simp: market_view_def split: price_variant.splits)
  then have s0: "inner m0 \<le> volume_of (reached ?ord (lo_price x) ?m)" "has_div d m0" "has_div d l0"
    using depth_volume_loop_split [OF depth [unfolded calculate_market_depth_volume_to_price_def], of d] wf
    by (auto simp: order_wf_def has_div_def)
  have "ma = m0 \<or> bu_is_zero l0 \<and> bu_checked_add m0 l0 = Some ma"
    using run l0 unfolding spread_split_def depth by (auto simp: run_simps not_less bu_less_eq_value bu_less_value split: if_splits)
  then have "inner ma \<le> volume_of (reached ?ord (lo_price x) ?m)"
  proof
    assume "bu_is_zero l0 \<and> bu_checked_add m0 l0 = Some ma"
    moreover from this have "inner ma = inner m0"
      using checked_add_has_div(1) [of m0 l0 ma d] s0(2,3)
      by (auto simp: has_div_def bu_is_zero_def dest: checked_add_zero_right)
    ultimately show ?thesis using s0 by simp
  qed (use s0 in simp)
  from spread_fills_price [OF inv f(1) this, of f] f(2)
  have "bu_cmp (lo_price (fst f)) (lo_price x) \<noteq> ?ord" by (simp add: market_fills_def spread_market_order_def)
  then show ?thesis
    by (cases "lo_side x") (auto simp: accepts_price_def bu_cmp_value nat_cmp_def bu_less_eq_value split: if_splits)
qed

end
