(* ===== verification/Uncrossed.thy ===== *)
theory Uncrossed
  imports Cross_Spread
begin

text \<open>
  A book is never crossed: every bid is below every ask. A limit order that does not cross the spread
  is placed apart from the other side; one that does is placed only with what is left after every
  order it accepts was filled.
\<close>

definition uncrossed :: "(order_id \<Rightarrow> limit_order option) \<Rightarrow> bool" where
  "uncrossed m \<longleftrightarrow>
     (\<forall>i j x y. m i = Some x \<longrightarrow> m j = Some y \<longrightarrow> lo_side x = Buy \<longrightarrow> lo_side y = Sell \<longrightarrow> lo_price x < lo_price y)"

section \<open>The book after a change\<close>

text \<open>Every order is new, or an old one of which only the amount changed.\<close>

lemma orders_after_origin:
  assumes ok: "change_ok d m mc" and x: "orders_after mc m i = Some x"
  shows "(\<exists>y. m i = Some y \<and> x = y \<lparr> lo_amount := lo_amount x \<rparr> \<and> inner (lo_amount x) \<le> inner (lo_amount y)) \<or>
    x \<in> set (placed mc) \<and> lo_id x = i"
proof -
  have put: "put_orders xs m' i = Some x \<Longrightarrow> x \<in> set xs \<and> lo_id x = i \<or> m' i = Some x" for xs m'
    by (induction xs arbitrary: m') (fastforce simp: put_orders_def split: if_splits)+
  have "x \<in> set (placed mc) \<and> lo_id x = i \<or> x \<in> set (filled_part mc @ updated mc) \<and> lo_id x = i \<or> m i = Some x"
    using x unfolding orders_after_def by (auto dest!: put simp: del_orders_get split: if_splits)
  then consider "x \<in> set (placed mc)" "lo_id x = i" | y where "m i = Some y" "shrinks_to y x" | "m i = Some x"
    using ok unfolding change_ok_def by blast
  then show ?thesis by cases (auto simp: shrinks_to_def)
qed

text \<open>After a market order.\<close>

definition after_fills ::
  "bool \<Rightarrow> (limit_order \<times> nat) list \<Rightarrow> (order_id \<Rightarrow> limit_order option) \<Rightarrow> order_id \<Rightarrow> limit_order option" where
  "after_fills d fs m i =
     (case map_of (map (\<lambda>f. (lo_id (fst f), f)) fs) i of
        None \<Rightarrow> m i
      | Some f \<Rightarrow> if is_full f then None else Some (reduced d f))"

lemma market_orders_after:
  assumes inv: "book_inv cfg d obid v"
    and mc: "mc = impact_result obid (mo_direction mo) owner receiver (market_end obid d v mo)"
  shows "orders_after mc (v_orders v obid) = after_fills d (market_fills obid v mo) (v_orders v obid)"
    and "count_of_executed_orders mc = min u64_max (length (market_fills obid v mo))"
proof -
  let ?fs = "market_fills obid v mo" and ?m = "v_orders v obid"
  let ?ps = "map (\<lambda>f. (lo_id (fst f), f)) ?fs"
  note l = market_lists [OF inv mc]
  have full: "set (filled_full mc) = fst ` set (filter is_full ?fs)"
    using arg_cong [OF l(1), of set_mset] by simp
  have part: "set (filled_part mc) = reduced d ` set (filter (\<lambda>f. \<not> is_full f) ?fs)"
    using arg_cong [OF l(2), of set_mset] by simp
  have dist: "distinct (map (lo_id \<circ> fst) ?fs)" by (rule market_fills_distinct [OF inv])
  have same: "f = f'" if "f \<in> set ?fs" "f' \<in> set ?fs" "lo_id (fst f) = lo_id (fst f')" for f f'
    using dist that by (auto simp: distinct_map inj_on_def)
  have id: "lo_id (reduced d f) = lo_id (fst f)" for f by (cases f) (simp add: reduced_def)
  have "mset (map lo_id (filled_part mc)) = mset (map (lo_id \<circ> fst) (filter (\<lambda>f. \<not> is_full f) ?fs))"
    using arg_cong [OF l(2), of "image_mset lo_id"] by (simp add: multiset.map_comp comp_def id)
  moreover have "distinct (map (lo_id \<circ> fst) (filter (\<lambda>f. \<not> is_full f) ?fs))" by (rule distinct_map_filter [OF dist])
  ultimately have dpart: "distinct (map lo_id (filled_part mc))" using mset_eq_imp_distinct_iff by blast
  show "orders_after mc ?m = after_fills d ?fs ?m"
  proof
    fix i
    have ids: "i \<in> lo_id ` set (filled_full mc) \<longleftrightarrow> (\<exists>f\<in>set ?fs. is_full f \<and> lo_id (fst f) = i)"
      "i \<in> lo_id ` set (filled_part mc) \<longleftrightarrow> (\<exists>f\<in>set ?fs. \<not> is_full f \<and> lo_id (fst f) = i)"
      unfolding full part image_image by (auto simp only: id set_filter image_iff)
    have after: "orders_after mc ?m i = put_orders (filled_part mc) (del_orders (filled_full mc) ?m) i"
      by (simp add: orders_after_def l(3-5) del_orders_def put_orders_def)
    show "orders_after mc ?m i = after_fills d ?fs ?m i"
    proof (cases "map_of ?ps i")
      case None
      then have "\<forall>f\<in>set ?fs. lo_id (fst f) \<noteq> i" by (auto simp only: map_of_eq_None_iff set_map image_image fst_conv)
      then have "i \<notin> lo_id ` set (filled_full mc)" "i \<notin> lo_id ` set (filled_part mc)" unfolding ids by auto
      then show ?thesis by (simp add: after after_fills_def None put_orders_other del_orders_get)
    next
      case (Some f)
      then have f: "f \<in> set ?fs" "lo_id (fst f) = i" by (auto dest: map_of_SomeD)
      show ?thesis
      proof (cases "is_full f")
        case True
        then have "i \<in> lo_id ` set (filled_full mc)" "i \<notin> lo_id ` set (filled_part mc)"
          unfolding ids using f same by blast+
        then show ?thesis using True by (simp add: after after_fills_def Some put_orders_other del_orders_get)
      next
        case False
        then have "reduced d f \<in> set (filled_part mc)" using f unfolding part by auto
        from put_orders_get [OF dpart this] show ?thesis using False f by (simp add: after after_fills_def Some id)
      qed
    qed
  qed
  have "length (filled_full mc) + length (filled_part mc) = length ?fs"
    using arg_cong [OF l(1), of size] arg_cong [OF l(2), of size] sum_length_filter_compl [of is_full ?fs]
    unfolding size_mset length_map by simp
  then show "count_of_executed_orders mc = min u64_max (length ?fs)"
    by (simp add: count_of_executed_orders_def saturating_add_u_def filled_full_def filled_part_def)
qed

section \<open>Orders that do not cross\<close>

definition spec_crosses :: "book_view \<Rightarrow> order_book_id \<Rightarrow> limit_order \<Rightarrow> bool" where
  "spec_crosses v obid x =
     (case lo_side x of
        Buy \<Rightarrow> (case side_min (v_agg v Sell obid) of Some (p, _) \<Rightarrow> p \<le> lo_price x | None \<Rightarrow> False)
      | Sell \<Rightarrow> (case side_max (v_agg v Buy obid) of Some (p, _) \<Rightarrow> lo_price x \<le> p | None \<Rightarrow> False))"

lemma side_None: "side_min m = None \<longleftrightarrow> m = []" "side_max m = None \<longleftrightarrow> m = []"
  by (cases m; simp)+

lemma side_min_le: "side_min m = Some e \<Longrightarrow> e' \<in> set m \<Longrightarrow> fst e \<le> fst e'"
proof (induction m arbitrary: e)
  case (Cons x m)
  show ?case
  proof (cases "side_min m")
    case None
    then show ?thesis using Cons.prems by (auto simp: side_None)
  next
    case (Some y)
    then show ?thesis
      using Cons.prems Cons.IH [OF Some] by (fastforce simp: entry_less_def bu_less_eq_value bu_less_value split: if_splits)
  qed
qed simp

lemma side_max_ge: "side_max m = Some e \<Longrightarrow> e' \<in> set m \<Longrightarrow> fst e' \<le> fst e"
proof (induction m arbitrary: e)
  case (Cons x m)
  show ?case
  proof (cases "side_max m")
    case None
    then show ?thesis using Cons.prems by (auto simp: side_None)
  next
    case (Some y)
    then show ?thesis
      using Cons.prems Cons.IH [OF Some] by (fastforce simp: entry_less_def bu_less_eq_value bu_less_value split: if_splits)
  qed
qed simp

lemma order_in_market:
  assumes inv: "book_inv cfg d obid v" and y: "v_orders v obid i = Some y" and side: "lo_side y = switched direction"
  shows "\<exists>vol. (lo_price y, vol) \<in> set (market_view v obid direction) \<and>
    y \<in> set (level_orders v (switched direction) obid (lo_price y))"
proof -
  from best_queue_complete [OF inv y side] obtain e where e: "e \<in> set (market_view v obid direction)"
    and mem: "y \<in> set (level_orders v (switched direction) obid (fst e))"
    by (auto simp: best_queue_def)
  with level_orders_price(1) [OF inv mem] show ?thesis by (metis prod.collapse)
qed

lemma not_crossing:
  assumes inv: "book_inv cfg d obid v" and no: "\<not> spec_crosses v obid x"
    and y: "v_orders v obid i = Some y" "lo_side y = switched (lo_side x)"
  shows "\<not> accepts_price x (lo_price y)"
proof -
  from order_in_market [OF inv y] obtain vol where mem: "(lo_price y, vol) \<in> set (v_agg v (switched (lo_side x)) obid)"
    by (auto simp: market_view_agg)
  show ?thesis
  proof (cases "lo_side x")
    case Buy
    then obtain p q where best: "side_min (v_agg v Sell obid) = Some (p, q)"
      using mem by (cases "side_min (v_agg v Sell obid)") (auto simp: side_None)
    then have "\<not> p \<le> lo_price x" using no Buy by (simp add: spec_crosses_def)
    moreover have "p \<le> lo_price y" using side_min_le [OF best] mem Buy by fastforce
    ultimately show ?thesis using Buy by (auto simp: accepts_price_def bu_less_eq_value)
  next
    case Sell
    then obtain p q where best: "side_max (v_agg v Buy obid) = Some (p, q)"
      using mem by (cases "side_max (v_agg v Buy obid)") (auto simp: side_None)
    then have "\<not> lo_price x \<le> p" using no Sell by (simp add: spec_crosses_def)
    moreover have "lo_price y \<le> p" using side_max_ge [OF best] mem Sell by fastforce
    ultimately show ?thesis using Sell by (auto simp: accepts_price_def bu_less_eq_value)
  qed
qed

section \<open>Orders that cross\<close>

lemma fills_all:
  assumes "\<forall>x\<in>set xs. 0 < inner (lo_amount x)" and "y \<in> set xs"
  shows "(y, inner (lo_amount y)) \<in> set (fills (sum_list (map (inner \<circ> lo_amount) xs)) (xs @ ys))"
  using assms
proof (induction xs)
  case (Cons x xs)
  have rest: "sum_list (map (inner \<circ> lo_amount) xs) \<noteq> 0" if "y \<in> set xs"
  proof -
    have "inner (lo_amount y) \<le> sum_list (map (inner \<circ> lo_amount) xs)"
      using that by (intro member_le_sum_list) auto
    then show ?thesis using Cons.prems(1) that by auto
  qed
  show ?case using Cons rest by auto
qed simp

lemma concat_levels_mem:
  "z \<in> set (concat (map (\<lambda>(p, _). level_orders v side obid p) es)) \<longleftrightarrow>
     (\<exists>p vol. (p, vol) \<in> set es \<and> z \<in> set (level_orders v side obid p))"
  by auto

lemma accepted_reached:
  assumes "sorted_wrt (better_price (lo_side x)) (map fst m)" and "e \<in> set m" and "accepts_price x (fst e)"
  shows "e \<in> set (takeWhile (\<lambda>e. accepts_price x (fst e)) m)"
  using assms
proof (induction m)
  case (Cons h m)
  show ?case
  proof (cases "e = h")
    case False
    then have "better_price (lo_side x) (fst h) (fst e)" and "e \<in> set m" using Cons.prems by auto
    then have "accepts_price x (fst h)"
      using Cons.prems(3) by (cases "lo_side x") (auto simp: accepts_price_def better_price_def bu_less_value bu_less_eq_value)
    with Cons False show ?thesis by auto
  qed (use Cons.prems in auto)
qed simp

text \<open>What a crossing order leaves over is placed only if all orders that it accepts are filled.\<close>

lemma crossing_takes_all:
  assumes run: "spread_split book v x = Inr (ma, la)" and inv: "book_inv cfg d (book_id book) v" and wf: "order_wf d x"
    and la: "\<not> bu_is_zero la"
    and y: "v_orders v (book_id book) i = Some y" "lo_side y = switched (lo_side x)" "accepts_price x (lo_price y)"
  shows "0 < inner ma" and "(y, inner (lo_amount y)) \<in> set (market_fills (book_id book) v (spread_market_order book x ma))"
proof -
  let ?obid = "book_id book" and ?dir = "lo_side x"
  let ?m = "market_view v ?obid ?dir" and ?lev = "\<lambda>(p, _). level_orders v (switched ?dir) ?obid p"
  let ?ord = "case switched ?dir of Buy \<Rightarrow> Less | Sell \<Rightarrow> Greater"
  let ?r = "reached ?ord (lo_price x) ?m"
  obtain m0 l0 where depth: "calculate_market_depth_volume_to_price (switched ?dir) (lo_price x) (lo_amount x) ?m = (m0, l0)"
    by (cases "calculate_market_depth_volume_to_price (switched ?dir) (lo_price x) (lo_amount x) ?m")
  have ml: "m0 = ma" "l0 = la"
    using run la unfolding spread_split_def depth by (auto simp: run_simps bu_is_zero_def bu_zero_def split: if_splits)
  have "\<forall>e\<in>set ?m. is_divisible (snd e) = d"
    using agg_level_present(2) [OF inv] by (fastforce simp: market_view_def split: price_variant.splits)
  then have ma: "inner ma = volume_of ?r"
    using depth_volume_loop_split [OF depth [unfolded calculate_market_depth_volume_to_price_def], of d] wf la ml
    by (auto simp: order_wf_def has_div_def bu_is_zero_def)
  have acc: "bu_cmp p (lo_price x) \<noteq> ?ord \<longleftrightarrow> accepts_price x p" for p
    by (cases ?dir) (auto simp: accepts_price_def bu_cmp_value nat_cmp_def bu_less_eq_value split: if_splits)
  from order_in_market [OF inv y(1,2)] obtain vol where vol: "(lo_price y, vol) \<in> set ?m"
    and lev: "y \<in> set (level_orders v (switched ?dir) ?obid (lo_price y))" by blast
  have "(lo_price y, vol) \<in> set (takeWhile (\<lambda>e. accepts_price x (fst e)) ?m)"
    by (rule accepted_reached [OF market_view_sorted [OF inv] vol]) (use y(3) in simp)
  then have "(lo_price y, vol) \<in> set ?r" by (simp add: reached_def acc)
  with lev have mem: "y \<in> set (concat (map ?lev ?r))" unfolding concat_levels_mem by blast
  have pos: "\<forall>z\<in>set (concat (map ?lev ?r)). 0 < inner (lo_amount z)"
  proof
    fix z
    assume "z \<in> set (concat (map ?lev ?r))"
    then obtain p where "z \<in> set (level_orders v (switched ?dir) ?obid p)" unfolding concat_levels_mem by blast
    from level_orders_price(4) [OF inv this] show "0 < inner (lo_amount z)" by (simp add: order_wf_def)
  qed
  have sum: "inner ma = sum_list (map (inner \<circ> lo_amount) (concat (map ?lev ?r)))"
    using levels_volume [OF inv reached_subset] ma by metis
  show "(y, inner (lo_amount y)) \<in> set (market_fills ?obid v (spread_market_order book x ma))"
    using fills_all [OF pos mem] reached_queue [of v ?obid ?dir ?ord "lo_price x"] sum
    by (simp add: market_fills_def spread_market_order_def)
  have "inner (lo_amount y) \<le> inner ma"
    unfolding sum
  proof (rule member_le_sum_list)
    show "inner (lo_amount y) \<in> set (map (inner \<circ> lo_amount) (concat (map ?lev ?r)))"
      unfolding set_map comp_def by (rule imageI [OF mem])
  qed (rule le0)
  with pos mem show "0 < inner ma" using less_le_trans by blast
qed

section \<open>Placing keeps a book uncrossed\<close>

lemma uncrossed_shrink:
  assumes "uncrossed m" and "\<And>i y. m' i = Some y \<Longrightarrow> \<exists>x. m i = Some x \<and> lo_side y = lo_side x \<and> lo_price y = lo_price x"
  shows "uncrossed m'"
  using assms unfolding uncrossed_def by metis

lemma uncrossed_insert:
  assumes "uncrossed m" and "\<And>i y. m i = Some y \<Longrightarrow> lo_side y = switched (lo_side x) \<Longrightarrow> \<not> accepts_price x (lo_price y)"
  shows "uncrossed (m(i := Some x))"
  unfolding uncrossed_def
proof (intro allI impI)
  fix j k a b
  assume ab: "(m(i := Some x)) j = Some a" "(m(i := Some x)) k = Some b" "lo_side a = Buy" "lo_side b = Sell"
  have far: "\<not> lo_price b \<le> lo_price x" if "lo_side x = Buy" "m k = Some b"
    using assms(2) [OF that(2)] that ab(4) by (simp add: accepts_price_def)
  have far': "\<not> lo_price x \<le> lo_price a" if "lo_side x = Sell" "m j = Some a"
    using assms(2) [OF that(2)] that ab(3) by (simp add: accepts_price_def)
  show "lo_price a < lo_price b"
    using ab assms(1) far far' by (auto simp: uncrossed_def bu_less_eq_value bu_less_value split: if_splits)
qed

lemma place_uncrossed:
  assumes un: "uncrossed (v_orders v (book_id book))" and inv: "book_inv cfg d (book_id book) v" and wf: "order_wf d x"
    and assets: "ob_base (book_id book) \<noteq> ob_quote (book_id book)" and new: "v_orders v (book_id book) (lo_id x) = None"
    and change: "if spec_crosses v (book_id book) x then spec_cross_spread book v x = Inr mc
      else calculate_limit_order_impact book x = Inr mc"
  shows "uncrossed (orders_after mc (v_orders v (book_id book)))"
proof -
  let ?obid = "book_id book" and ?m = "v_orders v (book_id book)"
  have fin: "finite (dom ?m)" using inv by (simp add: book_inv_def)
  show ?thesis
  proof (cases "spec_crosses v ?obid x")
    case False
    then have "calculate_limit_order_impact book x = Inr mc" using change by simp
    from limit_order_change(6) [OF this wf assets fin new] have "orders_after mc ?m = ?m(lo_id x \<mapsto> x)" .
    then show ?thesis using uncrossed_insert [OF un not_crossing [OF inv False]] by simp
  next
    case True
    then have "spec_cross_spread book v x = Inr mc" using change by simp
    from cross_spread_run [OF this inv wf assets] obtain ma la mc1 where split: "spread_split book v x = Inr (ma, la)"
      and mc1: "if bu_is_zero ma then mc1 = market_change_new ?obid
        else is_divisible ma = d \<and> 0 < inner ma \<and> spec_market_impact ?obid v (spread_market_order book x ma) = Inr mc1"
      and mc: "if bu_is_zero la then mc = mc1
        else order_wf d (x \<lparr> lo_amount := la \<rparr>) \<and> (\<exists>pl. calculate_limit_order_impact book (x \<lparr> lo_amount := la \<rparr>) = Inr pl \<and>
          market_change_merge mc1 pl = Some mc)"
      and sound: "sound_change ?obid d v {lo_owner x} mc1" and none: "to_place mc1 = []"
      by metis
    have ok: "change_ok d ?m mc1" and none': "placed mc1 = []" using sound none by (simp_all add: sound_change_def placed_def)
    let ?fs = "market_fills ?obid v (spread_market_order book x ma)"
    have after: "orders_after mc1 ?m = (if bu_is_zero ma then ?m else after_fills d ?fs ?m)"
    proof (cases "bu_is_zero ma")
      case True
      then show ?thesis using mc1 by (simp add: market_change_new_def orders_after_def change_lists del_orders_def put_orders_def)
    next
      case False
      let ?mo = "spread_market_order book x ma"
      have "is_divisible (mo_amount ?mo) = d" "0 < inner (mo_amount ?mo)" "spec_market_impact ?obid v ?mo = Inr mc1"
        using mc1 False by (simp_all add: spread_market_order_def)
      from market_impact_end(1) [OF this(3) inv this(1,2)] market_orders_after(1) [OF inv] False show ?thesis by simp
    qed
    have kept: "\<exists>y0. ?m i = Some y0 \<and> lo_side y = lo_side y0 \<and> lo_price y = lo_price y0"
      if y: "orders_after mc1 ?m i = Some y" for i y
    proof -
      from orders_after_origin [OF ok y] none' obtain y0 where y0: "?m i = Some y0" and eq: "y = y0 \<lparr> lo_amount := lo_amount y \<rparr>"
        by auto
      have "lo_side y = lo_side y0" "lo_price y = lo_price y0" by (subst eq; simp)+
      with y0 show ?thesis by blast
    qed
    have un1: "uncrossed (orders_after mc1 ?m)" by (rule uncrossed_shrink [OF un kept])
    show ?thesis
    proof (cases "bu_is_zero la")
      case True
      then show ?thesis using mc un1 by simp
    next
      case False
      let ?y = "x \<lparr> lo_amount := la \<rparr>"
      from mc False obtain pl where pl: "calculate_limit_order_impact book ?y = Inr pl" "market_change_merge mc1 pl = Some mc"
        "order_wf d ?y" by auto
      from merge_fields [OF pl assets none] have lists: "cancelled mc = cancelled mc1" "filled_full mc = filled_full mc1"
        "filled_part mc = filled_part mc1" "updated mc = updated mc1" "placed mc = [?y]" by metis+
      then have "orders_after mc ?m = (orders_after mc1 ?m)(lo_id x \<mapsto> ?y)"
        by (simp add: orders_after_def lists put_orders_def none')
      moreover have "\<not> accepts_price ?y (lo_price z)" if z: "orders_after mc1 ?m i = Some z" "lo_side z = switched (lo_side ?y)" for i z
      proof
        assume acc: "accepts_price ?y (lo_price z)"
        from kept [OF z(1)] obtain z0 where z0: "?m i = Some z0" "lo_side z = lo_side z0" "lo_price z = lo_price z0" by blast
        have "accepts_price ?y p = accepts_price x p" for p by (simp add: accepts_price_def split: price_variant.splits)
        then have acc0: "lo_side z0 = switched (lo_side x)" "accepts_price x (lo_price z0)" using z(2) acc z0 by simp_all
        note all = crossing_takes_all [OF split inv wf False z0(1) acc0]
        have "lo_id z0 = i" using inv z0(1) by (simp add: book_inv_def)
        then have "(i, (z0, inner (lo_amount z0))) \<in> set (map (\<lambda>f. (lo_id (fst f), f)) ?fs)" using all(2) by force
        moreover have "distinct (map fst (map (\<lambda>f. (lo_id (fst f), f)) ?fs))"
          using market_fills_distinct [OF inv] by (simp add: comp_def)
        ultimately have "map_of (map (\<lambda>f. (lo_id (fst f), f)) ?fs) i = Some (z0, inner (lo_amount z0))" by simp
        then show False using z(1) all(1) after by (simp add: after_fills_def is_full_def bu_is_zero_def)
      qed
      ultimately show ?thesis using uncrossed_insert [OF un1] by simp
    qed
  qed
qed

end
