(* ===== verification/Operations.thy ===== *)
theory Operations
  imports Uncrossed
begin

text \<open>
  What every operation of an order book keeps. The books of the chain share one data layer, one agenda
  and one ledger; each has its own technical account. The invariant \<open>safe\<close> says that the indices of
  every book are consistent, that every order is scheduled once, that each technical account holds at
  least what the orders of its book have locked, and that no technical account owns an order.
\<close>

section \<open>The invariant of all books\<close>

definition books_ok :: "chain \<Rightarrow> (order_book_id \<Rightarrow> account_id) \<Rightarrow> order_book_id set \<Rightarrow> bool" where
  "books_ok env acct B \<longleftrightarrow>
     native_exact env \<and> inj_on acct B \<and>
     (\<forall>obid\<in>B. book_account env obid (acct obid) \<and> ob_base obid \<noteq> ob_quote obid)"

definition owners :: "book_view \<Rightarrow> order_book_id \<Rightarrow> account_id set" where
  "owners v obid = lo_owner ` ran (v_orders v obid)"

definition safe ::
  "chain \<Rightarrow> config \<Rightarrow> ('d \<Rightarrow> book_view) \<Rightarrow> ('d \<Rightarrow> bool) \<Rightarrow> (order_book_id \<Rightarrow> bool) \<Rightarrow>
   (order_book_id \<Rightarrow> account_id) \<Rightarrow> order_book_id set \<Rightarrow> (order_book_id \<times> order_id) set \<Rightarrow> 'd \<times> world \<Rightarrow> bool" where
  "safe env cfg view coh dv acct B E s \<longleftrightarrow>
     consistent cfg view coh dv E s \<and>
     (\<forall>obid\<in>B. solvent env obid (dv obid) (acct obid) (v_orders (view (fst s)) obid) (snd s)
        \<and> owners (view (fst s)) obid \<inter> acct ` B = {})"

text \<open>Two orders that differ in their amounts only, and what is left of an order.\<close>

definition same_terms :: "limit_order \<Rightarrow> limit_order \<Rightarrow> bool" where
  "same_terms x y \<longleftrightarrow> y = x \<lparr> lo_amount := lo_amount y \<rparr>"

definition part_of :: "limit_order \<Rightarrow> limit_order \<Rightarrow> bool" where
  "part_of x y \<longleftrightarrow> same_terms x y \<and> inner (lo_amount y) \<le> inner (lo_amount x)"

lemma same_termsD:
  assumes "same_terms x y"
  shows "lo_owner y = lo_owner x" and "lo_side y = lo_side x" and "lo_price y = lo_price x" and "lo_id y = lo_id x"
    and "lo_expires_at y = lo_expires_at x"
  by (subst assms [unfolded same_terms_def]; simp)+

lemma part_of_terms: "part_of x y \<Longrightarrow> same_terms x y"
  by (simp add: part_of_def)

lemmas part_ofD = same_termsD [OF part_of_terms]

lemma same_terms_trans: "same_terms x y \<Longrightarrow> same_terms y z \<Longrightarrow> same_terms x z"
  unfolding same_terms_def by (metis limit_order.surjective limit_order.update_convs(6) limit_order.fold_congs(6))

lemma part_of_trans: "part_of x y \<Longrightarrow> part_of y z \<Longrightarrow> part_of x z"
  unfolding part_of_def using same_terms_trans by auto

text \<open>
  Every order is an old one of which at most a part of the amount is gone, or a new one: it has one of the
  identifiers \<open>N\<close> and the terms of one of the orders \<open>A\<close>. New orders queue behind the old ones of their price.
\<close>

definition extends_by ::
  "book_view \<Rightarrow> book_view \<Rightarrow> (order_book_id \<times> order_id) set \<Rightarrow> limit_order set \<Rightarrow> bool" where
  "extends_by v v' N A \<longleftrightarrow>
     (\<forall>obid i y. v_orders v' obid i = Some y \<longrightarrow>
        (\<exists>x. v_orders v obid i = Some x \<and> part_of x y) \<or> (obid, i) \<in> N \<and> (\<exists>x\<in>A. same_terms x y)) \<and>
     levels_grow N v v'"

lemma extends_by_mono: "extends_by v v' N A \<Longrightarrow> N \<subseteq> N' \<Longrightarrow> A \<subseteq> A' \<Longrightarrow> extends_by v v' N' A'"
  unfolding extends_by_def using levels_grow_mono by blast

lemma extends_by_terms:
  assumes "extends_by v v' N A" and "\<And>x. x \<in> A \<Longrightarrow> \<exists>x'\<in>A'. same_terms x' x"
  shows "extends_by v v' N A'"
  using assms same_terms_trans unfolding extends_by_def by meson

lemma extends_by_refl [simp]: "extends_by v v N A"
  by (simp add: extends_by_def levels_grow_same part_of_def same_terms_def)

lemma extends_by_cases:
  assumes "extends_by v v' N A" and "v_orders v' obid i = Some y"
  obtains x where "v_orders v obid i = Some x" and "part_of x y"
  | x where "(obid, i) \<in> N" and "x \<in> A" and "same_terms x y"
  using assms unfolding extends_by_def by blast

lemma extends_by_owners:
  assumes "extends_by v v' N A" and "v_orders v' obid i = Some y"
  shows "v_orders v obid i \<noteq> None \<or> (obid, i) \<in> N" and "lo_owner y \<in> owners v obid \<union> lo_owner ` A"
  by (rule extends_by_cases [OF assms]; use part_ofD(1) same_termsD(1) in \<open>force simp: owners_def ran_def\<close>)+

lemma owners_subset:
  assumes "extends_by v v' N A"
  shows "owners v' obid \<subseteq> owners v obid \<union> lo_owner ` A"
proof
  fix z
  assume "z \<in> owners v' obid"
  then obtain i y where "v_orders v' obid i = Some y" "z = lo_owner y" by (auto simp: owners_def ran_def)
  with extends_by_owners(2) [OF assms] show "z \<in> owners v obid \<union> lo_owner ` A" by blast
qed

lemma extends_by_trans:
  assumes "extends_by v v1 N A" and "extends_by v1 v2 N' A'"
  shows "extends_by v v2 (N \<union> N') (A \<union> A')"
  unfolding extends_by_def
proof (intro conjI allI impI)
  show "levels_grow (N \<union> N') v v2"
    using assms levels_grow_trans levels_grow_mono unfolding extends_by_def by (meson Un_upper1 Un_upper2)
  fix obid i y
  assume y: "v_orders v2 obid i = Some y"
  show "(\<exists>x. v_orders v obid i = Some x \<and> part_of x y) \<or> (obid, i) \<in> N \<union> N' \<and> (\<exists>x\<in>A \<union> A'. same_terms x y)"
  proof (rule extends_by_cases [OF assms(2) y])
    fix x
    assume x: "v_orders v1 obid i = Some x" and yx: "part_of x y"
    show ?thesis
      by (rule extends_by_cases [OF assms(1) x]) (use part_of_trans [OF _ yx] same_terms_trans part_of_terms [OF yx] in blast)+
  qed auto
qed

lemma extends_by_uncrossed:
  assumes "extends_by v v' {} A" and "uncrossed (v_orders v obid)"
  shows "uncrossed (v_orders v' obid)"
proof (rule uncrossed_shrink [OF assms(2)])
  fix i y
  assume "v_orders v' obid i = Some y"
  from extends_by_cases [OF assms(1) this] obtain x where "v_orders v obid i = Some x" "part_of x y" by blast
  with part_ofD show "\<exists>x. v_orders v obid i = Some x \<and> lo_side y = lo_side x \<and> lo_price y = lo_price x" by metis
qed

lemma safe_view:
  assumes "safe env cfg view coh dv acct B E (d, w)" and "coh d'" and "view d' = view d"
  shows "safe env cfg view coh dv acct B E (d', w)"
  using assms by (simp add: safe_def consistent_def)

lemma balance_of_events [simp]: "balance_of env (w \<lparr> Events := es \<rparr>) = balance_of env w"
  by (rule same_ledger_balance) (simp add: same_ledger_def)

lemma safe_events:
  "safe env cfg view coh dv acct B E (d, w) \<Longrightarrow> safe env cfg view coh dv acct B E (d, w \<lparr> Events := es \<rparr>)"
  by (simp add: safe_def consistent_def agenda_inv_events solvent_def)

lemma lists_orders_ran: "lists_orders m xs \<Longrightarrow> set xs = ran m"
  unfolding lists_orders_def by (force simp: ran_def dom_def image_iff)

lemma pay_to_absent: "y \<notin> pay_accounts m \<Longrightarrow> pay_to m a y = 0"
proof -
  assume y: "y \<notin> pay_accounts m"
  have "paid_to whom y = 0" if "(b, whom) \<in> set m" for b whom
    using y that by (force simp: pay_accounts_def paid_to_def)
  then show ?thesis by (auto simp: pay_to_def)
qed

section \<open>The guards of a placement\<close>

definition spec_side :: "config \<Rightarrow> book_view \<Rightarrow> order_book_id \<Rightarrow> limit_order \<Rightarrow> dispatch_error + unit" where
  "spec_side cfg v obid x =
     (case v_level v (lo_side x) obid (lo_price x) of
        Some q \<Rightarrow> ensure (length q < MaxLimitOrdersForPrice cfg) PriceReachedMaxCountOfLimitOrders
      | None \<Rightarrow> ensure (length (v_agg v (lo_side x) obid) < MaxSidePriceCount cfg)
          OrderBookReachedMaxCountOfPricesForSide)"

definition spec_restrictions :: "config \<Rightarrow> book_view \<Rightarrow> order_book_id \<Rightarrow> limit_order \<Rightarrow> dispatch_error + unit" where
  "spec_restrictions cfg v obid x =
     and_then
       (case v_user v (lo_owner x) obid of
          None \<Rightarrow> Inr ()
        | Some q \<Rightarrow> ensure (length q < MaxOpenedLimitOrdersPerUser cfg) UserHasMaxCountOfOpenedOrders)
       (\<lambda>_. spec_side cfg v obid x)"

lemma emit_placement_events:
  "emit_placement obid owner i mc w = (Inr u, w') \<Longrightarrow> \<exists>es. w' = w \<lparr> Events := es \<rparr>"
  unfolding emit_placement_def
  by (cases "market_input mc"; cases "deal_input mc"; cases "deal_base_amount mc"; cases "average_deal_price mc")
    (auto simp: run_simps intro: exI [of _ "Events w"])

lemma execute_run:
  assumes "execute_market_order env dl book mo (d, w) = (Inr (inp, outp, n), (d', w'))"
  obtains mc d1 price w1 where "book_status book = Trade" and "\<not> bu_is_zero (mo_amount mo)"
    and "calculate_market_order_impact dl book mo d = (Inr mc, d1)"
    and "deal_input mc = Some inp" "deal_output mc = Some outp" and "average_deal_price mc = Some price"
    and "apply_market_change env dl book mc (d1, w) = (Inr (), (d', w1))"
    and "w' = w1 \<lparr> Events := Events w1 @ [BookEvent (book_id book)
      (MarketOrderExecuted (mo_owner mo) (mo_direction mo) (Base (mo_amount mo)) price (mo_to mo))] \<rparr>"
    and "n = count_of_executed_orders mc"
proof -
  from assms obtain mc d1 where guard: "book_status book = Trade" "\<not> bu_is_zero (mo_amount mo)"
    and calc: "calculate_market_order_impact dl book mo d = (Inr mc, d1)"
    and rest: "(case (deal_input mc, deal_output mc) of
       (Some inp, Some outp) \<Rightarrow>
         sbind (slift (ok_or (average_deal_price mc) PriceCalculationFailed)) (\<lambda>price.
         sbind (apply_market_change env dl book mc) (\<lambda>_.
         sbind (on_snd (emit_event (book_id book)
           (MarketOrderExecuted (mo_owner mo) (mo_direction mo) (Base (mo_amount mo)) price (mo_to mo)))) (\<lambda>_.
         sret (inp, outp, count_of_executed_orders mc))))
     | _ \<Rightarrow> slift (Inl PriceCalculationFailed)) (d1, w) = (Inr (inp, outp, n), (d', w'))"
    unfolding execute_market_order_def
    by (auto simp: ensure_market_order_valid_def mo_ensure_valid_def sbind_Inr slift_Inr on_fst_Inr ensure_Inr and_then_Inr)
  obtain inp0 outp0 where "deal_input mc = Some inp0" "deal_output mc = Some outp0"
    using rest by (cases "deal_input mc"; cases "deal_output mc") (auto simp: run_simps)
  with rest guard calc that show ?thesis by (auto simp: run_simps)
qed

context DataLayer
begin

lemma apply_change_safe:
  assumes safe: "safe env cfg view coh dv acct B E (d, w)"
    and run: "apply_market_change env dl book mc (d, w) = (Inr u, (d', w'))"
    and sound: "sound_change (book_id book) (dv (book_id book)) (view d) parties mc"
    and placed: "\<forall>x\<in>set (placed mc). (book_id book, lo_id x) \<notin> E \<and> lo_owner x \<in> parties"
    and env: "books_ok env acct B" "book_id book \<in> B" "parties \<inter> acct ` B = {}"
  shows "safe env cfg view coh dv acct B E (d', w')"
    and "v_orders (view d') = (v_orders (view d))
      (book_id book := orders_after mc (v_orders (view d) (book_id book)))"
    and "y \<notin> acct ` B \<Longrightarrow> balance_of env w' a y + pay_to (to_lock (mc_payment mc)) a y =
           balance_of env w a y + pay_to (to_unlock (mc_payment mc)) a y"
    and "extends_by (view d) (view d') (Pair (book_id book) ` lo_id ` set (placed mc)) (set (placed mc))"
proof -
  let ?obid = "book_id book" and ?m = "v_orders (view d) (book_id book)"
  have "change_accounts mc \<subseteq> parties \<union> owners (view d) ?obid"
    using sound by (simp add: sound_change_def owners_def)
  moreover have own: "owners (view d) ?obid \<inter> acct ` B = {}" using safe env(2) by (simp add: safe_def)
  ultimately have out: "change_accounts mc \<inter> acct ` B = {}" using env(3) by blast
  have cons: "consistent cfg view coh dv E (d, w)"
    and solv: "solvent env ?obid (dv ?obid) (acct ?obid) ?m w"
    using safe env(2) by (auto simp: safe_def)
  have ok: "change_ok (dv ?obid) ?m mc" and funded: "change_funded ?obid (dv ?obid) ?m mc"
    and pid: "pay_order_book_id (mc_payment mc) = ?obid"
    using sound by (auto simp: sound_change_def)
  have acc: "native_exact env" "book_account env (pay_order_book_id (mc_payment mc)) (acct ?obid)"
    "acct ?obid \<notin> change_accounts mc"
    using env out by (auto simp: books_ok_def pid)
  have new: "\<forall>x\<in>set (placed mc). (?obid, lo_id x) \<notin> E" using placed by simp
  note eff = apply_change_solvent [OF cons run ok new funded acc solv]
  show orders: "v_orders (view d') = (v_orders (view d)) (?obid := orders_after mc ?m)" by (rule eff(2))
  show bal: "y \<notin> acct ` B \<Longrightarrow> balance_of env w' a y + pay_to (to_lock (mc_payment mc)) a y =
      balance_of env w a y + pay_to (to_unlock (mc_payment mc)) a y" for y a
    using eff(4) env(2) by blast
  show ext: "extends_by (view d) (view d') (Pair ?obid ` lo_id ` set (placed mc)) (set (placed mc))"
    unfolding extends_by_def
  proof (intro conjI allI impI)
    show "levels_grow (Pair ?obid ` lo_id ` set (placed mc)) (view d) (view d')" by (rule eff(5))
    fix o' i y
    assume y: "v_orders (view d') o' i = Some y"
    show "(\<exists>x. v_orders (view d) o' i = Some x \<and> part_of x y) \<or>
        (o', i) \<in> Pair ?obid ` lo_id ` set (placed mc) \<and> (\<exists>x\<in>set (placed mc). same_terms x y)"
    proof (cases "o' = ?obid")
      case True
      then have "orders_after mc ?m i = Some y" using y orders by simp
      from orders_after_origin [OF ok this] True show ?thesis by (auto simp: part_of_def same_terms_def intro!: bexI [of _ y])
    qed (use y in \<open>simp add: orders part_of_def same_terms_def\<close>)
  qed
  have same: "balance_of env w' a (acct o') = balance_of env w a (acct o')" if "o' \<in> B" "o' \<noteq> ?obid" for o' a
  proof -
    have "acct o' \<notin> pay_accounts (to_lock (mc_payment mc))" "acct o' \<notin> pay_accounts (to_unlock (mc_payment mc))"
      using out that(1) by (auto simp: change_accounts_def)
    moreover have "acct o' \<noteq> acct ?obid" using env(1,2) that by (auto simp: books_ok_def inj_on_def)
    ultimately show ?thesis using eff(4) [of "acct o'" a] by (simp add: pay_to_absent)
  qed
  have "solvent env o' (dv o') (acct o') (v_orders (view d') o') w'" if "o' \<in> B" for o'
    using that eff(3) same safe by (cases "o' = ?obid") (auto simp: orders safe_def solvent_def)
  moreover have "owners (view d') o' \<inter> acct ` B = {}" if "o' \<in> B" for o'
  proof (cases "o' = ?obid")
    case True
    have "owners (view d') ?obid \<subseteq> owners (view d) ?obid \<union> lo_owner ` set (placed mc)"
      by (rule owners_subset [OF ext])
    then have "owners (view d') ?obid \<subseteq> owners (view d) ?obid \<union> parties" using placed by blast
    then show ?thesis using True own env(3) by blast
  qed (use that safe in \<open>auto simp: safe_def owners_def orders\<close>)
  ultimately show "safe env cfg view coh dv acct B E (d', w')"
    using eff(1) by (simp add: safe_def)
qed

section \<open>Cancelling and aligning\<close>

lemma cancel_safe:
  assumes safe: "safe env cfg view coh dv acct B E (d, w)"
    and run: "cancel_limit_order_unchecked env dl book x reason ignore_error (d, w) = (Inr u, (d', w'))"
    and x: "v_orders (view d) (book_id book) (lo_id x) = Some x"
    and env: "books_ok env acct B" "book_id book \<in> B"
  shows "safe env cfg view coh dv acct B E (d', w')"
    and "v_orders (view d') = (v_orders (view d))
      (book_id book := (v_orders (view d) (book_id book))(lo_id x := None))"
    and "y \<notin> acct ` B \<Longrightarrow> balance_of env w' a y =
      balance_of env w a y + (if y = lo_owner x then lock_units (book_id book) (dv (book_id book)) a x else 0)"
    and "extends_by (view d) (view d') {} {}"
proof -
  let ?obid = "book_id book"
  have inv: "book_inv cfg (dv ?obid) ?obid (view d)" using safe by (simp add: safe_def consistent_def view_inv_def)
  then have wf: "order_wf (dv ?obid) x" and fin: "finite (dom (v_orders (view d) ?obid))"
    using x by (auto simp: book_inv_def)
  have assets: "ob_base ?obid \<noteq> ob_quote ?obid" using env by (simp add: books_ok_def)
  from run obtain mc where mc: "calculate_cancellation_limit_order_impact book x reason ignore_error = Inr mc"
    and app: "apply_market_change env dl book mc (d, w) = (Inr u, (d', w'))"
    by (auto simp: cancel_limit_order_unchecked_def run_simps)
  note ch = cancellation_change [OF mc wf assets fin x]
  have "sound_change ?obid (dv ?obid) (view d) {} mc"
    using ch(1-3,5) x by (auto simp: sound_change_def ran_def)
  note eff = apply_change_safe [OF safe app this _ env, unfolded ch(4), simplified]
  show "safe env cfg view coh dv acct B E (d', w')" "extends_by (view d) (view d') {} {}" by (rule eff)+
  show "v_orders (view d') = (v_orders (view d)) (?obid := (v_orders (view d) ?obid)(lo_id x := None))"
    using eff(2) by (simp add: ch(6))
  show "y \<notin> acct ` B \<Longrightarrow> balance_of env w' a y =
      balance_of env w a y + (if y = lo_owner x then lock_units ?obid (dv ?obid) a x else 0)"
    using eff(3) [of y a] by (simp add: ch(7,8))
qed

lemma cancel_all_safe:
  assumes safe: "safe env cfg view coh dv acct B E (d, w)"
    and run: "cancel_all_limit_orders env dl book reason (d, w) = (Inr n, (d', w'))"
    and env: "books_ok env acct B" "book_id book \<in> B"
  shows "safe env cfg view coh dv acct B E (d', w')"
    and "v_orders (view d') = (v_orders (view d)) (book_id book := Map.empty)"
    and "n = card (dom (v_orders (view d) (book_id book)))"
    and "extends_by (view d) (view d') {} {}"
proof -
  let ?obid = "book_id book" and ?m = "v_orders (view d) (book_id book)"
  have coh: "coh d" and inv: "book_inv cfg (dv ?obid) ?obid (view d)"
    using safe by (simp_all add: safe_def consistent_def view_inv_def)
  then have fin: "finite (dom ?m)" by (simp add: book_inv_def)
  have assets: "ob_base ?obid \<noteq> ob_quote ?obid" using env by (simp add: books_ok_def)
  from run obtain mc d1 where calc: "calculate_cancellation_of_all_limit_orders_impact dl book reason d = (Inr mc, d1)"
    and app: "apply_market_change env dl book mc (d1, w) = (Inr (), (d', w'))" and n: "n = length (to_cancel mc)"
    by (auto simp: cancel_all_limit_orders_def run_simps)
  from get_all_limit_orders [OF coh fin] obtain xs
    where xs: "reads coh view (dl_get_all_limit_orders dl ?obid) xs d" "lists_orders ?m xs" by blast
  from calc xs(1) obtain cancels unlock where d1: "coh d1" "view d1 = view d"
    and loop: "cancel_all_loop ?obid reason xs [] [] = Inr (cancels, unlock)"
    and mc: "mc = (market_change_new ?obid)
       \<lparr> to_cancel := cancels, mc_payment := (payment_new ?obid) \<lparr> to_unlock := unlock \<rparr> \<rparr>"
    by (auto simp: calculate_cancellation_of_all_limit_orders_impact_def run_simps reads_def)
  note ch = cancel_all_change [OF loop mc inv xs(2) assets]
  have "sound_change ?obid (dv ?obid) (view d1) {} mc"
    using ch(1-3,5) by (simp add: sound_change_def d1(2) lists_orders_ran [OF xs(2)])
  note eff = apply_change_safe [OF safe_view [OF safe d1] app this _ env, unfolded ch(4) d1(2), simplified]
  show "safe env cfg view coh dv acct B E (d', w')" "extends_by (view d) (view d') {} {}" by (rule eff)+
  show "v_orders (view d') = (v_orders (view d)) (?obid := Map.empty)" using eff(2) by (simp add: ch(6))
  show "n = card (dom ?m)" using ch(7) n by simp
qed

lemma align_safe:
  assumes safe: "safe env cfg view coh dv acct B E (d, w)"
    and run: "align_limit_orders env dl book xs (d, w) = (Inr u, (d', w'))"
    and xs: "\<forall>x\<in>set xs. v_orders (view d) (book_id book) (lo_id x) = Some x" "distinct (map lo_id xs)"
    and step: "is_divisible (step_lot_size book) = dv (book_id book)" "0 < inner (step_lot_size book)"
    and env: "books_ok env acct B" "book_id book \<in> B"
  shows "safe env cfg view coh dv acct B E (d', w')" and "extends_by (view d) (view d') {} {}"
    and "obid \<noteq> book_id book \<Longrightarrow> v_orders (view d') obid = v_orders (view d) obid"
proof -
  have "safe env cfg view coh dv acct B E (d', w') \<and> extends_by (view d) (view d') {} {} \<and>
      (\<forall>obid. obid \<noteq> book_id book \<longrightarrow> v_orders (view d') obid = v_orders (view d) obid)"
  proof (cases "xs = []")
    case True
    then show ?thesis using run safe by (simp add: align_limit_orders_def run_simps)
  next
    case False
    let ?obid = "book_id book" and ?m = "v_orders (view d) (book_id book)"
    have inv: "book_inv cfg (dv ?obid) ?obid (view d)" using safe by (simp add: safe_def consistent_def view_inv_def)
    then have fin: "finite (dom ?m)" and wf: "\<forall>x\<in>set xs. order_wf (dv ?obid) x \<and> ?m (lo_id x) = Some x"
      using xs(1) by (auto simp: book_inv_def)
    have assets: "ob_base ?obid \<noteq> ob_quote ?obid" using env by (simp add: books_ok_def)
    from run False obtain mc where mc: "calculate_align_limit_orders_impact book xs = Inr mc"
      and app: "apply_market_change env dl book mc (d, w) = (Inr u, (d', w'))"
      by (auto simp: align_limit_orders_def run_simps)
    note ch = align_change [OF mc wf xs(2) fin step assets]
    have "set xs \<subseteq> ran ?m" using xs(1) by (auto intro: ranI)
    then have "sound_change ?obid (dv ?obid) (view d) {} mc"
      using ch(1,2,5) subset_trans [OF ch(3) image_mono] by (simp add: sound_change_def)
    from apply_change_safe [OF safe app this _ env] show ?thesis by (simp add: ch(4))
  qed
  then show "safe env cfg view coh dv acct B E (d', w')" and "extends_by (view d) (view d') {} {}"
    and "obid \<noteq> book_id book \<Longrightarrow> v_orders (view d') obid = v_orders (view d) obid" by auto
qed

section \<open>Executing a market order\<close>

lemma execute_safe:
  assumes safe: "safe env cfg view coh dv acct B E (d, w)"
    and run: "execute_market_order env dl book mo (d, w) = (Inr (inp, outp, n), (d', w'))"
    and amount: "is_divisible (mo_amount mo) = dv (book_id book)"
    and env: "books_ok env acct B" "book_id book \<in> B"
      "{mo_owner mo, unwrap_or (mo_to mo) (mo_owner mo)} \<inter> acct ` B = {}"
  defines "fs \<equiv> market_fills (book_id book) (view d) mo" and "obid \<equiv> book_id book" and "dir \<equiv> mo_direction mo"
  shows "safe env cfg view coh dv acct B E (d', w')"
    and "v_orders (view d') = (v_orders (view d)) (obid := after_fills (dv obid) fs (v_orders (view d) obid))"
    and "taken fs = inner (mo_amount mo)" and "n = min u64_max (length fs)"
    and "inner (amount_value inp) = maker_sum dir (dv obid) fs" "associated_asset inp obid = maker_out_asset obid dir"
    and "inner (amount_value outp) = taker_sum dir (dv obid) fs" "associated_asset outp obid = taker_out_asset obid dir"
    and "y \<notin> acct ` B \<Longrightarrow>
      balance_of env w' a y + (if a = maker_out_asset obid dir \<and> y = mo_owner mo then maker_sum dir (dv obid) fs else 0) =
      balance_of env w a y +
       (if a = maker_out_asset obid dir then maker_paid dir (dv obid) fs y
        else if a = taker_out_asset obid dir \<and> y = unwrap_or (mo_to mo) (mo_owner mo)
        then taker_sum dir (dv obid) fs else 0)"
    and "extends_by (view d) (view d') {} {}"
proof -
  let ?parties = "{mo_owner mo, unwrap_or (mo_to mo) (mo_owner mo)}"
  have coh: "coh d" and inv: "book_inv cfg (dv obid) obid (view d)"
    using safe by (simp_all add: safe_def consistent_def view_inv_def)
  have assets: "ob_base obid \<noteq> ob_quote obid" using env by (simp add: books_ok_def obid_def)
  from execute_run [OF run] obtain mc d1 price w1 where nz: "\<not> bu_is_zero (mo_amount mo)"
    and calc: "calculate_market_order_impact dl book mo d = (Inr mc, d1)"
    and deal: "deal_input mc = Some inp" "deal_output mc = Some outp"
    and app: "apply_market_change env dl book mc (d1, w) = (Inr (), (d', w1))"
    and w': "w' = w1 \<lparr> Events := Events w1 @ [BookEvent obid
      (MarketOrderExecuted (mo_owner mo) dir (Base (mo_amount mo)) price (mo_to mo))] \<rparr>"
    and n: "n = count_of_executed_orders mc"
    unfolding obid_def dir_def by metis
  have amt: "is_divisible (mo_amount mo) = dv obid" "0 < inner (mo_amount mo)"
    using amount nz by (simp_all add: obid_def bu_is_zero_def)
  note rd = reads_run [OF market_order_impact_reads [OF coh inv [unfolded obid_def] nz] calc, folded obid_def]
  have run': "spec_market_impact obid (view d) mo = Inr mc" using rd(1) by simp
  note me = market_impact_end [OF run' inv amt]
  note pay = market_payment [OF run' inv amt assets]
  have sound: "sound_change (book_id book) (dv (book_id book)) (view d1) ?parties mc"
    using market_change_sound(1) [OF run' inv amt assets] rd(3) by (simp add: obid_def)
  have none: "placed mc = []" by (rule market_lists(5) [OF inv me(1)])
  note eff = apply_change_safe [OF safe_view [OF safe rd(2,3)] app sound _ env, unfolded none rd(3), simplified, folded obid_def]
  show "safe env cfg view coh dv acct B E (d', w')" unfolding w' by (rule safe_events [OF eff(1)])
  show "extends_by (view d) (view d') {} {}" by (rule eff)
  show "v_orders (view d') = (v_orders (view d)) (obid := after_fills (dv obid) fs (v_orders (view d) obid))"
    using eff(2) market_orders_after(1) [OF inv me(1)] by (simp add: fs_def obid_def)
  show "taken fs = inner (mo_amount mo)" using me(2) by (simp add: fs_def obid_def)
  show "n = min u64_max (length fs)" using market_orders_after(2) [OF inv me(1)] n by (simp add: fs_def obid_def)
  have sums: "inner (maker_amount (market_end obid (dv obid) (view d) mo)) = maker_sum dir (dv obid) fs"
    "inner (taker_amount (market_end obid (dv obid) (view d) mo)) = taker_sum dir (dv obid) fs"
    by (simp_all add: market_end_def apply_fills_amounts fs_def obid_def dir_def impact_start_def)
  show "inner (amount_value inp) = maker_sum dir (dv obid) fs" "associated_asset inp obid = maker_out_asset obid dir"
    and "inner (amount_value outp) = taker_sum dir (dv obid) fs" "associated_asset outp obid = taker_out_asset obid dir"
    using deal sums unfolding me(1) by (auto simp: impact_result_def Let_def dir_def maker_out_asset_def taker_out_asset_def
        split: price_variant.splits)
  show "balance_of env w' a y + (if a = maker_out_asset obid dir \<and> y = mo_owner mo then maker_sum dir (dv obid) fs else 0) =
      balance_of env w a y +
       (if a = maker_out_asset obid dir then maker_paid dir (dv obid) fs y
        else if a = taker_out_asset obid dir \<and> y = unwrap_or (mo_to mo) (mo_owner mo)
        then taker_sum dir (dv obid) fs else 0)" if "y \<notin> acct ` B"
    using eff(3) [OF that, of a] unfolding pay(1,4) pay_single w' balance_of_events
    by (simp only: fs_def obid_def dir_def balance_unit.sel)
qed

section \<open>Placing a limit order\<close>

lemma price_room_reads:
  assumes coh: "coh d" and full: "reads coh view full (map_option (\<lambda>q. MaxLimitOrdersForPrice cfg \<le> length q) level) d"
    and len: "\<And>d1. coh d1 \<Longrightarrow> view d1 = view d \<Longrightarrow> \<exists>n. reads coh view len n d1 \<and> unwrap_or n 0 = length agg"
  shows "reads coh view
    (sbind (sread full) (\<lambda>price_full. case price_full of
        Some f \<Rightarrow> slift (ensure (\<not> f) PriceReachedMaxCountOfLimitOrders)
      | None \<Rightarrow> sbind (sread len) (\<lambda>n. slift (ensure (unwrap_or n 0 < MaxSidePriceCount cfg)
          OrderBookReachedMaxCountOfPricesForSide))))
    (case level of
        Some q \<Rightarrow> ensure (length q < MaxLimitOrdersForPrice cfg) PriceReachedMaxCountOfLimitOrders
      | None \<Rightarrow> ensure (length agg < MaxSidePriceCount cfg) OrderBookReachedMaxCountOfPricesForSide) d"
proof (rule reads_sbind_Inr [OF reads_sread [OF full]])
  fix d1
  assume d1: "coh d1" "view d1 = view d"
  from len [OF d1] obtain n where n: "reads coh view len n d1" "unwrap_or n 0 = length agg" by blast
  have "reads coh view (sbind (sread len) (\<lambda>n. slift (ensure (unwrap_or n 0 < MaxSidePriceCount cfg)
      OrderBookReachedMaxCountOfPricesForSide)))
      (ensure (length agg < MaxSidePriceCount cfg) OrderBookReachedMaxCountOfPricesForSide) d1"
    by (rule reads_sbind_Inr [OF reads_sread [OF n(1)]]) (simp add: n(2) reads_slift)
  then show "reads coh view
      (case map_option (\<lambda>q. MaxLimitOrdersForPrice cfg \<le> length q) level of
        Some f \<Rightarrow> slift (ensure (\<not> f) PriceReachedMaxCountOfLimitOrders)
      | None \<Rightarrow> sbind (sread len) (\<lambda>n. slift (ensure (unwrap_or n 0 < MaxSidePriceCount cfg)
          OrderBookReachedMaxCountOfPricesForSide)))
      (case level of
        Some q \<Rightarrow> ensure (length q < MaxLimitOrdersForPrice cfg) PriceReachedMaxCountOfLimitOrders
      | None \<Rightarrow> ensure (length agg < MaxSidePriceCount cfg) OrderBookReachedMaxCountOfPricesForSide) d1"
    using reads_slift [of coh d1 view] d1 by (cases level) (simp_all add: not_le)
qed

lemma check_restrictions_reads:
  assumes coh: "coh d" and price: "is_divisible (lo_price x)"
  shows "reads coh view (check_restrictions cfg dl book x) (spec_restrictions cfg (view d) (book_id book) x) d"
  unfolding check_restrictions_def
proof (rule reads_sbind_Inr [OF reads_sread [OF is_user_limit_orders_full [OF coh]]], goal_cases)
  case d1: (1 d1)
  have user: "(case map_option (\<lambda>q. MaxOpenedLimitOrdersPerUser cfg \<le> length q) u of
       None \<Rightarrow> Inr () | Some f \<Rightarrow> ensure (\<not> f) UserHasMaxCountOfOpenedOrders) =
     (case u of None \<Rightarrow> Inr () | Some q \<Rightarrow> ensure (length q < MaxOpenedLimitOrdersPerUser cfg) UserHasMaxCountOfOpenedOrders)"
    for u :: "order_id list option"
    by (cases u) (simp_all add: not_le)
  show ?case
    unfolding user spec_restrictions_def
  proof (rule reads_sbind, goal_cases)
    case 1
    show ?case by (rule reads_slift) (rule d1(1))
  next
    case d2: (2 u d2)
    then have v: "view d2 = view d" using d1 by simp
    show ?case
    proof (cases "lo_side x")
      case Buy
      show ?thesis
        unfolding Buy price_variant.case spec_side_def
        using is_bid_price_full [OF d2(2) price, of "book_id book"] get_aggregated_bids_len [of _ "book_id book"]
        by (intro price_room_reads d2(2)) (metis v)+
    next
      case Sell
      show ?thesis
        unfolding Sell price_variant.case spec_side_def
        using is_ask_price_full [OF d2(2) price, of "book_id book"] get_aggregated_asks_len [of _ "book_id book"]
        by (intro price_room_reads d2(2)) (metis v)+
    qed
  qed
qed

lemma crosses_spread_reads:
  assumes coh: "coh d"
  shows "reads coh view (crosses_spread dl book x) (Inr (spec_crosses (view d) (book_id book) x)) d"
proof (cases "lo_side x")
  case Buy
  show ?thesis
    unfolding crosses_spread_def Buy price_variant.case spec_crosses_def best_ask_def
    by (rule reads_sbind_Inr [OF reads_sread [OF best_ask [OF coh]]]) (rule reads_sret)
next
  case Sell
  show ?thesis
    unfolding crosses_spread_def Sell price_variant.case spec_crosses_def best_bid_def
    by (rule reads_sbind_Inr [OF reads_sread [OF best_bid [OF coh]]]) (rule reads_sret)
qed

lemma place_run:
  assumes run: "place_limit_order env dl book x (d, w) = (Inr n, (d', w'))"
    and coh: "coh d" and inv: "book_inv cfg dv (book_id book) (view d)"
    and cfg: "chain_config env = cfg" and price: "is_divisible (lo_price x)"
  obtains mc d2 w1 es where "book_status book = Trade \<or> book_status book = PlaceAndCancel"
    and "ensure_limit_order_valid cfg book x = Inr ()" and "spec_restrictions cfg (view d) (book_id book) x = Inr ()"
    and "coh d2" and "view d2 = view d"
    and "if spec_crosses (view d) (book_id book) x then book_status book = Trade \<and> spec_cross_spread book (view d) x = Inr mc
      else calculate_limit_order_impact book x = Inr mc"
    and "apply_market_change env dl book mc (d2, w) = (Inr (), (d', w1))" and "w' = w1 \<lparr> Events := es \<rparr>"
    and "n = count_of_executed_orders mc"
proof -
  from run cfg obtain d1 d2 d3 w1 crosses mc where
      guard: "book_status book = Trade \<or> book_status book = PlaceAndCancel" "ensure_limit_order_valid cfg book x = Inr ()"
    and r1: "check_restrictions cfg dl book x d = (Inr (), d1)"
    and r2: "crosses_spread dl book x d1 = (Inr crosses, d2)"
    and r3: "(if crosses then if book_status book = Trade then on_fst (cross_spread dl book x) else slift (Inl InvalidLimitOrderPrice)
        else slift (calculate_limit_order_impact book x)) (d2, w) = (Inr mc, d3, w)"
    and r4: "apply_market_change env dl book mc (d3, w) = (Inr (), (d', w1))"
    and r5: "emit_placement (book_id book) (lo_owner x) (lo_id x) mc w1 = (Inr (), w')"
    and n: "n = count_of_executed_orders mc"
    unfolding place_limit_order_def
    by (fastforce simp: sbind_Inr slift_Inr on_fst_Inr on_snd_Inr sret_Inr ensure_Inr split: if_splits)
  note c1 = reads_run [OF check_restrictions_reads [OF coh price, of book] r1]
  note c2 = reads_run [OF crosses_spread_reads [OF c1(2), of book x] r2, unfolded c1(3)]
  have v2: "book_inv cfg dv (book_id book) (view d2)" using inv c2(3) by simp
  have "coh d3 \<and> view d3 = view d \<and> (if spec_crosses (view d) (book_id book) x
      then book_status book = Trade \<and> spec_cross_spread book (view d) x = Inr mc
      else calculate_limit_order_impact book x = Inr mc)"
    using r3 c2 reads_run [OF cross_spread_reads [OF c2(2) v2, of x], of "Inr mc" d3]
    by (auto simp: run_simps split: if_splits)
  with that guard c1(1) r4 n emit_placement_events [OF r5] show ?thesis by metis
qed

lemma place_sound:
  assumes safe: "safe env cfg view coh dv acct B E (d, w)"
    and change: "if crosses then spec_cross_spread book (view d) x = Inr mc else calculate_limit_order_impact book x = Inr mc"
    and app: "apply_market_change env dl book mc (d2, w) = (Inr u, s')"
    and x: "order_wf (dv (book_id book)) x" "v_orders (view d) (book_id book) (lo_id x) = None"
    and room: "\<forall>a. balance_of env w a (lo_owner x) < u128_max"
    and env: "books_ok env acct B" "book_id book \<in> B" "lo_owner x \<notin> acct ` B"
  shows "sound_change (book_id book) (dv (book_id book)) (view d) {lo_owner x} mc"
    and "\<forall>y\<in>set (placed mc). \<exists>l. y = x \<lparr> lo_amount := l \<rparr>"
proof -
  let ?obid = "book_id book"
  have inv: "book_inv cfg (dv ?obid) ?obid (view d)" using safe by (simp add: safe_def consistent_def view_inv_def)
  then have fin: "finite (dom (v_orders (view d) ?obid))" by (simp add: book_inv_def)
  have assets: "ob_base ?obid \<noteq> ob_quote ?obid" and acc: "native_exact env" "book_account env ?obid (acct ?obid)"
    and other: "lo_owner x \<noteq> acct ?obid" using env by (auto simp: books_ok_def)
  have "sound_change ?obid (dv ?obid) (view d) {lo_owner x} mc \<and> (\<forall>y\<in>set (placed mc). \<exists>l. y = x \<lparr> lo_amount := l \<rparr>)"
  proof (cases crosses)
    case False
    then have "calculate_limit_order_impact book x = Inr mc" using change by simp
    from limit_order_change [OF this x(1) assets fin x(2)] show ?thesis
      by (auto simp: sound_change_def intro: exI [of _ "lo_amount x"])
  next
    case True
    then have cs: "spec_cross_spread book (view d) x = Inr mc" using change by simp
    note payers = cross_spread_payers [OF cs inv x(1) assets]
    from app obtain w1 where "payment_lock (lock_liquidity env) (mc_payment mc) w = (Inr (), w1)"
      by (auto simp: apply_market_change_def execute_all_def run_simps)
    from payment_lock_effect [OF acc(1) _ this, of "acct ?obid"] acc(2) payers other
    have "\<forall>a. pay_to (to_lock (mc_payment mc)) a (lo_owner x) \<le> balance_of env w a (lo_owner x)" by (metis empty_iff insert_iff le_add2 subsetD)
    then have "\<forall>a. pay_to (to_lock (mc_payment mc)) a (lo_owner x) < u128_max" using room le_less_trans by blast
    from cross_spread_change [OF cs inv x(1) assets x(2) this] show ?thesis by simp
  qed
  then show "sound_change ?obid (dv ?obid) (view d) {lo_owner x} mc" and "\<forall>y\<in>set (placed mc). \<exists>l. y = x \<lparr> lo_amount := l \<rparr>" by auto
qed

lemma place_safe:
  assumes safe: "safe env cfg view coh dv acct B E (d, w)"
    and run: "place_limit_order env dl book x (d, w) = (Inr n, (d', w'))"
    and x: "order_wf (dv (book_id book)) x" "v_orders (view d) (book_id book) (lo_id x) = None"
      "(book_id book, lo_id x) \<notin> E"
    and room: "\<forall>a. balance_of env w a (lo_owner x) < u128_max"
    and env: "chain_config env = cfg" "books_ok env acct B" "book_id book \<in> B" "lo_owner x \<notin> acct ` B"
  shows "safe env cfg view coh dv acct B E (d', w')"
    and "extends_by (view d) (view d') {(book_id book, lo_id x)} {x}"
    and "\<not> spec_crosses (view d) (book_id book) x \<Longrightarrow>
      v_orders (view d') = (v_orders (view d)) (book_id book := (v_orders (view d) (book_id book))(lo_id x \<mapsto> x))"
    and "\<not> spec_crosses (view d) (book_id book) x \<Longrightarrow> y \<notin> acct ` B \<Longrightarrow>
      balance_of env w' a y + (if y = lo_owner x then lock_units (book_id book) (dv (book_id book)) a x else 0) =
      balance_of env w a y"
    and "uncrossed (v_orders (view d) obid) \<Longrightarrow> uncrossed (v_orders (view d') obid)"
proof -
  let ?obid = "book_id book"
  have coh: "coh d" and inv: "book_inv cfg (dv ?obid) ?obid (view d)"
    using safe by (simp_all add: safe_def consistent_def view_inv_def)
  then have fin: "finite (dom (v_orders (view d) ?obid))" by (simp add: book_inv_def)
  have assets: "ob_base ?obid \<noteq> ob_quote ?obid" using env by (simp add: books_ok_def)
  have "is_divisible (lo_price x)" using x(1) by (simp add: order_wf_def)
  from place_run [OF run coh inv env(1) this] obtain mc d2 w1 es where
      d2: "coh d2" "view d2 = view d"
    and change: "if spec_crosses (view d) ?obid x then spec_cross_spread book (view d) x = Inr mc
      else calculate_limit_order_impact book x = Inr mc"
    and app: "apply_market_change env dl book mc (d2, w) = (Inr (), (d', w1))" and w': "w' = w1 \<lparr> Events := es \<rparr>"
    by metis
  note ps = place_sound [OF safe change app x(1,2) room env(2-4)]
  have out: "{lo_owner x} \<inter> acct ` B = {}" using env(4) by simp
  have new: "\<forall>y\<in>set (placed mc). (?obid, lo_id y) \<notin> E \<and> lo_owner y \<in> {lo_owner x}"
    using ps(2) x(3) by fastforce
  have sound: "sound_change ?obid (dv ?obid) (view d2) {lo_owner x} mc" using ps(1) d2(2) by simp
  note eff = apply_change_safe [OF safe_view [OF safe d2] app sound new env(2,3) out, unfolded d2(2)]
  show "safe env cfg view coh dv acct B E (d', w')" unfolding w' by (rule safe_events [OF eff(1)])
  have terms: "same_terms x y" if "y \<in> set (placed mc)" for y
    using ps(2) that by (force simp: same_terms_def)
  then have "Pair ?obid ` lo_id ` set (placed mc) \<subseteq> {(?obid, lo_id x)}" using same_termsD(4) by auto
  from extends_by_mono [OF eff(4) this subset_refl]
  show "extends_by (view d) (view d') {(?obid, lo_id x)} {x}" by (rule extends_by_terms) (use terms in blast)
  show "uncrossed (v_orders (view d') obid)" if un: "uncrossed (v_orders (view d) obid)"
    using un place_uncrossed [OF _ inv x(1) assets x(2) change] by (cases "obid = ?obid") (simp_all add: eff(2))
  assume "\<not> spec_crosses (view d) ?obid x"
  then have li: "calculate_limit_order_impact book x = Inr mc" using change by simp
  note lc = limit_order_change [OF li x(1) assets fin x(2)]
  show "v_orders (view d') = (v_orders (view d)) (?obid := (v_orders (view d) ?obid)(lo_id x \<mapsto> x))"
    using eff(2) by (simp add: lc(6))
  show "balance_of env w' a y + (if y = lo_owner x then lock_units ?obid (dv ?obid) a x else 0) = balance_of env w a y"
    if "y \<notin> acct ` B"
    using eff(3) [OF that, of a] by (simp add: lc(7,8) w')
qed

end

end
