(* ===== verification/Dex_Registry.thy ===== *)
theory Dex_Registry
  imports Ledger Cache_Storage
begin

text \<open>
  The registries an order book is created in: the exchanges of \<open>pallets/dex-manager/src/lib.rs\<close>, the
  trading pairs of \<open>pallets/trading-pair/src/lib.rs\<close> with the liquidity sources enabled for each, and
  the asset information of \<open>pallets/assets/src/lib.rs\<close> that the order book reads.
\<close>

section \<open>Exchanges\<close>

record dex_info =
  dex_base_asset_id :: asset_id
  dex_synthetic_base_asset_id :: asset_id
  dex_is_public :: bool

datatype liquidity_source_type =
    XYKPool
  | BondingCurvePool
  | MulticollateralBondingCurvePool
  | MockPool
  | MockPool2
  | MockPool3
  | MockPool4
  | XSTPool
  | OrderBookSource

datatype management_mode = Private | Public

text \<open>\<open>AssetPrecision\<close> is the field \<open>precision\<close> of \<open>AssetInfosV2\<close>, whose default is 0.\<close>

record registry =
  DEXInfos :: "(dex_id, dex_info) storage"
  EnabledSources :: "(dex_id \<times> trading_pair, liquidity_source_type set) storage"
  LockedLiquiditySources :: "liquidity_source_type list"
  TradingPairsStored :: "(dex_id \<times> trading_pair) list"
  AssetPrecision :: "asset_id \<Rightarrow> nat"

definition get_dex_info :: "registry \<Rightarrow> dex_id \<Rightarrow> dispatch_error + dex_info" where
  "get_dex_info r dex = ok_or (map_of (DEXInfos r) dex) DEXDoesNotExist"

definition ensure_dex_exists :: "registry \<Rightarrow> dex_id \<Rightarrow> dispatch_error + unit" where
  "ensure_dex_exists r dex = ensure (map_of (DEXInfos r) dex \<noteq> None) DEXDoesNotExist"

definition list_dex_ids :: "registry \<Rightarrow> dex_id list" where
  "list_dex_ids r = map fst (DEXInfos r)"

text \<open>
  \<open>who\<close> is the signer of the origin, if it is signed; \<open>ensure_direct_manager\<close> asks the permissions
  pallet for \<open>MANAGE_DEX\<close> on the exchange.
\<close>

definition ensure_can_manage ::
  "(account_id \<Rightarrow> dex_id \<Rightarrow> dispatch_error + unit) \<Rightarrow> registry \<Rightarrow> dex_id \<Rightarrow> account_id option \<Rightarrow> management_mode \<Rightarrow>
   dispatch_error + account_id option" where
  "ensure_can_manage ensure_direct_manager r dex origin mode =
     (case origin of
        Some who \<Rightarrow>
          and_then (get_dex_info r dex) (\<lambda>info.
          and_then
            (if \<not> dex_is_public info \<or> mode \<noteq> Public then ensure_direct_manager who dex else Inr ()) (\<lambda>_.
          Inr (Some who)))
      | None \<Rightarrow> Inl InvalidAccountId)"

section \<open>Trading pairs\<close>

definition pair_of :: "asset_id \<Rightarrow> asset_id \<Rightarrow> trading_pair" where
  "pair_of b t = \<lparr> base_asset_id = b, target_asset_id = t \<rparr>"

definition enabled_sources :: "registry \<Rightarrow> dex_id \<Rightarrow> trading_pair \<Rightarrow> liquidity_source_type set option" where
  "enabled_sources r dex pair = map_of (EnabledSources r) (dex, pair)"

definition is_trading_pair_enabled :: "registry \<Rightarrow> dex_id \<Rightarrow> asset_id \<Rightarrow> asset_id \<Rightarrow> dispatch_error + bool" where
  "is_trading_pair_enabled r dex b t =
     and_then (ensure_dex_exists r dex) (\<lambda>_. Inr (enabled_sources r dex (pair_of b t) \<noteq> None))"

definition ensure_trading_pair_exists :: "registry \<Rightarrow> dex_id \<Rightarrow> asset_id \<Rightarrow> asset_id \<Rightarrow> dispatch_error + unit" where
  "ensure_trading_pair_exists r dex b t =
     and_then (is_trading_pair_enabled r dex b t) (\<lambda>enabled. ensure enabled TradingPairDoesntExist)"

definition mutate_sources ::
  "dex_id \<Rightarrow> trading_pair \<Rightarrow> (liquidity_source_type set \<Rightarrow> liquidity_source_type set) \<Rightarrow> registry \<Rightarrow> registry" where
  "mutate_sources dex pair f r =
     (case enabled_sources r dex pair of
        Some sources \<Rightarrow> r \<lparr> EnabledSources := AList.update (dex, pair) (f sources) (EnabledSources r) \<rparr>
      | None \<Rightarrow> r)"

definition enable_source_for_trading_pair ::
  "dex_id \<Rightarrow> asset_id \<Rightarrow> asset_id \<Rightarrow> liquidity_source_type \<Rightarrow> (registry, dispatch_error, unit) run" where
  "enable_source_for_trading_pair dex b t source r =
     (case ensure_trading_pair_exists r dex b t of
        Inl e \<Rightarrow> (Inl e, r)
      | Inr _ \<Rightarrow> (Inr (), mutate_sources dex (pair_of b t) (\<lambda>sources. insert source sources) r))"

definition disable_source_for_trading_pair ::
  "dex_id \<Rightarrow> asset_id \<Rightarrow> asset_id \<Rightarrow> liquidity_source_type \<Rightarrow> (registry, dispatch_error, unit) run" where
  "disable_source_for_trading_pair dex b t source r =
     (case ensure_trading_pair_exists r dex b t of
        Inl e \<Rightarrow> (Inl e, r)
      | Inr _ \<Rightarrow> (Inr (), mutate_sources dex (pair_of b t) (\<lambda>sources. sources - {source}) r))"

definition mutate_remove :: "dex_id \<Rightarrow> asset_id \<Rightarrow> asset_id \<Rightarrow> registry \<Rightarrow> registry" where
  "mutate_remove dex b t = mutate_sources dex (pair_of b t) (\<lambda>sources. sources - {XYKPool})"

definition list_enabled_sources_for_trading_pair ::
  "registry \<Rightarrow> dex_id \<Rightarrow> asset_id \<Rightarrow> asset_id \<Rightarrow> dispatch_error + liquidity_source_type set" where
  "list_enabled_sources_for_trading_pair r dex b t =
     and_then (ensure_dex_exists r dex) (\<lambda>_.
     and_then (ok_or (enabled_sources r dex (pair_of b t)) TradingPairDoesntExist) (\<lambda>sources.
     Inr (foldl (\<lambda>s locked. s - {locked}) sources (LockedLiquiditySources r))))"

definition is_source_enabled_for_trading_pair ::
  "registry \<Rightarrow> dex_id \<Rightarrow> asset_id \<Rightarrow> asset_id \<Rightarrow> liquidity_source_type \<Rightarrow> dispatch_error + bool" where
  "is_source_enabled_for_trading_pair r dex b t source =
     and_then (list_enabled_sources_for_trading_pair r dex b t) (\<lambda>sources. Inr (source \<in> sources))"

definition register_pair ::
  "chain \<Rightarrow> dex_id \<Rightarrow> asset_id \<Rightarrow> asset_id \<Rightarrow> (registry, dispatch_error, unit) run" where
  "register_pair env dex b t r =
     (case
        and_then (ensure (b \<noteq> t) IdenticalAssetIds) (\<lambda>_.
        and_then (get_dex_info r dex) (\<lambda>info.
        and_then (ensure (b = dex_base_asset_id info \<or> b = dex_synthetic_base_asset_id info) ForbiddenBaseAssetId) (\<lambda>_.
        and_then (ensure_asset_exists env b) (\<lambda>_.
        and_then (ensure_asset_exists env t) (\<lambda>_.
        ensure (enabled_sources r dex (pair_of b t) = None) TradingPairExists)))))
      of Inl e \<Rightarrow> (Inl e, r)
       | Inr _ \<Rightarrow>
           (Inr (), r \<lparr> EnabledSources := AList.update (dex, pair_of b t) {} (EnabledSources r),
                       TradingPairsStored := TradingPairsStored r @ [(dex, pair_of b t)] \<rparr>))"

definition register ::
  "(account_id \<Rightarrow> dex_id \<Rightarrow> dispatch_error + unit) \<Rightarrow> chain \<Rightarrow> account_id option \<Rightarrow> dex_id \<Rightarrow> asset_id \<Rightarrow> asset_id \<Rightarrow>
   (registry, dispatch_error, unit) run" where
  "register ensure_direct_manager env origin dex b t r =
     (case ensure_can_manage ensure_direct_manager r dex origin Public of
        Inl e \<Rightarrow> (Inl e, r)
      | Inr _ \<Rightarrow> register_pair env dex b t r)"

definition list_trading_pairs :: "registry \<Rightarrow> dex_id \<Rightarrow> dispatch_error + trading_pair list" where
  "list_trading_pairs r dex =
     and_then (ensure_dex_exists r dex) (\<lambda>_. Inr (map fst (iter_prefix (EnabledSources r) dex)))"

section \<open>Assets\<close>

definition is_non_divisible :: "registry \<Rightarrow> asset_id \<Rightarrow> bool" where
  "is_non_divisible r a \<longleftrightarrow> AssetPrecision r a = 0"

lemmas registry_exec [exec_simps] =
  get_dex_info_def ensure_dex_exists_def list_dex_ids_def ensure_can_manage_def pair_of_def enabled_sources_def
  is_trading_pair_enabled_def ensure_trading_pair_exists_def mutate_sources_def
  enable_source_for_trading_pair_def disable_source_for_trading_pair_def mutate_remove_def
  list_enabled_sources_for_trading_pair_def is_source_enabled_for_trading_pair_def register_pair_def
  register_def list_trading_pairs_def is_non_divisible_def

section \<open>What the registry promises\<close>

lemma enabled_sources_mutate:
  "enabled_sources (mutate_sources dex pair f r) dex' pair' =
     (if dex' = dex \<and> pair' = pair then map_option f (enabled_sources r dex pair) else enabled_sources r dex' pair')"
  by (auto simp: mutate_sources_def enabled_sources_def update_conv split: option.splits)

lemma mutate_sources_frame [simp]:
  "DEXInfos (mutate_sources dex pair f r) = DEXInfos r"
  "LockedLiquiditySources (mutate_sources dex pair f r) = LockedLiquiditySources r"
  "AssetPrecision (mutate_sources dex pair f r) = AssetPrecision r"
  by (auto simp: mutate_sources_def split: option.splits)

lemma enable_source_Inr [run_simps]:
  "enable_source_for_trading_pair dex b t source r = (Inr u, r') \<longleftrightarrow>
     ensure_trading_pair_exists r dex b t = Inr () \<and> r' = mutate_sources dex (pair_of b t) (insert source) r"
  by (auto simp: enable_source_for_trading_pair_def split: sum.splits)

lemma disable_source_Inr [run_simps]:
  "disable_source_for_trading_pair dex b t source r = (Inr u, r') \<longleftrightarrow>
     ensure_trading_pair_exists r dex b t = Inr () \<and>
     r' = mutate_sources dex (pair_of b t) (\<lambda>sources. sources - {source}) r"
  by (auto simp: disable_source_for_trading_pair_def split: sum.splits)

lemma trading_pair_exists_Inr:
  "ensure_trading_pair_exists r dex b t = Inr () \<longleftrightarrow>
     map_of (DEXInfos r) dex \<noteq> None \<and> enabled_sources r dex (pair_of b t) \<noteq> None"
  by (auto simp: ensure_trading_pair_exists_def is_trading_pair_enabled_def ensure_dex_exists_def run_simps)

lemma foldl_remove: "foldl (\<lambda>s locked. s - {locked}) s ls = s - set ls"
  by (induction ls arbitrary: s) auto

text \<open>A source is usable after it was enabled unless it is locked, and not after it was disabled.\<close>

lemma source_enabled:
  assumes "enable_source_for_trading_pair dex b t source r = (Inr u, r')"
  shows "is_source_enabled_for_trading_pair r' dex b t source = Inr (source \<notin> set (LockedLiquiditySources r))"
  using assms
  by (auto simp: enable_source_Inr trading_pair_exists_Inr is_source_enabled_for_trading_pair_def
      list_enabled_sources_for_trading_pair_def ensure_dex_exists_def enabled_sources_mutate foldl_remove)

lemma source_disabled:
  assumes "disable_source_for_trading_pair dex b t source r = (Inr u, r')"
  shows "is_source_enabled_for_trading_pair r' dex b t source = Inr False"
  using assms
  by (auto simp: disable_source_Inr trading_pair_exists_Inr is_source_enabled_for_trading_pair_def
      list_enabled_sources_for_trading_pair_def ensure_dex_exists_def enabled_sources_mutate foldl_remove)

text \<open>A pair is registered at most once, with no source enabled.\<close>

lemma register_pair_effect:
  assumes "register_pair env dex b t r = (Inr u, r')"
  shows "enabled_sources r dex (pair_of b t) = None" and "enabled_sources r' dex (pair_of b t) = Some {}"
    and "ensure_trading_pair_exists r' dex b t = Inr ()" and "register_pair env dex b t r' = (Inl TradingPairExists, r')"
  using assms
  by (auto simp: register_pair_def run_simps trading_pair_exists_Inr enabled_sources_def update_conv get_dex_info_def
      split: sum.splits)

end
