(* ===== verification/Order_Book_Pallet.thy ===== *)
theory Order_Book_Pallet
  imports Order_Book Cache_Data_Layer Dex_Registry
begin

text \<open>
  The pallet \<open>pallets/order-book/src/lib.rs\<close>: its storage, the checks on a new book and on its
  attributes, and the dispatchable calls. Every call that touches orders works on a fresh
  \<open>CacheDataLayer\<close> and commits it when it succeeds (\<open>run_cached\<close>).

  FRAME executes a dispatchable call in a storage transaction, so a failed call leaves no trace: \<open>dispatch\<close>.
\<close>

section \<open>State and environment\<close>

record pallet =
  Books :: book_storage
  OrderBooks :: "(order_book_id, order_book) storage"
  AlignmentCursor :: "(order_book_id, order_id) storage"
  IncompleteExpirationsSince :: "block option"
  Registry :: registry
  World :: world

type_synonym 'a pallet_run = "(pallet, dispatch_error, 'a) run"

record weight =
  ref_time :: nat
  proof_size :: nat

datatype pays = PaysYes | PaysNo

record post_info =
  actual_weight :: "weight option"
  pays_fee :: pays

text \<open>
  The origins of the runtime, its clock and the balances of the pallets that are not modelled.
  \<open>place_limit_order_without_cross_spread\<close> is the benchmarked weight.
\<close>

record 'o runtime =
  chain_of :: chain
  ensure_signed :: "'o \<Rightarrow> dispatch_error + account_id"
  PermittedCreateOrigin :: "'o \<Rightarrow> dispatch_error + (account_id + unit)"
  PermittedEditOrigin :: "'o \<Rightarrow> dispatch_error + unit"
  Currency_total_balance :: "world \<Rightarrow> asset_id \<Rightarrow> account_id \<Rightarrow> balance"
  GetTotalBalance :: "asset_id \<Rightarrow> account_id \<Rightarrow> dispatch_error + balance"
  Time_now :: moment
  block_number :: block
  place_limit_order_without_cross_spread :: weight

definition with_state :: "('s \<Rightarrow> 'e + 'a) \<Rightarrow> ('s, 'e, 'a) run" where
  "with_state f s = (f s, s)"

definition on_world :: "'a world_run \<Rightarrow> 'a pallet_run" where
  "on_world f p = (case f (World p) of (r, w) \<Rightarrow> (r, p \<lparr> World := w \<rparr>))"

definition on_registry :: "(registry, dispatch_error, 'a) run \<Rightarrow> 'a pallet_run" where
  "on_registry f p = (case f (Registry p) of (r, g) \<Rightarrow> (r, p \<lparr> Registry := g \<rparr>))"

text \<open>\<open>CacheDataLayer::new()\<close>, the work on it, \<open>data.commit()\<close>; an error returns before the commit.\<close>

definition run_cached :: "(cached, 'a) book_run \<Rightarrow> 'a pallet_run" where
  "run_cached f p =
     (case f ((cl_new, Books p), World p) of
        (Inl e, (d, w)) \<Rightarrow> (Inl e, p \<lparr> World := w \<rparr>)
      | (Inr a, (d, w)) \<Rightarrow> (Inr a, p \<lparr> Books := snd (cl_commit d), World := w \<rparr>))"

abbreviation cache_of :: "'o runtime \<Rightarrow> cached data_layer" where
  "cache_of rt \<equiv> cache_data_layer (chain_config (chain_of rt))"

definition get_order_book :: "order_book_id \<Rightarrow> order_book pallet_run" where
  "get_order_book obid = with_state (\<lambda>p. ok_or (map_of (OrderBooks p) obid) UnknownOrderBook)"

definition set_order_book :: "order_book_id \<Rightarrow> order_book \<Rightarrow> unit pallet_run" where
  "set_order_book obid book = smodify (\<lambda>p. p \<lparr> OrderBooks := AList.update obid book (OrderBooks p) \<rparr>)"

section \<open>Identifiers and attributes\<close>

definition assemble_order_book_id ::
  "registry \<Rightarrow> dex_id \<Rightarrow> asset_id \<Rightarrow> asset_id \<Rightarrow> order_book_id option" where
  "assemble_order_book_id r dex inp outp =
     (if inp = outp then None
      else case get_dex_info r dex of
             Inl _ \<Rightarrow> None
           | Inr info \<Rightarrow>
               if dex_base_asset_id info = inp
               then Some (OrderBookId dex outp (dex_base_asset_id info))
               else if dex_base_asset_id info = outp
               then Some (OrderBookId dex inp (dex_base_asset_id info))
               else None)"

text \<open>The discriminants of \<open>common::DEXId\<close> that may have order books.\<close>

definition Polkaswap :: dex_id where "Polkaswap = 0"
definition PolkaswapKUSD :: dex_id where "PolkaswapKUSD = 2"
definition PolkaswapVXOR :: dex_id where "PolkaswapVXOR = 3"
definition PolkaswapPresto :: dex_id where "PolkaswapPresto = 4"

definition verify_create_orderbook_params :: "chain \<Rightarrow> order_book_id \<Rightarrow> pallet \<Rightarrow> dispatch_error + unit" where
  "verify_create_orderbook_params env obid p =
     and_then (ensure (ob_base obid \<noteq> ob_quote obid) ForbiddenToCreateOrderBookWithSameAssets) (\<lambda>_.
     and_then (ensure (ob_dex obid = Polkaswap \<or> ob_dex obid = PolkaswapKUSD \<or> ob_dex obid = PolkaswapVXOR
         \<or> ob_dex obid = PolkaswapPresto) NotAllowedDEXId) (\<lambda>_.
     and_then (get_dex_info (Registry p) (ob_dex obid)) (\<lambda>info.
     and_then (ensure (ob_quote obid = dex_base_asset_id info) NotAllowedQuoteAsset) (\<lambda>_.
     and_then (ensure_asset_exists env (ob_base obid)) (\<lambda>_.
     and_then (ensure_trading_pair_exists (Registry p) (ob_dex obid) (ob_quote obid) (ob_base obid)) (\<lambda>_.
     ensure (map_of (OrderBooks p) obid = None) OrderBookAlreadyExists))))))"

definition verify_orderbook_attributes ::
  "config \<Rightarrow> registry \<Rightarrow> order_book_id \<Rightarrow> balance \<Rightarrow> balance \<Rightarrow> balance \<Rightarrow> balance \<Rightarrow> dispatch_error + unit" where
  "verify_orderbook_attributes cfg r obid tick step lot_min lot_max =
     and_then (ensure (0 < tick) InvalidTickSize) (\<lambda>_.
     and_then (ensure (0 < step) InvalidStepLotSize) (\<lambda>_.
     and_then (ensure (0 < lot_min) InvalidMinLotSize) (\<lambda>_.
     and_then (ensure (0 < lot_max) InvalidMaxLotSize) (\<lambda>_.
     and_then (ensure (lot_min \<le> lot_max) InvalidMaxLotSize) (\<lambda>_.
     and_then (ensure (step \<le> lot_min) InvalidMinLotSize) (\<lambda>_.
     and_then (ensure (step \<le> lot_max) InvalidMaxLotSize) (\<lambda>_.
     and_then (ensure (lot_min mod step = 0) InvalidMinLotSize) (\<lambda>_.
     and_then (ensure (lot_max mod step = 0) InvalidMaxLotSize) (\<lambda>_.
     and_then (ensure (lot_max \<le> saturating_mul_u u128_max lot_min (SOFT_MIN_MAX_RATIO cfg)) InvalidMaxLotSize) (\<lambda>_.
     if \<not> is_non_divisible r (ob_base obid)
     then and_then (ok_or (fw_lossless_mul (fw_from tick) (fw_from step)) TickSizeAndStepLotSizeLosePrecision) (\<lambda>m.
          and_then (map_err (\<lambda>_. TickSizeAndStepLotSizeAreTooBig) (try_into_balance m)) (\<lambda>_. Inr ()))
     else Inr ()))))))))))"

definition create_orderbook_unchecked ::
  "chain \<Rightarrow> order_book_id \<Rightarrow> balance \<Rightarrow> balance \<Rightarrow> balance \<Rightarrow> balance \<Rightarrow> unit pallet_run" where
  "create_orderbook_unchecked env obid tick step lot_min lot_max p =
     (let book =
            (if is_non_divisible (Registry p) (ob_base obid)
             then order_book_new obid (divisible tick) (indivisible step) (indivisible lot_min) (indivisible lot_max)
             else order_book_new obid (divisible tick) (divisible step) (divisible lot_min) (divisible lot_max))
      in sbind (set_order_book obid book) (\<lambda>_. on_world (register_tech_account env obid)) p)"

definition inner_create_orderbook ::
  "chain \<Rightarrow> order_book_id \<Rightarrow> balance \<Rightarrow> balance \<Rightarrow> balance \<Rightarrow> balance \<Rightarrow> unit pallet_run" where
  "inner_create_orderbook env obid tick step lot_min lot_max =
     sbind (with_state (verify_create_orderbook_params env obid)) (\<lambda>_.
     sbind (with_state (\<lambda>p. verify_orderbook_attributes (chain_config env) (Registry p) obid tick step lot_min lot_max)) (\<lambda>_.
     sbind (on_registry (enable_source_for_trading_pair (ob_dex obid) (ob_quote obid) (ob_base obid) OrderBookSource)) (\<lambda>_.
     create_orderbook_unchecked env obid tick step lot_min lot_max)))"

section \<open>Managing order books\<close>

text \<open>\<open>assets::total_balance\<close>.\<close>

definition total_balance :: "'o runtime \<Rightarrow> asset_id \<Rightarrow> account_id \<Rightarrow> world \<Rightarrow> dispatch_error + balance" where
  "total_balance rt asset who w =
     (let r = Currency_total_balance rt w asset who
      in and_then (if r = 0 then ensure_asset_exists (chain_of rt) asset else Inr ()) (\<lambda>_.
         and_then (GetTotalBalance rt asset who) (\<lambda>g. Inr (r + g))))"

definition create_orderbook ::
  "'o runtime \<Rightarrow> 'o \<Rightarrow> order_book_id \<Rightarrow> balance \<Rightarrow> balance \<Rightarrow> balance \<Rightarrow> balance \<Rightarrow> unit pallet_run" where
  "create_orderbook rt origin obid tick step lot_min lot_max =
     sbind (slift (PermittedCreateOrigin rt origin)) (\<lambda>origin_check_result.
     sbind
       (case origin_check_result of
          Inl who \<Rightarrow>
            with_state (\<lambda>p.
              if is_non_divisible (Registry p) (ob_base obid)
              then and_then (total_balance rt (ob_base obid) who (World p)) (\<lambda>b.
                   and_then (ensure (0 < b) UserHasNoNft) (\<lambda>_. Inr (Some who)))
              else Inl BadOrigin)
        | Inr _ \<Rightarrow> sret None)
       (\<lambda>maybe_who.
     sbind (inner_create_orderbook (chain_of rt) obid tick step lot_min lot_max) (\<lambda>_.
     on_world (deposit_event (OrderBookCreated obid maybe_who)))))"

definition delete_orderbook :: "'o runtime \<Rightarrow> 'o \<Rightarrow> order_book_id \<Rightarrow> unit pallet_run" where
  "delete_orderbook rt origin obid =
     sbind (slift (PermittedEditOrigin rt origin)) (\<lambda>_.
     sbind (get_order_book obid) (\<lambda>book.
     sbind (slift (ensure (book_status book = OnlyCancel \<or> book_status book = Stop)
       ForbiddenStatusToDeleteOrderBook)) (\<lambda>_.
     sbind (with_state (\<lambda>p. ensure (iter_prefix (LimitOrders (Books p)) obid = []) OrderBookIsNotEmpty)) (\<lambda>_.
     sbind (on_registry (disable_source_for_trading_pair (ob_dex obid) (ob_quote obid) (ob_base obid) OrderBookSource)) (\<lambda>_.
     sbind (on_world (deregister_tech_account (chain_of rt) obid)) (\<lambda>_.
     sbind (smodify (\<lambda>p. p \<lparr> OrderBooks := AList.delete obid (OrderBooks p) \<rparr>)) (\<lambda>_.
     on_world (deposit_event (OrderBookDeleted obid)))))))))"

definition update_orderbook ::
  "'o runtime \<Rightarrow> 'o \<Rightarrow> order_book_id \<Rightarrow> balance \<Rightarrow> balance \<Rightarrow> balance \<Rightarrow> balance \<Rightarrow> unit pallet_run" where
  "update_orderbook rt origin obid tick step lot_min lot_max =
     sbind (slift (PermittedEditOrigin rt origin)) (\<lambda>_.
     sbind (get_order_book obid) (\<lambda>book.
     sbind (slift (ensure (tech_status book = Ready) OrderBookIsLocked)) (\<lambda>_.
     sbind (slift (ensure (book_status book = OnlyCancel \<or> book_status book = Stop)
       ForbiddenStatusToUpdateOrderBook)) (\<lambda>_.
     sbind (with_state (\<lambda>p. verify_orderbook_attributes (chain_config (chain_of rt)) (Registry p) obid
       tick step lot_min lot_max)) (\<lambda>_.
     sbind (slift (ensure (lot_max \<le> saturating_mul_u u128_max (inner (min_lot_size book))
       (HARD_MIN_MAX_RATIO (chain_config (chain_of rt)))) InvalidMaxLotSize)) (\<lambda>_.
     let book' = book \<lparr> tick_size := bu_set (tick_size book) tick,
                        step_lot_size := bu_set (step_lot_size book) step,
                        min_lot_size := bu_set (min_lot_size book) lot_min,
                        max_lot_size := bu_set (max_lot_size book) lot_max \<rparr>
     in
     sbind
       (if inner (step_lot_size book) mod step \<noteq> 0
        then sbind (smodify (\<lambda>p. p \<lparr> AlignmentCursor := AList.update obid 0 (AlignmentCursor p) \<rparr>)) (\<lambda>_.
             sret (book' \<lparr> tech_status := Updating \<rparr>))
        else sret book')
       (\<lambda>book''.
     sbind (set_order_book obid book'') (\<lambda>_.
     on_world (deposit_event (OrderBookUpdated obid))))))))))"

definition change_orderbook_status ::
  "'o runtime \<Rightarrow> 'o \<Rightarrow> order_book_id \<Rightarrow> order_book_status \<Rightarrow> unit pallet_run" where
  "change_orderbook_status rt origin obid status =
     sbind (slift (PermittedEditOrigin rt origin)) (\<lambda>_.
     sbind (get_order_book obid) (\<lambda>book.
     sbind (slift (ensure (\<not> (tech_status book = Updating \<and> status \<noteq> OnlyCancel \<and> status \<noteq> Stop))
       OrderBookIsLocked)) (\<lambda>_.
     sbind (set_order_book obid (book \<lparr> book_status := status \<rparr>)) (\<lambda>_.
     on_world (deposit_event (OrderBookStatusChanged obid status))))))"

section \<open>Orders\<close>

definition volume_for :: "registry \<Rightarrow> order_book_id \<Rightarrow> balance \<Rightarrow> order_volume" where
  "volume_for r obid amount =
     (if is_non_divisible r (ob_base obid) then indivisible amount else divisible amount)"

definition inner_place_limit_order ::
  "'o runtime \<Rightarrow> account_id \<Rightarrow> order_book_id \<Rightarrow> balance \<Rightarrow> balance \<Rightarrow> price_variant \<Rightarrow> moment option \<Rightarrow> nat pallet_run" where
  "inner_place_limit_order rt owner obid price amount side lifespan =
     sbind (get_order_book obid) (\<lambda>book.
     let (i, book') = next_order_id book in
     sbind (with_state (\<lambda>p. Inr (volume_for (Registry p) obid amount))) (\<lambda>volume.
     let order = lo_new (chain_config (chain_of rt)) i owner side (divisible price) volume (Time_now rt)
                   (unwrap_or lifespan (MAX_ORDER_LIFESPAN (chain_config (chain_of rt)))) (block_number rt)
     in
     sbind (run_cached (place_limit_order (chain_of rt) (cache_of rt) book' order)) (\<lambda>executed_orders_count.
     sbind (set_order_book obid book') (\<lambda>_.
     sret executed_orders_count))))"

definition place_limit_order_call ::
  "'o runtime \<Rightarrow> 'o \<Rightarrow> order_book_id \<Rightarrow> balance \<Rightarrow> balance \<Rightarrow> price_variant \<Rightarrow> moment option \<Rightarrow> post_info pallet_run" where
  "place_limit_order_call rt origin obid price amount side lifespan =
     sbind (slift (ensure_signed rt origin)) (\<lambda>who.
     sbind (inner_place_limit_order rt who obid price amount side lifespan) (\<lambda>executed_orders_count.
     sret \<lparr> actual_weight =
              (if executed_orders_count = 0 then Some (place_limit_order_without_cross_spread rt) else None),
            pays_fee = PaysYes \<rparr>))"

text \<open>One order of a cancellation, on the caller's data layer; the books are read from storage.\<close>

definition cancel_owned ::
  "chain \<Rightarrow> 'd data_layer \<Rightarrow> (order_book_id, order_book) storage \<Rightarrow> account_id \<Rightarrow> order_book_id \<Rightarrow> order_id \<Rightarrow>
   ('d, unit) book_run" where
  "cancel_owned env dl books who obid i =
     sbind (on_fst (dl_get_limit_order dl obid i)) (\<lambda>order.
     sbind (slift (ensure (lo_owner order = who) Unauthorized)) (\<lambda>_.
     sbind (slift (ok_or (map_of books obid) UnknownOrderBook)) (\<lambda>book.
     cancel_limit_order env dl book order)))"

definition cancel_limit_order_call ::
  "'o runtime \<Rightarrow> 'o \<Rightarrow> order_book_id \<Rightarrow> order_id \<Rightarrow> post_info pallet_run" where
  "cancel_limit_order_call rt origin obid i =
     sbind (slift (ensure_signed rt origin)) (\<lambda>who.
     sbind (\<lambda>p. run_cached (cancel_owned (chain_of rt) (cache_of rt) (OrderBooks p) who obid i) p) (\<lambda>_.
     sret \<lparr> actual_weight = None, pays_fee = PaysNo \<rparr>))"

definition cancel_limit_orders_batch ::
  "'o runtime \<Rightarrow> 'o \<Rightarrow> (order_book_id \<times> order_id list) list \<Rightarrow> post_info pallet_run" where
  "cancel_limit_orders_batch rt origin limit_orders_to_cancel =
     sbind (slift (ensure_signed rt origin)) (\<lambda>who.
     sbind
       (\<lambda>p. run_cached
          (sfor (\<lambda>(obid, order_ids). sfor (cancel_owned (chain_of rt) (cache_of rt) (OrderBooks p) who obid) order_ids)
             limit_orders_to_cancel) p) (\<lambda>_.
     sret \<lparr> actual_weight = None, pays_fee = PaysNo \<rparr>))"

definition execute_market_order_call ::
  "'o runtime \<Rightarrow> 'o \<Rightarrow> order_book_id \<Rightarrow> price_variant \<Rightarrow> balance \<Rightarrow> unit pallet_run" where
  "execute_market_order_call rt origin obid direction amount =
     sbind (slift (ensure_signed rt origin)) (\<lambda>who.
     sbind (with_state (\<lambda>p. ensure (is_non_divisible (Registry p) (ob_base obid))
       MarketOrdersAllowedOnlyForIndivisibleAssets)) (\<lambda>_.
     sbind (get_order_book obid) (\<lambda>book.
     sbind (run_cached (execute_market_order (chain_of rt) (cache_of rt) book
       \<lparr> mo_owner = who, mo_direction = direction, mo_order_book_id = obid, mo_amount = indivisible amount,
         mo_to = None \<rparr>)) (\<lambda>_.
     sret ()))))"

section \<open>Dispatch\<close>

text \<open>The calls of the pallet, and their dispatch in a storage transaction.\<close>

datatype call =
    CreateOrderbook order_book_id balance balance balance balance
  | DeleteOrderbook order_book_id
  | UpdateOrderbook order_book_id balance balance balance balance
  | ChangeOrderbookStatus order_book_id order_book_status
  | PlaceLimitOrder order_book_id balance balance price_variant "moment option"
  | CancelLimitOrder order_book_id order_id
  | CancelLimitOrdersBatch "(order_book_id \<times> order_id list) list"
  | ExecuteMarketOrder order_book_id price_variant balance

definition without_info :: "post_info pallet_run \<Rightarrow> unit pallet_run" where
  "without_info f = sbind f (\<lambda>_. sret ())"

fun call_body :: "'o runtime \<Rightarrow> 'o \<Rightarrow> call \<Rightarrow> unit pallet_run" where
  "call_body rt origin (CreateOrderbook obid tick step lot_min lot_max) =
     create_orderbook rt origin obid tick step lot_min lot_max"
| "call_body rt origin (DeleteOrderbook obid) = delete_orderbook rt origin obid"
| "call_body rt origin (UpdateOrderbook obid tick step lot_min lot_max) =
     update_orderbook rt origin obid tick step lot_min lot_max"
| "call_body rt origin (ChangeOrderbookStatus obid status) = change_orderbook_status rt origin obid status"
| "call_body rt origin (PlaceLimitOrder obid price amount side lifespan) =
     without_info (place_limit_order_call rt origin obid price amount side lifespan)"
| "call_body rt origin (CancelLimitOrder obid i) = without_info (cancel_limit_order_call rt origin obid i)"
| "call_body rt origin (CancelLimitOrdersBatch orders) = without_info (cancel_limit_orders_batch rt origin orders)"
| "call_body rt origin (ExecuteMarketOrder obid direction amount) =
     execute_market_order_call rt origin obid direction amount"

definition dispatch :: "'o runtime \<Rightarrow> 'o \<Rightarrow> call \<Rightarrow> unit pallet_run" where
  "dispatch rt origin c = transactional (call_body rt origin c)"

lemmas pallet_exec [exec_simps] =
  with_state_def on_world_def on_registry_def run_cached_def get_order_book_def set_order_book_def
  verify_create_orderbook_params_def verify_orderbook_attributes_def create_orderbook_unchecked_def
  inner_create_orderbook_def total_balance_def create_orderbook_def delete_orderbook_def
  update_orderbook_def change_orderbook_status_def volume_for_def inner_place_limit_order_def
  place_limit_order_call_def cancel_owned_def cancel_limit_order_call_def cancel_limit_orders_batch_def
  execute_market_order_call_def without_info_def dispatch_def

end
