(* ===== verification/Liquidity_Source.thy ===== *)
theory Liquidity_Source
  imports Order_Book_Pallet
begin

text \<open>
  The order book as a liquidity source: \<open>impl LiquiditySource for Pallet\<close> of
  \<open>pallets/order-book/src/lib.rs\<close>, with the types of \<open>common/src/swap_amount.rs\<close> and
  \<open>common/src/alt.rs\<close> it answers in. The weights that the functions return beside their result are
  constants of the benchmarks and left out.
\<close>

section \<open>Types\<close>

datatype swap_amount =
    SwapWithDesiredInput (desired_amount_in: balance) (min_amount_out: balance)
  | SwapWithDesiredOutput (desired_amount_out: balance) (max_amount_in: balance)

fun quote_of_swap :: "swap_amount \<Rightarrow> quote_amount" where
  "quote_of_swap (SwapWithDesiredInput desired _) = WithDesiredInput desired"
| "quote_of_swap (SwapWithDesiredOutput desired _) = WithDesiredOutput desired"

fun quote_amount_of :: "quote_amount \<Rightarrow> balance" where
  "quote_amount_of (WithDesiredInput a) = a"
| "quote_amount_of (WithDesiredOutput a) = a"

type_synonym outcome_fee = "(asset_id, balance) btree"

record swap_outcome =
  outcome_amount :: balance
  outcome_fee :: outcome_fee

datatype side_amount = Input balance | Output balance

record swap_chunk =
  chunk_input :: balance
  chunk_output :: balance
  chunk_fee :: outcome_fee

record swap_limits =
  min_amount :: "side_amount option"
  max_amount :: "side_amount option"
  amount_precision :: "side_amount option"

record discrete_quotation =
  chunks :: "swap_chunk list"
  limits :: swap_limits

definition discrete_quotation_new :: discrete_quotation where
  "discrete_quotation_new =
     \<lparr> chunks = [], limits = \<lparr> min_amount = None, max_amount = None, amount_precision = None \<rparr> \<rparr>"

section \<open>Quoting\<close>

definition find_order_book ::
  "dex_id \<Rightarrow> asset_id \<Rightarrow> asset_id \<Rightarrow> pallet \<Rightarrow> dispatch_error + (order_book_id \<times> order_book)" where
  "find_order_book dex inp outp p =
     and_then (ok_or (assemble_order_book_id (Registry p) dex inp outp) UnknownOrderBook) (\<lambda>obid.
     and_then (ok_or (map_of (OrderBooks p) obid) UnknownOrderBook) (\<lambda>book.
     Inr (obid, book)))"

definition can_exchange :: "dex_id \<Rightarrow> asset_id \<Rightarrow> asset_id \<Rightarrow> pallet \<Rightarrow> bool" where
  "can_exchange dex inp outp p =
     (case find_order_book dex inp outp p of Inl _ \<Rightarrow> False | Inr (_, book) \<Rightarrow> book_status book = Trade)"

text \<open>What the read-only functions see through a fresh \<open>CacheDataLayer\<close>.\<close>

definition peek :: "(cached, dispatch_error, 'a) run \<Rightarrow> pallet \<Rightarrow> dispatch_error + 'a" where
  "peek f p = fst (f (cl_new, Books p))"

definition quote_source ::
  "'o runtime \<Rightarrow> dex_id \<Rightarrow> asset_id \<Rightarrow> asset_id \<Rightarrow> quote_amount \<Rightarrow> pallet \<Rightarrow> dispatch_error + swap_outcome" where
  "quote_source rt dex inp outp amount p =
     and_then (find_order_book dex inp outp p) (\<lambda>(_, book).
     and_then (peek (calculate_deal (cache_of rt) book inp outp amount) p) (\<lambda>deal.
     and_then (ensure (deal_is_valid deal) PriceCalculationFailed) (\<lambda>_.
     and_then (ensure (min_lot_size book \<le> deal_base_amount_of deal \<and> deal_base_amount_of deal \<le> max_lot_size book)
       InvalidOrderAmount) (\<lambda>_.
     Inr \<lparr> outcome_amount =
             (case amount of
                WithDesiredInput _ \<Rightarrow> inner (amount_value (di_output_amount deal))
              | WithDesiredOutput _ \<Rightarrow> inner (amount_value (di_input_amount deal))),
           outcome_fee = [] \<rparr>))))"

definition price_of_best ::
  "'o runtime \<Rightarrow> order_book \<Rightarrow> price_variant \<Rightarrow> pallet \<Rightarrow> order_price option" where
  "price_of_best rt book direction p =
     map_option fst (fst ((case direction of
        Buy \<Rightarrow> best_ask (cache_of rt) book
      | Sell \<Rightarrow> best_bid (cache_of rt) book) (cl_new, Books p)))"

text \<open>
  The base volume that an amount of the base asset gives is aligned; an amount of the quote asset is
  divided by the best price first.
\<close>

definition quote_without_impact ::
  "'o runtime \<Rightarrow> dex_id \<Rightarrow> asset_id \<Rightarrow> asset_id \<Rightarrow> quote_amount \<Rightarrow> pallet \<Rightarrow> dispatch_error + swap_outcome" where
  "quote_without_impact rt dex inp outp amount p =
     and_then (find_order_book dex inp outp p) (\<lambda>(_, book).
     and_then (get_direction book inp outp) (\<lambda>direction.
     and_then (ok_or (price_of_best rt book direction p) NotEnoughLiquidityInOrderBook) (\<lambda>price.
     let from_base = (\<lambda>desired.
           let base_amount = align_amount book (copy_divisibility (step_lot_size book) desired)
           in and_then (ok_or (bu_checked_mul base_amount price) AmountCalculationFailed) (\<lambda>quote_amount.
              Inr (quote_amount, base_amount)));
         from_quote = (\<lambda>desired.
           and_then (ok_or (bu_checked_div (copy_divisibility (tick_size book) desired) price) AmountCalculationFailed)
             (\<lambda>q. let base_amount = align_amount book q in Inr (base_amount, base_amount)))
     in
     and_then
       (case amount of
          WithDesiredInput desired \<Rightarrow> (case direction of Buy \<Rightarrow> from_quote desired | Sell \<Rightarrow> from_base desired)
        | WithDesiredOutput desired \<Rightarrow> (case direction of Buy \<Rightarrow> from_base desired | Sell \<Rightarrow> from_quote desired))
       (\<lambda>(target_amount, base_amount).
     and_then (ensure (bu_zero < target_amount) InvalidOrderAmount) (\<lambda>_.
     and_then (ensure (min_lot_size book \<le> base_amount \<and> base_amount \<le> max_lot_size book) InvalidOrderAmount) (\<lambda>_.
     Inr \<lparr> outcome_amount = inner target_amount, outcome_fee = [] \<rparr>))))))"

section \<open>Stepwise quotation\<close>

definition step_limits ::
  "price_variant \<Rightarrow> quote_amount \<Rightarrow> order_book \<Rightarrow> balance \<Rightarrow> balance \<Rightarrow> balance \<Rightarrow> balance \<Rightarrow> swap_limits" where
  "step_limits direction amount book base_min quote_min base_max quote_max =
     (let step = inner (step_lot_size book) in
      case (amount, direction) of
        (WithDesiredInput _, Buy) \<Rightarrow>
          \<lparr> min_amount = Some (Input quote_min), max_amount = Some (Input quote_max), amount_precision = Some (Output step) \<rparr>
      | (WithDesiredInput _, Sell) \<Rightarrow>
          \<lparr> min_amount = Some (Input base_min), max_amount = Some (Input base_max), amount_precision = Some (Input step) \<rparr>
      | (WithDesiredOutput _, Buy) \<Rightarrow>
          \<lparr> min_amount = Some (Output base_min), max_amount = Some (Output base_max), amount_precision = Some (Output step) \<rparr>
      | (WithDesiredOutput _, Sell) \<Rightarrow>
          \<lparr> min_amount = Some (Output quote_min), max_amount = Some (Output quote_max), amount_precision = Some (Input step) \<rparr>)"

text \<open>The target, or None when the desired amount is below the minimum of its side.\<close>

definition step_target ::
  "price_variant \<Rightarrow> quote_amount \<Rightarrow> order_book \<Rightarrow> balance \<Rightarrow> balance \<Rightarrow> balance \<Rightarrow> balance \<Rightarrow> order_amount option" where
  "step_target direction amount book base_min quote_min base_max quote_max =
     (let quote_side = (\<lambda>desired.
            if desired < quote_min then None
            else Some (Quote (copy_divisibility (tick_size book) (min desired quote_max))));
          base_side = (\<lambda>desired.
            if desired < base_min then None
            else Some (Base (copy_divisibility (step_lot_size book) (min desired base_max))))
      in case (amount, direction) of
           (WithDesiredInput desired, Buy) \<Rightarrow> quote_side desired
         | (WithDesiredInput desired, Sell) \<Rightarrow> base_side desired
         | (WithDesiredOutput desired, Buy) \<Rightarrow> base_side desired
         | (WithDesiredOutput desired, Sell) \<Rightarrow> quote_side desired)"

fun step_chunks ::
  "price_variant \<Rightarrow> order_amount \<Rightarrow> market_side \<Rightarrow> order_volume \<Rightarrow> dispatch_error + swap_chunk list" where
  "step_chunks direction target [] target_sum = Inr []"
| "step_chunks direction target ((price, base_volume) # rest) target_sum =
     and_then (ok_or (bu_checked_mul price base_volume) AmountCalculationFailed) (\<lambda>quote_volume.
     let chunk = (case direction of
           Buy \<Rightarrow> \<lparr> chunk_input = inner quote_volume, chunk_output = inner base_volume, chunk_fee = [] \<rparr>
         | Sell \<Rightarrow> \<lparr> chunk_input = inner base_volume, chunk_output = inner quote_volume, chunk_fee = [] \<rparr>)
     in
     and_then (ok_or (case target of
           Base _ \<Rightarrow> bu_checked_add target_sum base_volume
         | Quote _ \<Rightarrow> bu_checked_add target_sum quote_volume) AmountCalculationFailed) (\<lambda>target_sum'.
     if amount_value target \<le> target_sum' then Inr [chunk]
     else and_then (step_chunks direction target rest target_sum') (\<lambda>cs. Inr (chunk # cs))))"

definition step_quote ::
  "'o runtime \<Rightarrow> dex_id \<Rightarrow> asset_id \<Rightarrow> asset_id \<Rightarrow> quote_amount \<Rightarrow> pallet \<Rightarrow> dispatch_error + discrete_quotation" where
  "step_quote rt dex inp outp amount p =
     and_then (ok_or (assemble_order_book_id (Registry p) dex inp outp) UnknownOrderBook) (\<lambda>obid.
     if quote_amount_of amount = 0 then Inr discrete_quotation_new
     else
     and_then (ok_or (map_of (OrderBooks p) obid) UnknownOrderBook) (\<lambda>book.
     and_then (get_direction book inp outp) (\<lambda>direction.
     and_then (peek (market_depth (cache_of rt) book (switched direction) (Some (Base (max_lot_size book)))) p) (\<lambda>depth.
     and_then (sum_market book depth (Some (Base (min_lot_size book))) False) (\<lambda>(base_min, quote_min).
     if amount_value base_min < min_lot_size book then Inr discrete_quotation_new
     else
     and_then (sum_market book depth (Some (Base (max_lot_size book))) False) (\<lambda>(base_max, quote_max).
     let bmin = inner (amount_value base_min); qmin = inner (amount_value quote_min);
         bmax = inner (amount_value base_max); qmax = inner (amount_value quote_max);
         lims = step_limits direction amount book bmin qmin bmax qmax
     in case step_target direction amount book bmin qmin bmax qmax of
          None \<Rightarrow> Inr \<lparr> chunks = [], limits = lims \<rparr>
        | Some target \<Rightarrow>
            and_then (step_chunks direction target depth bu_zero) (\<lambda>cs. Inr \<lparr> chunks = cs, limits = lims \<rparr>)))))))"

section \<open>Exchange\<close>

text \<open>The slippage limit of a swap, on the amounts that went in and out.\<close>

definition within_slippage :: "swap_amount \<Rightarrow> order_amount \<Rightarrow> order_amount \<Rightarrow> dispatch_error + unit" where
  "within_slippage desired inp outp =
     (case desired of
        SwapWithDesiredInput _ min_out \<Rightarrow> ensure (min_out \<le> inner (amount_value outp)) SlippageLimitExceeded
      | SwapWithDesiredOutput _ max_in \<Rightarrow> ensure (inner (amount_value inp) \<le> max_in) SlippageLimitExceeded)"

definition exchange_cached ::
  "chain \<Rightarrow> 'd data_layer \<Rightarrow> order_book_id \<Rightarrow> order_book \<Rightarrow> account_id \<Rightarrow> account_id \<Rightarrow> asset_id \<Rightarrow> asset_id \<Rightarrow>
   swap_amount \<Rightarrow> ('d, swap_outcome) book_run" where
  "exchange_cached env dl obid book sender receiver inp_asset outp_asset desired =
     sbind (on_fst (calculate_deal dl book inp_asset outp_asset (quote_of_swap desired))) (\<lambda>deal.
     sbind (slift (ensure (deal_is_valid deal) PriceCalculationFailed)) (\<lambda>_.
     sbind (slift (within_slippage desired (di_input_amount deal) (di_output_amount deal))) (\<lambda>_.
     sbind (execute_market_order env dl book
       \<lparr> mo_owner = sender, mo_direction = di_direction deal, mo_order_book_id = obid,
         mo_amount = deal_base_amount_of deal, mo_to = (if sender = receiver then None else Some receiver) \<rparr>)
       (\<lambda>(inp, outp, executed_orders_count).
     sbind (slift (within_slippage desired inp outp)) (\<lambda>_.
     sret \<lparr> outcome_amount =
              (case desired of
                 SwapWithDesiredInput _ _ \<Rightarrow> inner (amount_value outp)
               | SwapWithDesiredOutput _ _ \<Rightarrow> inner (amount_value inp)),
            outcome_fee = [] \<rparr>)))))"

definition exchange ::
  "'o runtime \<Rightarrow> account_id \<Rightarrow> account_id \<Rightarrow> dex_id \<Rightarrow> asset_id \<Rightarrow> asset_id \<Rightarrow> swap_amount \<Rightarrow> swap_outcome pallet_run" where
  "exchange rt sender receiver dex inp_asset outp_asset desired =
     sbind (with_state (find_order_book dex inp_asset outp_asset)) (\<lambda>(obid, book).
     run_cached (exchange_cached (chain_of rt) (cache_of rt) obid book sender receiver inp_asset outp_asset desired))"

text \<open>
  The liquidity proxy, the only caller of \<open>exchange\<close>, refuses assets that are not divisible
  (\<open>pallets/liquidity-proxy/src/lib.rs\<close>).
\<close>

definition check_indivisible_assets :: "registry \<Rightarrow> asset_id \<Rightarrow> asset_id \<Rightarrow> dispatch_error + unit" where
  "check_indivisible_assets r inp outp =
     ensure (\<not> is_non_divisible r inp \<and> \<not> is_non_divisible r outp) UnableToSwapIndivisibleAssets"

end
