(* ===== verification/Quoting.thy ===== *)
theory Quoting
  imports Cross_Spread
begin

text \<open>
  What \<open>sum_market\<close> promises of a deal in a book of a divisible asset: the amount of the target is not
  exceeded, and matching the order for the base amount of the deal, which rounds each order down by itself,
  costs at most the quoted amount.
\<close>

section \<open>Rounding\<close>

lemma cost_simps [simp]:
  "cost d [] = 0" "cost d ((x, n) # fs) = quote_units (lo_price x) d n + cost d fs"
  by (simp_all add: cost_def)

lemma cost_nothing [simp]: "cost True (fills 0 xs) = 0"
  by (cases xs) (auto simp: quote_units_def)

lemma sums_cost_taken:
  "maker_sum Buy d fs = cost d fs" "maker_sum Sell d fs = taken fs" "taker_sum Buy d fs = taken fs" "taker_sum Sell d fs = cost d fs"
  by (induction fs) (auto simp: maker_sum_def taker_sum_def cost_def taken_def maker_units_def taker_units_def)

lemma cost_in_level:
  assumes "\<forall>x\<in>set xs. lo_price x = p" and "n \<le> sum_list (map (\<lambda>x. inner (lo_amount x)) xs)"
  shows "cost True (fills n (xs @ ys)) \<le> inner p * n div ratio"
  using assms
proof (induction xs arbitrary: n)
  case (Cons x xs)
  let ?a = "inner (lo_amount x)"
  show ?case
  proof (cases "?a < n")
    case True
    then have "cost True (fills (n - ?a) (xs @ ys)) \<le> inner p * (n - ?a) div ratio"
      using Cons.prems by (intro Cons.IH) auto
    moreover have "inner p * ?a div ratio + inner p * (n - ?a) div ratio \<le> (inner p * ?a + inner p * (n - ?a)) div ratio"
      by (rule div_superadd)
    moreover have "inner p * ?a + inner p * (n - ?a) = inner p * n"
      using True by (simp add: diff_mult_distrib2)
    ultimately show ?thesis using True Cons.prems(1) by (simp add: quote_units_def)
  qed (use Cons.prems(1) in \<open>auto simp: quote_units_def\<close>)
qed simp

lemma cost_past_level:
  assumes "\<forall>x\<in>set xs. lo_price x = p" and "sum_list (map (\<lambda>x. inner (lo_amount x)) xs) \<le> n"
  shows "cost True (fills n (xs @ ys)) \<le>
    inner p * sum_list (map (\<lambda>x. inner (lo_amount x)) xs) div ratio + cost True (fills (n - sum_list (map (\<lambda>x. inner (lo_amount x)) xs)) ys)"
  using assms
proof (induction xs arbitrary: n)
  case (Cons x xs)
  let ?a = "inner (lo_amount x)" and ?s = "sum_list (map (\<lambda>x. inner (lo_amount x)) xs)"
  show ?case
  proof (cases "?a < n")
    case True
    then have "cost True (fills (n - ?a) (xs @ ys)) \<le> inner p * ?s div ratio + cost True (fills (n - ?a - ?s) ys)"
      using Cons.prems by (intro Cons.IH) auto
    moreover have "inner p * ?a div ratio + inner p * ?s div ratio \<le> (inner p * ?a + inner p * ?s) div ratio"
      by (rule div_superadd)
    ultimately show ?thesis using True Cons.prems(1) by (simp add: quote_units_def add_mult_distrib2)
  next
    case False
    moreover have "?a + ?s \<le> n" using Cons.prems(2) by simp
    ultimately have n: "n = ?a" by linarith
    have "inner p * ?a div ratio \<le> inner p * (?a + ?s) div ratio" by (intro div_le_mono mult_le_mono2) simp
    then show ?thesis using Cons.prems(1) by (simp add: n quote_units_def)
  qed
qed simp

text \<open>Dividing by the price and multiplying by it again gives no more than before.\<close>

lemma price_round_trip: "p * (left * ratio div p div s * s) div ratio \<le> (left::nat)"
proof -
  have "p * (left * ratio div p div s * s) \<le> p * (left * ratio div p)" by simp
  also have "\<dots> \<le> left * ratio" by simp
  finally have "p * (left * ratio div p div s * s) div ratio \<le> left * ratio div ratio" by (rule div_le_mono)
  then show ?thesis by simp
qed

lemma base_within_level:
  assumes "left \<le> p * v div ratio" and "0 < p"
  shows "left * ratio div p div s * s \<le> (v::nat)"
proof -
  have "left * ratio \<le> p * v"
    using assms(1) by (metis div_times_less_eq_dividend mult_le_mono1 le_trans)
  then have "left * ratio div p \<le> p * v div p" by (rule div_le_mono)
  then have "left * ratio div p \<le> v" using assms(2) by simp
  moreover have "left * ratio div p div s * s \<le> left * ratio div p" by simp
  ultimately show ?thesis by linarith
qed

section \<open>The deal\<close>

lemma divisible_ops:
  assumes "is_divisible y"
  shows "has_div True x \<Longrightarrow> bu_checked_add x y = Some z \<longleftrightarrow> z = divisible (inner x + inner y) \<and> inner x + inner y \<le> u128_max"
    and "has_div True x \<Longrightarrow> bu_checked_sub y x = Some z \<longleftrightarrow> z = divisible (inner y - inner x) \<and> inner x \<le> inner y"
    and "is_divisible x \<Longrightarrow> bu_checked_mul x y = Some z \<Longrightarrow> z = divisible (inner x * inner y div ratio)"
    and "is_divisible x \<Longrightarrow> bu_checked_div x y = Some z \<Longrightarrow> z = divisible (inner x * ratio div inner y) \<and> inner z \<le> i128_max"
    and "is_divisible x \<Longrightarrow> x \<le> y \<longleftrightarrow> inner x \<le> inner y"
  using assms
  by (auto simp: has_div_def bu_checked_add_Some bu_checked_sub_Some_iff bu_checked_mul_divisible bu_checked_div_def balance_div ratio_coef
      bu_value_def bu_eq_iff bu_align_checked_def checked_mul_u_def bu_less_eq_value split: if_splits)

text \<open>
  What the last level adds: the base amount stays within the level and the quote amount is that of the
  level's price.
\<close>

lemma sum_final_result:
  assumes "sum_final p (align_amount book left) base quote = Inr (b, q, e)"
    and "is_divisible p" "is_divisible left" "has_div True base" "has_div True quote" and "inner left \<le> u128_max"
  shows "b = divisible (inner base + inner left div inner (step_lot_size book) * inner (step_lot_size book))"
    and "q = divisible (inner quote + inner p * (inner left div inner (step_lot_size book) * inner (step_lot_size book)) div ratio)"
proof -
  let ?n = "inner left div inner (step_lot_size book) * inner (step_lot_size book)"
  have delta: "align_amount book left = divisible ?n" using assms(3,6) by (simp add: align_amount_eq divisible_def bu_new_def)
  from assms(1) obtain quote_delta where b: "bu_checked_add base (divisible ?n) = Some b"
    and qd: "bu_checked_mul p (divisible ?n) = Some quote_delta" and q: "bu_checked_add quote quote_delta = Some q"
    by (auto simp: sum_final_def delta run_simps)
  show "b = divisible (inner base + ?n)" using b assms(4) by (simp add: divisible_ops(1))
  have "quote_delta = divisible (inner p * ?n div ratio)" using divisible_ops(3) [OF _ assms(2) qd] by simp
  then show "q = divisible (inner quote + inner p * ?n div ratio)" using q assms(5) by (simp add: divisible_ops(1))
qed

text \<open>One level of the loop: it is the last one, or all of it is taken.\<close>

definition within_target :: "order_amount \<Rightarrow> nat \<Rightarrow> nat \<Rightarrow> bool" where
  "within_target t b q \<longleftrightarrow> (case t of Base x \<Rightarrow> b \<le> inner x | Quote x \<Rightarrow> q \<le> inner x)"

lemma sum_step_base:
  assumes run: "sum_market_loop book (Some (Base x)) ((p, v) # m) base quote = Inr (b, q, True)"
    and div: "has_div True base" "is_divisible x" "is_divisible p" "is_divisible v"
    and x: "inner base \<le> inner x"
  defines "s \<equiv> inner (step_lot_size book)" and "qv \<equiv> inner p * inner v div ratio"
  shows "(\<exists>left. sum_final p (align_amount book left) base quote = Inr (b, q, True) \<and> is_divisible left \<and> inner left \<le> u128_max \<and>
      inner left div s * s \<le> inner v \<and> inner base + inner left div s * s \<le> inner x) \<or>
    (\<exists>base' quote'. bu_checked_add base v = Some base' \<and> bu_checked_add quote (divisible qv) = Some quote' \<and>
      sum_market_loop book (Some (Base x)) m base' quote' = Inr (b, q, True) \<and> inner base + inner v \<le> inner x)"
proof -
  from run obtain reached where reached: "bu_checked_add base v = Some reached" "bu_checked_mul p v = Some (divisible qv)"
    using divisible_ops(3) [OF div(4,3)] by (auto simp: run_simps qv_def)
  then have r: "reached = divisible (inner base + inner v)" "inner base + inner v \<le> u128_max"
    using div(1,4) by (auto simp: divisible_ops(1))
  show ?thesis
  proof (cases "x \<le> reached")
    case True
    let ?left = "divisible (inner x - inner base)"
    have le: "inner x \<le> inner base + inner v" using True div(2) by (simp add: r divisible_ops(5))
    have "bu_checked_sub x base = Some ?left" using x div(1,2) by (simp add: divisible_ops(2))
    then have "sum_final p (align_amount book ?left) base quote = Inr (b, q, True)"
      using run True reached by (simp add: run_simps)
    moreover have round: "(inner x - inner base) div s * s \<le> inner x - inner base" by simp
    have "(inner x - inner base) div s * s \<le> inner v" "inner base + (inner x - inner base) div s * s \<le> inner x"
      "inner x - inner base \<le> u128_max"
      using round le x r(2) by linarith+
    ultimately show ?thesis by (intro disjI1 exI [of _ ?left]) simp
  next
    case False
    then have "inner base + inner v \<le> inner x" using div(2) by (simp add: r divisible_ops(5))
    then show ?thesis using run reached False by (auto simp: run_simps)
  qed
qed

lemma sum_step_quote:
  assumes run: "sum_market_loop book (Some (Quote x)) ((p, v) # m) base quote = Inr (b, q, True)"
    and div: "has_div True quote" "is_divisible x" "is_divisible p" "is_divisible v"
    and x: "inner quote \<le> inner x" and p: "0 < inner p"
  defines "s \<equiv> inner (step_lot_size book)" and "qv \<equiv> inner p * inner v div ratio"
  shows "(\<exists>left. sum_final p (align_amount book left) base quote = Inr (b, q, True) \<and> is_divisible left \<and> inner left \<le> u128_max \<and>
      inner left div s * s \<le> inner v \<and> inner quote + inner p * (inner left div s * s) div ratio \<le> inner x) \<or>
    (\<exists>base' quote'. bu_checked_add base v = Some base' \<and> bu_checked_add quote (divisible qv) = Some quote' \<and>
      sum_market_loop book (Some (Quote x)) m base' quote' = Inr (b, q, True) \<and> inner quote + qv \<le> inner x)"
proof -
  have mul: "bu_checked_mul p v = Some (divisible qv)"
    using run divisible_ops(3) [OF div(4,3)] by (cases "bu_checked_mul p v") (simp_all add: qv_def)
  obtain reached where reached: "bu_checked_add quote (divisible qv) = Some reached"
    using run mul by (cases "bu_checked_add quote (divisible qv)") simp_all
  then have r: "reached = divisible (inner quote + qv)" using div(1) by (simp add: divisible_ops(1))
  show ?thesis
  proof (cases "x \<le> reached")
    case True
    let ?left = "divisible (inner x - inner quote)"
    have le: "inner x - inner quote \<le> qv" using True div(2) by (simp add: r divisible_ops(5))
    have "bu_checked_sub x quote = Some ?left" using x div(1,2) by (simp add: divisible_ops(2))
    with run mul True reached obtain lb where lb: "bu_checked_div ?left p = Some lb"
      and fin: "sum_final p (align_amount book lb) base quote = Inr (b, q, True)"
      by (cases "bu_checked_div ?left p") simp_all
    have lb': "lb = divisible ((inner x - inner quote) * ratio div inner p)" "inner lb \<le> i128_max"
      using divisible_ops(4) [OF div(3) _ lb] by auto
    have "inner lb div s * s \<le> inner v" using base_within_level [OF le [unfolded qv_def] p] by (simp add: lb')
    moreover have "inner p * (inner lb div s * s) div ratio \<le> inner x - inner quote"
      using price_round_trip by (simp add: lb')
    ultimately show ?thesis using fin lb' i128_le_u128 x by (intro disjI1 exI [of _ lb]) auto
  next
    case False
    then have "inner quote + qv \<le> inner x" using div(2) by (simp add: r divisible_ops(5))
    then show ?thesis using run mul reached False by (cases "bu_checked_add base v") simp_all
  qed
qed

lemma sum_step:
  assumes "sum_market_loop book (Some t) ((p, v) # m) base quote = Inr (b, q, True)"
    and "has_div True base" "has_div True quote" "is_divisible (amount_value t)" "is_divisible p" "is_divisible v"
    and "within_target t (inner base) (inner quote)" and "0 < inner p"
  defines "s \<equiv> inner (step_lot_size book)" and "qv \<equiv> inner p * inner v div ratio"
  obtains (last) left where "sum_final p (align_amount book left) base quote = Inr (b, q, True)" and "is_divisible left"
      and "inner left \<le> u128_max" and "inner left div s * s \<le> inner v"
      and "within_target t (inner base + inner left div s * s) (inner quote + inner p * (inner left div s * s) div ratio)"
    | (whole) base' quote' where "bu_checked_add base v = Some base'" and "bu_checked_add quote (divisible qv) = Some quote'"
      and "sum_market_loop book (Some t) m base' quote' = Inr (b, q, True)"
      and "within_target t (inner base + inner v) (inner quote + qv)"
proof (cases t)
  case (Base x)
  then have "is_divisible x" "inner base \<le> inner x" using assms(4,7) by (simp_all add: within_target_def)
  from sum_step_base [OF assms(1) [unfolded Base] assms(2) this(1) assms(5,6) this(2)] show thesis
  proof (elim disjE exE conjE)
    fix left
    assume "sum_final p (align_amount book left) base quote = Inr (b, q, True)" "is_divisible left" "inner left \<le> u128_max"
      "inner left div inner (step_lot_size book) * inner (step_lot_size book) \<le> inner v"
      "inner base + inner left div inner (step_lot_size book) * inner (step_lot_size book) \<le> inner x"
    then show thesis by (intro last [of left]) (simp_all add: within_target_def Base s_def)
  qed (rule whole, assumption+, simp_all add: within_target_def Base qv_def)
next
  case (Quote x)
  then have "is_divisible x" "inner quote \<le> inner x" using assms(4,7) by (simp_all add: within_target_def)
  from sum_step_quote [OF assms(1) [unfolded Quote] assms(3) this(1) assms(5,6) this(2) assms(8)] show thesis
  proof (elim disjE exE conjE)
    fix left
    assume "sum_final p (align_amount book left) base quote = Inr (b, q, True)" "is_divisible left" "inner left \<le> u128_max"
      "inner left div inner (step_lot_size book) * inner (step_lot_size book) \<le> inner v"
      "inner quote + inner p * (inner left div inner (step_lot_size book) * inner (step_lot_size book)) div ratio \<le> inner x"
    then show thesis by (intro last [of left]) (simp_all add: within_target_def Quote s_def)
  qed (rule whole, assumption+, simp_all add: within_target_def Quote qv_def)
qed

lemma sum_market_cost:
  assumes "sum_market_loop book (Some t) m base quote = Inr (b, q, True)"
    and "has_div True base" "has_div True quote" "is_divisible (amount_value t)"
    and "\<forall>(p, v)\<in>set m. is_divisible p \<and> is_divisible v \<and> 0 < inner p \<and> (\<forall>x\<in>set (lev p). lo_price x = p) \<and>
      sum_list (map (\<lambda>x. inner (lo_amount x)) (lev p)) = inner v"
    and "within_target t (inner base) (inner quote)"
  shows "inner base \<le> inner b \<and> within_target t (inner b) (inner q) \<and>
    inner quote + cost True (fills (inner b - inner base) (concat (map (\<lambda>(p, _). lev p) m))) \<le> inner q"
  using assms
proof (induction m arbitrary: base quote)
  case (Cons e m)
  obtain p v where e: "e = (p, v)" by (cases e)
  let ?rest = "concat (map (\<lambda>(p, _). lev p) m)" and ?s = "inner (step_lot_size book)" and ?qv = "inner p * inner v div ratio"
  have lev: "is_divisible p" "is_divisible v" "0 < inner p" "\<forall>x\<in>set (lev p). lo_price x = p"
    "sum_list (map (\<lambda>x. inner (lo_amount x)) (lev p)) = inner v"
    using Cons.prems(5) by (auto simp: e)
  from Cons.prems(1) [unfolded e] Cons.prems(2-4) lev(1,2) Cons.prems(6) lev(3) show ?case
  proof (cases rule: sum_step)
    case (last left)
    note r = sum_final_result [OF last(1) lev(1) last(2) Cons.prems(2,3) last(3)]
    have "cost True (fills (inner left div ?s * ?s) (lev p @ ?rest)) \<le> inner p * (inner left div ?s * ?s) div ratio"
      by (rule cost_in_level [OF lev(4)]) (use last(4) lev(5) in simp)
    then show ?thesis using last(5) by (simp add: r e)
  next
    case (whole base' quote')
    have sums: "base' = divisible (inner base + inner v)" "quote' = divisible (inner quote + ?qv)"
      using whole(1,2) Cons.prems(2,3) lev(2) by (simp_all add: divisible_ops(1))
    have IH: "inner base + inner v \<le> inner b \<and> within_target t (inner b) (inner q) \<and>
        inner quote + ?qv + cost True (fills (inner b - (inner base + inner v)) ?rest) \<le> inner q"
      using Cons.IH [OF whole(3)] Cons.prems(4,5) whole(4) by (simp add: sums has_div_def)
    then have "inner v \<le> inner b - inner base" by linarith
    then have "cost True (fills (inner b - inner base) (lev p @ ?rest)) \<le>
        ?qv + cost True (fills (inner b - inner base - inner v) ?rest)"
      using cost_past_level [OF lev(4), of "inner b - inner base" ?rest] by (simp add: lev(5))
    then show ?thesis using IH by (simp add: e)
  qed
qed simp

text \<open>For the levels of a consistent book, from an empty deal.\<close>

lemma market_deal:
  assumes inv: "book_inv cfg True obid v" and t: "is_divisible (amount_value t)"
    and sum: "sum_market book (market_view v obid direction) (Some t) True = Inr (Base b, Quote q)"
  shows "within_target t (inner b) (inner q)" and "cost True (fills (inner b) (best_queue v obid direction)) \<le> inner q"
proof -
  let ?lev = "level_orders v (switched direction) obid"
  have run: "sum_market_loop book (Some t) (market_view v obid direction) bu_zero bu_zero = Inr (b, q, True)"
    using sum by (auto simp: sum_market_def and_then_Inr ensure_Inr)
  have levels: "is_divisible p \<and> is_divisible vol \<and> 0 < inner p \<and> (\<forall>x\<in>set (?lev p). lo_price x = p) \<and>
      sum_list (map (\<lambda>x. inner (lo_amount x)) (?lev p)) = inner vol" if "(p, vol) \<in> set (market_view v obid direction)" for p vol
  proof -
    have agg: "(p, vol) \<in> set (v_agg v (switched direction) obid)" using that by (simp add: market_view_agg)
    from agg_level_present [OF inv agg] obtain ids where ids: "v_level v (switched direction) obid p = Some ids" "is_divisible p"
      "is_divisible vol" by auto
    then have "ids \<noteq> []" using inv by (auto simp: book_inv_def side_inv_def level_inv_def)
    then obtain x where x: "x \<in> set (?lev p)" using ids(1) by (cases ids) (auto simp: level_orders_def)
    have "0 < inner p" using level_orders_price(1,4) [OF inv x] by (auto simp: order_wf_def)
    then show ?thesis
      using ids(2,3) level_orders_price(1) [OF inv] level_orders_volume [OF inv agg] by (simp add: comp_def)
  qed
  have "within_target t (inner bu_zero) (inner bu_zero)" by (cases t) (simp_all add: within_target_def bu_zero_def)
  then have "inner bu_zero \<le> inner b \<and> within_target t (inner b) (inner q) \<and>
      inner bu_zero + cost True (fills (inner b - inner bu_zero) (concat (map (\<lambda>(p, _). ?lev p) (market_view v obid direction)))) \<le> inner q"
    using levels by (intro sum_market_cost [OF run _ _ t]) (auto simp: has_div_def)
  then show "within_target t (inner b) (inner q)" and "cost True (fills (inner b) (best_queue v obid direction)) \<le> inner q"
    by (simp_all add: best_queue_def bu_zero_def bu_new_def)
qed

end
