(* ===== verification/Pallet_Safety.thy ===== *)
theory Pallet_Safety
  imports Operations Liquidity_Source Quoting
begin

text \<open>
  The invariant of the pallet's storage and that every dispatchable call keeps it. A call works on a
  cache over the storage (\<open>run_cached\<close>), so the lemmas of \<open>Operations\<close> apply through the interpretation
  \<open>cache_impl\<close> of the data layer, and committing the cache carries them over to the storage.
\<close>

section \<open>The invariant\<close>

text \<open>
  What the chain provides: transfers of the native currency are exact, and every order book has a
  technical account of its own.
\<close>

definition env_ok :: "chain \<Rightarrow> (order_book_id \<Rightarrow> account_id) \<Rightarrow> bool" where
  "env_ok env acct \<longleftrightarrow> native_exact env \<and> inj acct \<and> (\<forall>obid. book_account env obid (acct obid))"

definition divisible_base :: "registry \<Rightarrow> order_book_id \<Rightarrow> bool" where
  "divisible_base r obid \<longleftrightarrow> \<not> is_non_divisible r (ob_base obid)"

text \<open>The attributes of a book: what \<open>verify_orderbook_attributes\<close> checks, in the units of its asset.\<close>

definition lots_ok :: "config \<Rightarrow> balance \<Rightarrow> balance \<Rightarrow> balance \<Rightarrow> balance \<Rightarrow> bool" where
  "lots_ok cfg tick step lot_min lot_max \<longleftrightarrow>
     0 < tick \<and> 0 < step \<and> step \<le> lot_min \<and> lot_min \<le> lot_max \<and> step dvd lot_min \<and> step dvd lot_max \<and>
     lot_max \<le> SOFT_MIN_MAX_RATIO cfg * lot_min"

definition book_wf :: "config \<Rightarrow> registry \<Rightarrow> order_book_id \<Rightarrow> order_book \<Rightarrow> bool" where
  "book_wf cfg r obid book \<longleftrightarrow>
     book_id book = obid \<and> ob_base obid \<noteq> ob_quote obid \<and>
     is_divisible (tick_size book) \<and> is_divisible (step_lot_size book) = divisible_base r obid \<and>
     is_divisible (min_lot_size book) = divisible_base r obid \<and>
     is_divisible (max_lot_size book) = divisible_base r obid \<and>
     lots_ok cfg (inner (tick_size book)) (inner (step_lot_size book)) (inner (min_lot_size book))
       (inner (max_lot_size book)) \<and>
     (tech_status book = Updating \<longrightarrow> book_status book = OnlyCancel \<or> book_status book = Stop)"

definition orders_known :: "pallet \<Rightarrow> bool" where
  "orders_known p \<longleftrightarrow>
     (\<forall>obid i. v_orders (storage_view (Books p)) obid i \<noteq> None \<longrightarrow>
        (\<exists>book. map_of (OrderBooks p) obid = Some book \<and> i \<in> {1..last_order_id book}))"

text \<open>The orders of a price level queue in the order of their identifiers, the oldest first.\<close>

definition queues_ordered :: "book_view \<Rightarrow> bool" where
  "queues_ordered v \<longleftrightarrow> (\<forall>side obid pr q. v_level v side obid pr = Some q \<longrightarrow> sorted_wrt (<) q)"

definition cursors_ok :: "pallet \<Rightarrow> bool" where
  "cursors_ok p \<longleftrightarrow>
     distinct (map fst (AlignmentCursor p)) \<and>
     (\<forall>obid book. map_of (OrderBooks p) obid = Some book \<longrightarrow> tech_status book = Updating \<longrightarrow>
        obid \<in> fst ` set (AlignmentCursor p))"

definition pallet_inv ::
  "chain \<Rightarrow> (order_book_id \<Rightarrow> account_id) \<Rightarrow> (order_book_id \<times> order_id) set \<Rightarrow> pallet \<Rightarrow> bool" where
  "pallet_inv env acct E p \<longleftrightarrow>
     safe env (chain_config env) storage_view storage_ok (divisible_base (Registry p)) acct
       (dom (map_of (OrderBooks p))) E (Books p, World p) \<and>
     (\<forall>obid book. map_of (OrderBooks p) obid = Some book \<longrightarrow> book_wf (chain_config env) (Registry p) obid book) \<and>
     (\<forall>obid. owners (storage_view (Books p)) obid \<inter> range acct = {}) \<and>
     (\<forall>obid. uncrossed (v_orders (storage_view (Books p)) obid)) \<and>
     queues_ordered (storage_view (Books p)) \<and> orders_known p \<and> cursors_ok p"

lemma books_ok_of:
  assumes "env_ok env acct" and "\<forall>obid book. map_of books obid = Some book \<longrightarrow> book_wf cfg r obid book"
  shows "books_ok env acct (dom (map_of books))"
  using assms by (auto simp: env_ok_def books_ok_def book_wf_def inj_on_def)

text \<open>Which orders are off the agenda matters only for orders that exist.\<close>

lemma agenda_inv_restrict:
  "agenda_inv E orders w \<Longrightarrow> agenda_inv {(obid, i) \<in> E. orders obid i \<noteq> None} orders w"
  unfolding agenda_inv_def by (auto split: if_splits)

lemma safe_restrict:
  assumes "safe env cfg view coh dv acct B E (d, w)"
  shows "safe env cfg view coh dv acct B {(obid, i) \<in> E. v_orders (view d) obid i \<noteq> None} (d, w)"
  using assms agenda_inv_restrict by (auto simp: safe_def consistent_def)

section \<open>Working on a cache\<close>

lemma safe_enter:
  assumes "safe env cfg storage_view storage_ok dv acct B E (b, w)"
  shows "safe env cfg cache_view cache_ok dv acct B E ((cl_new, b), w)"
  using assms cl_new_view [of b] by (simp add: safe_def consistent_def)

lemma safe_leave:
  assumes "safe env cfg cache_view cache_ok dv acct B E (d, w)"
  shows "safe env cfg storage_view storage_ok dv acct B E (snd (cl_commit d), w)"
    and "storage_view (snd (cl_commit d)) = cache_view d"
proof -
  obtain c s c' s' where eq: "d = (c, s)" "cl_commit d = (c', s')" by (cases d; cases "cl_commit d")
  have "cache_ok (c, s)" using assms by (simp add: safe_def consistent_def eq)
  from cl_commit_view [OF this, of c' s'] eq
  have v: "storage_ok (snd (cl_commit d))" "storage_view (snd (cl_commit d)) = cache_view d" by auto
  then show "storage_view (snd (cl_commit d)) = cache_view d"
    and "safe env cfg storage_view storage_ok dv acct B E (snd (cl_commit d), w)"
    using assms by (simp_all add: safe_def consistent_def)
qed

lemma with_state_Inr [run_simps]: "with_state f s = (Inr a, s') \<longleftrightarrow> f s = Inr a \<and> s' = s"
  by (auto simp: with_state_def)

lemma on_world_Inr [run_simps]:
  "on_world f p = (Inr a, p') \<longleftrightarrow> (\<exists>w. f (World p) = (Inr a, w) \<and> p' = p \<lparr> World := w \<rparr>)"
  by (auto simp: on_world_def split: prod.splits)

lemma on_registry_Inr [run_simps]:
  "on_registry f p = (Inr a, p') \<longleftrightarrow> (\<exists>r. f (Registry p) = (Inr a, r) \<and> p' = p \<lparr> Registry := r \<rparr>)"
  by (auto simp: on_registry_def split: prod.splits)

lemma get_order_book_Inr [run_simps]:
  "get_order_book obid p = (Inr book, p') \<longleftrightarrow> map_of (OrderBooks p) obid = Some book \<and> p' = p"
  by (auto simp: get_order_book_def run_simps)

lemma set_order_book_Inr [run_simps]:
  "set_order_book obid book p = (r, p') \<longleftrightarrow>
     r = Inr () \<and> p' = p \<lparr> OrderBooks := AList.update obid book (OrderBooks p) \<rparr>"
  by (auto simp: set_order_book_def smodify_def)

lemma run_cached_Inr:
  "run_cached f p = (Inr a, p') \<longleftrightarrow>
     (\<exists>d w. f ((cl_new, Books p), World p) = (Inr a, (d, w)) \<and> p' = p \<lparr> Books := snd (cl_commit d), World := w \<rparr>)"
  by (auto simp: run_cached_def split: prod.splits sum.splits)

text \<open>
  The storage after work on its orders: no order appears but new ones of known books, and no owner but
  those who signed.
\<close>

lemma sorted_subseq: "subseq xs ys \<Longrightarrow> sorted_wrt P ys \<Longrightarrow> sorted_wrt P xs"
  by (induction rule: list_emb.induct) (auto dest: subseq_set)

text \<open>The identifiers \<open>N\<close> are later than those of the orders in the book, at most one per book.\<close>

definition latest :: "book_view \<Rightarrow> (order_book_id \<times> order_id) set \<Rightarrow> bool" where
  "latest v N \<longleftrightarrow> (\<forall>(obid, i)\<in>N. (\<forall>j. (obid, j) \<in> N \<longrightarrow> j = i) \<and> (\<forall>j. v_orders v obid j \<noteq> None \<longrightarrow> j < i))"

lemma latestD:
  "latest v N \<Longrightarrow> (obid, i) \<in> N \<Longrightarrow> (obid, j) \<in> N \<Longrightarrow> j = i"
  "latest v N \<Longrightarrow> (obid, i) \<in> N \<Longrightarrow> v_orders v obid j \<noteq> None \<Longrightarrow> j < i"
  unfolding latest_def by blast+

lemma queues_ordered_grow:
  assumes old: "queues_ordered v" "view_inv cfg dv v" and inv: "view_inv cfg dv v'"
    and grow: "levels_grow N v v'" and new: "latest v N"
  shows "queues_ordered v'"
  unfolding queues_ordered_def
proof (intro allI impI)
  fix side obid pr q'
  assume q': "v_level v' side obid pr = Some q'"
  with grow obtain ks ns where q: "q' = ks @ ns" "subseq ks (unwrap_or (v_level v side obid pr) [])" "set ns \<subseteq> {i. (obid, i) \<in> N}"
    unfolding levels_grow_def queue_grows_def by blast
  have dist: "distinct q'"
    using inv q' by (auto simp: view_inv_def book_inv_def side_inv_def level_inv_def)
  have "sorted_wrt (<) (unwrap_or (v_level v side obid pr) [])"
    using old(1) by (cases "v_level v side obid pr") (auto simp: queues_ordered_def)
  then have ks: "sorted_wrt (<) ks" by (rule sorted_subseq [OF q(2)])
  have known: "v_orders v obid j \<noteq> None" if "j \<in> set ks" for j
  proof -
    have "j \<in> set (unwrap_or (v_level v side obid pr) [])" using subseq_set [OF q(2)] that by blast
    then obtain q0 where "v_level v side obid pr = Some q0" "j \<in> set q0"
      by (cases "v_level v side obid pr") auto
    then show ?thesis using old(2) by (fastforce simp: view_inv_def book_inv_def side_inv_def level_inv_def)
  qed
  have later: "j < i" if "j \<in> set ks" "i \<in> set ns" for i j
    using latestD(2) [OF new _ known [OF that(1)]] that(2) q(3) by blast
  have one: "i = j" if "i \<in> set ns" "j \<in> set ns" for i j
    using latestD(1) [OF new] that q(3) by blast
  have "sorted_wrt (<) ns"
  proof (cases ns rule: remdups_adj.cases)
    case (3 i j rest)
    then show ?thesis using one [of i j] dist q(1) by simp
  qed simp_all
  then show "sorted_wrt (<) q'" using ks later by (simp add: q(1) sorted_wrt_append)
qed

lemma pallet_inv_orders:
  assumes inv: "pallet_inv env acct E p"
    and safe: "safe env (chain_config env) storage_view storage_ok (divisible_base (Registry p)) acct
      (dom (map_of (OrderBooks p))) E' (b, w)"
    and ext: "extends_by (storage_view (Books p)) (storage_view b) N A"
    and new: "\<forall>(obid, i)\<in>N. \<exists>book. map_of (OrderBooks p) obid = Some book \<and> i \<in> {1..last_order_id book}"
    and late: "latest (storage_view (Books p)) N"
    and out: "lo_owner ` A \<inter> range acct = {}" and un: "\<forall>obid. uncrossed (v_orders (storage_view b) obid)"
  shows "pallet_inv env acct E' (p \<lparr> Books := b, World := w \<rparr>)"
proof -
  have "v_orders (storage_view (Books p)) obid i \<noteq> None \<or> (obid, i) \<in> N"
    if "v_orders (storage_view b) obid i \<noteq> None" for obid i
    using extends_by_owners(1) [OF ext] that by blast
  then have known: "orders_known (p \<lparr> Books := b, World := w \<rparr>)"
    unfolding orders_known_def
  proof (intro allI impI)
    fix obid i
    assume "\<And>obid i. v_orders (storage_view b) obid i \<noteq> None \<Longrightarrow>
        v_orders (storage_view (Books p)) obid i \<noteq> None \<or> (obid, i) \<in> N"
      and "v_orders (storage_view (Books (p \<lparr> Books := b, World := w \<rparr>))) obid i \<noteq> None"
    then consider "v_orders (storage_view (Books p)) obid i \<noteq> None" | "(obid, i) \<in> N" by auto
    then show "\<exists>book. map_of (OrderBooks (p \<lparr> Books := b, World := w \<rparr>)) obid = Some book \<and> i \<in> {1..last_order_id book}"
    proof cases
      case 1
      then show ?thesis using inv by (simp add: pallet_inv_def orders_known_def)
    next
      case 2
      then show ?thesis using new by auto
    qed
  qed
  have "owners (storage_view b) obid \<subseteq> owners (storage_view (Books p)) obid \<union> lo_owner ` A" for obid
    by (rule owners_subset [OF ext])
  then have "owners (storage_view b) obid \<inter> range acct = {}" for obid
    using inv out unfolding pallet_inv_def by blast
  moreover have "queues_ordered (storage_view b)"
    by (rule queues_ordered_grow [OF _ _ _ _ late])
      (use inv safe ext in \<open>auto simp: pallet_inv_def safe_def consistent_def extends_by_def\<close>)
  ultimately show ?thesis using inv safe known un by (simp add: pallet_inv_def cursors_ok_def)
qed

text \<open>A cached operation that keeps the data layer safe keeps the pallet's invariant.\<close>

lemma pallet_inv_cached:
  assumes inv: "pallet_inv env acct E p"
    and safe: "safe env (chain_config env) cache_view cache_ok (divisible_base (Registry p)) acct
      (dom (map_of (OrderBooks p))) E' (d, w)"
    and ext: "extends_by (cache_view (cl_new, Books p)) (cache_view d) N A"
    and new: "\<forall>(obid, i)\<in>N. \<exists>book. map_of (OrderBooks p) obid = Some book \<and> i \<in> {1..last_order_id book}"
    and late: "latest (storage_view (Books p)) N"
    and out: "lo_owner ` A \<inter> range acct = {}" and un: "\<forall>obid. uncrossed (v_orders (cache_view d) obid)"
  shows "pallet_inv env acct E' (p \<lparr> Books := snd (cl_commit d), World := w \<rparr>)"
proof -
  have "storage_ok (Books p)" using inv by (simp add: pallet_inv_def safe_def consistent_def)
  from cl_new_view(2) [OF this] ext safe_leave [OF safe] un show ?thesis
    by (intro pallet_inv_orders [OF inv _ _ new late out]) simp_all
qed

lemma pallet_inv_enter:
  assumes "pallet_inv env acct E p"
  shows "safe env (chain_config env) cache_view cache_ok (divisible_base (Registry p)) acct
      (dom (map_of (OrderBooks p))) E ((cl_new, Books p), World p)"
    and "cache_view (cl_new, Books p) = storage_view (Books p)"
  using assms safe_enter cl_new_view(2) by (auto simp: pallet_inv_def safe_def consistent_def)

lemma pallet_inv_removed:
  assumes inv: "pallet_inv env acct E p"
    and safe: "safe env (chain_config env) cache_view cache_ok (divisible_base (Registry p)) acct
      (dom (map_of (OrderBooks p))) E' (d, w)"
    and ext: "extends_by (cache_view (cl_new, Books p)) (cache_view d) {} {}"
  shows "pallet_inv env acct E' (p \<lparr> Books := snd (cl_commit d), World := w \<rparr>)"
proof (rule pallet_inv_cached [OF inv safe ext])
  have "uncrossed (v_orders (storage_view (Books p)) obid)" for obid using inv by (simp add: pallet_inv_def)
  then show "\<forall>obid. uncrossed (v_orders (cache_view d) obid)"
    using extends_by_uncrossed [OF ext] pallet_inv_enter(2) [OF inv] by simp
qed (simp_all add: latest_def)

text \<open>
  What a call does to the state: the invariant holds again, the orders are extended by \<open>N\<close> and \<open>A\<close>, the same
  orders are off the agenda, and the marker of the expiration pass is not touched.
\<close>

definition moves ::
  "chain \<Rightarrow> (order_book_id \<Rightarrow> account_id) \<Rightarrow> (order_book_id \<times> order_id) set \<Rightarrow> pallet \<Rightarrow>
   (order_book_id \<times> order_id) set \<Rightarrow> limit_order set \<Rightarrow> (order_book_id \<times> order_id) set \<Rightarrow> pallet \<Rightarrow> bool" where
  "moves env acct E p N A E' p' \<longleftrightarrow>
     pallet_inv env acct E' p' \<and> extends_by (storage_view (Books p)) (storage_view (Books p')) N A \<and>
     (\<forall>(obid, i)\<in>E. v_orders (storage_view (Books p)) obid i \<noteq> None \<longrightarrow> (obid, i) \<in> E') \<and> E' \<subseteq> E - N \<and>
     IncompleteExpirationsSince p' = IncompleteExpirationsSince p"

lemma moves_books:
  "pallet_inv env acct E p' \<Longrightarrow> Books p' = Books p \<Longrightarrow> IncompleteExpirationsSince p' = IncompleteExpirationsSince p \<Longrightarrow>
     moves env acct E p {} {} E p'"
  by (auto simp: moves_def)

lemma moves_removed:
  assumes inv: "pallet_inv env acct E p"
    and safe: "safe env (chain_config env) cache_view cache_ok (divisible_base (Registry p)) acct
      (dom (map_of (OrderBooks p))) E (d, w)"
    and ext: "extends_by (cache_view (cl_new, Books p)) (cache_view d) {} {}"
  shows "moves env acct E p {} {} E (p \<lparr> Books := snd (cl_commit d), World := w \<rparr>)"
  using pallet_inv_removed [OF assms] safe_leave(2) [OF safe] ext pallet_inv_enter(2) [OF inv]
  by (auto simp: moves_def)

lemma pallet_inv_books:
  assumes "pallet_inv env acct E p" and "env_ok env acct"
  shows "books_ok env acct (dom (map_of (OrderBooks p)))"
  using assms books_ok_of [of env acct "OrderBooks p"] by (auto simp: pallet_inv_def)

section \<open>Cancelling\<close>

context DataLayer
begin

lemma cancel_owned_safe:
  assumes safe: "safe env cfg view coh dv acct (dom (map_of books)) E (d, w)"
    and run: "cancel_owned env dl books who obid i (d, w) = (Inr u, (d', w'))"
    and env: "books_ok env acct (dom (map_of books))"
    and ids: "\<forall>obid book. map_of books obid = Some book \<longrightarrow> book_id book = obid"
  obtains x where "v_orders (view d) obid i = Some x" and "lo_owner x = who"
    and "safe env cfg view coh dv acct (dom (map_of books)) E (d', w')"
    and "extends_by (view d) (view d') {} {}"
    and "v_orders (view d') = (v_orders (view d)) (obid := (v_orders (view d) obid)(i := None))"
    and "\<And>y a. y \<notin> acct ` dom (map_of books) \<Longrightarrow>
      balance_of env w' a y = balance_of env w a y + (if y = who then lock_units obid (dv obid) a x else 0)"
proof -
  have coh: "coh d" and inv: "book_inv cfg (dv obid) obid (view d)"
    using safe by (simp_all add: safe_def consistent_def view_inv_def)
  from run obtain x d1 book where get: "dl_get_limit_order dl obid i d = (Inr x, d1)" and who: "lo_owner x = who"
    and book: "map_of books obid = Some book"
    and cancel: "cancel_limit_order_unchecked env dl book x Manual False (d1, w) = (Inr u, (d', w'))"
    by (auto simp: cancel_owned_def cancel_limit_order_def run_simps)
  note rd = reads_run [OF get_limit_order [OF coh] get]
  have x: "v_orders (view d) obid i = Some x" using rd(1) by (auto simp: ok_or_def split: option.splits)
  then have id: "lo_id x = i" using inv by (simp add: book_inv_def)
  have bid: "book_id book = obid" "book_id book \<in> dom (map_of books)" using ids book by auto
  have x1: "v_orders (view d1) (book_id book) (lo_id x) = Some x" using x rd(3) id bid by simp
  note eff = cancel_safe [OF safe_view [OF safe rd(2,3)] cancel x1 env bid(2), unfolded rd(3) bid(1) id who]
  from that [OF x who eff(1,4,2,3)] show ?thesis .
qed

lemma sfor_safe:
  assumes step: "\<And>x d w d' w'. x \<in> set xs \<Longrightarrow> safe env cfg view coh dv acct B E (d, w) \<Longrightarrow>
      f x (d, w) = (Inr (), (d', w')) \<Longrightarrow>
      safe env cfg view coh dv acct B E (d', w') \<and> extends_by (view d) (view d') {} {}"
    and safe: "safe env cfg view coh dv acct B E (d, w)" and run: "sfor f xs (d, w) = (Inr u, (d', w'))"
  shows "safe env cfg view coh dv acct B E (d', w') \<and> extends_by (view d) (view d') {} {}"
  using assms
proof (induction xs arbitrary: d w)
  case (Cons x xs)
  from Cons.prems(3) obtain d1 w1 where "f x (d, w) = (Inr (), (d1, w1))" and rest: "sfor f xs (d1, w1) = (Inr u, (d', w'))"
    by (auto simp: run_simps)
  with Cons.prems(1) [of x] Cons.prems(2)
  have one: "safe env cfg view coh dv acct B E (d1, w1)" "extends_by (view d) (view d1) {} {}" by auto
  have "safe env cfg view coh dv acct B E (d', w') \<and> extends_by (view d1) (view d') {} {}"
    by (rule Cons.IH [OF Cons.prems(1) one(1) rest]) simp_all
  with extends_by_trans [OF one(2)] show ?case by fastforce
qed (simp add: run_simps)

lemma cancel_batch_safe:
  assumes safe: "safe env cfg view coh dv acct (dom (map_of books)) E (d, w)"
    and run: "sfor (\<lambda>(obid, ids). sfor (cancel_owned env dl books who obid) ids) batch (d, w) = (Inr u, (d', w'))"
    and env: "books_ok env acct (dom (map_of books))"
    and ids: "\<forall>obid book. map_of books obid = Some book \<longrightarrow> book_id book = obid"
  shows "safe env cfg view coh dv acct (dom (map_of books)) E (d', w') \<and> extends_by (view d) (view d') {} {}"
proof (rule sfor_safe [OF _ safe run], goal_cases)
  case (1 x d w d' w')
  then have run1: "sfor (cancel_owned env dl books who (fst x)) (snd x) (d, w) = (Inr (), (d', w'))"
    by (simp add: case_prod_unfold)
  show ?case by (rule sfor_safe [OF _ 1(2) run1]) (metis cancel_owned_safe [OF _ _ env ids])
qed

end

section \<open>The calls keep the invariant\<close>

lemma pallet_inv_ids:
  "pallet_inv env acct E p \<Longrightarrow> map_of (OrderBooks p) obid = Some book \<Longrightarrow>
     book_id book = obid \<and> book_wf (chain_config env) (Registry p) obid book"
  by (simp add: pallet_inv_def book_wf_def)

lemma cancel_call_inv:
  assumes inv: "pallet_inv env acct E p" and env: "env_ok env acct" and rt: "chain_of rt = env"
    and run: "cancel_limit_order_call rt origin obid i p = (Inr r, p')"
  shows "moves env acct E p {} {} E p'"
proof -
  from run rt obtain who d w where
      cancel: "cancel_owned env (cache_data_layer (chain_config env)) (OrderBooks p) who obid i
        ((cl_new, Books p), World p) = (Inr (), (d, w))"
    and p': "p' = p \<lparr> Books := snd (cl_commit d), World := w \<rparr>"
    by (auto simp: cancel_limit_order_call_def run_simps run_cached_Inr)
  note en = pallet_inv_enter [OF inv]
  have ids: "\<forall>obid book. map_of (OrderBooks p) obid = Some book \<longrightarrow> book_id book = obid"
    using pallet_inv_ids [OF inv] by blast
  show ?thesis
    unfolding p'
    by (rule cache_impl.cancel_owned_safe [OF en(1) cancel pallet_inv_books [OF inv env] ids])
      (rule moves_removed [OF inv])
qed

lemma cancel_batch_inv:
  assumes inv: "pallet_inv env acct E p" and env: "env_ok env acct" and rt: "chain_of rt = env"
    and run: "cancel_limit_orders_batch rt origin batch p = (Inr r, p')"
  shows "moves env acct E p {} {} E p'"
proof -
  from run rt obtain who d w where
      cancel: "sfor (\<lambda>(obid, ids). sfor (cancel_owned env (cache_data_layer (chain_config env)) (OrderBooks p) who obid) ids)
        batch ((cl_new, Books p), World p) = (Inr (), (d, w))"
    and p': "p' = p \<lparr> Books := snd (cl_commit d), World := w \<rparr>"
    by (auto simp: cancel_limit_orders_batch_def run_simps run_cached_Inr)
  note en = pallet_inv_enter [OF inv]
  have ids: "\<forall>obid book. map_of (OrderBooks p) obid = Some book \<longrightarrow> book_id book = obid"
    using pallet_inv_ids [OF inv] by blast
  from cache_impl.cancel_batch_safe [OF en(1) cancel pallet_inv_books [OF inv env] ids]
  show ?thesis unfolding p' by (intro moves_removed [OF inv]) simp_all
qed

text \<open>Changes of the state beside the orders.\<close>

lemma pallet_inv_world:
  assumes inv: "pallet_inv env acct E p" and agenda: "ExpirationsAgenda w = ExpirationsAgenda (World p)"
    and kept: "\<forall>obid\<in>dom (map_of (OrderBooks p)). \<forall>a.
      balance_of env (World p) a (acct obid) \<le> balance_of env w a (acct obid)"
  shows "pallet_inv env acct E (p \<lparr> World := w \<rparr>)"
proof -
  have "agenda_inv E orders w = agenda_inv E orders (World p)" for orders by (simp add: agenda_inv_def agenda)
  moreover have "solvent env obid d (acct obid) m (World p) \<Longrightarrow> solvent env obid d (acct obid) m w"
    if "obid \<in> dom (map_of (OrderBooks p))" for obid d m
    using kept that unfolding solvent_def by (meson le_trans)
  ultimately show ?thesis
    using inv by (simp add: pallet_inv_def safe_def consistent_def orders_known_def cursors_ok_def)
qed

lemma pallet_inv_events:
  "pallet_inv env acct E p \<Longrightarrow> pallet_inv env acct E (p \<lparr> World := (World p) \<lparr> Events := es \<rparr> \<rparr>)"
  by (rule pallet_inv_world) simp_all

lemma divisible_base_cong: "AssetPrecision r' = AssetPrecision r \<Longrightarrow> divisible_base r' = divisible_base r"
  by (simp add: divisible_base_def is_non_divisible_def fun_eq_iff)

lemma pallet_inv_registry:
  assumes "pallet_inv env acct E p" and "AssetPrecision r = AssetPrecision (Registry p)"
  shows "pallet_inv env acct E (p \<lparr> Registry := r \<rparr>)"
  using assms divisible_base_cong [OF assms(2)]
  by (simp add: pallet_inv_def book_wf_def orders_known_def cursors_ok_def)

lemma pallet_inv_known:
  assumes "pallet_inv env acct E p" and "v_orders (storage_view (Books p)) obid i \<noteq> None"
  shows "\<exists>book. map_of (OrderBooks p) obid = Some book \<and> i \<in> {1..last_order_id book}"
  using assms unfolding pallet_inv_def orders_known_def by blast

lemma pallet_inv_set_book:
  assumes inv: "pallet_inv env acct E p" and old: "map_of (OrderBooks p) obid = Some book"
    and wf: "book_wf (chain_config env) (Registry p) obid book'" and ids: "last_order_id book \<le> last_order_id book'"
    and cursor: "tech_status book' = Updating \<longrightarrow> obid \<in> fst ` set (AlignmentCursor p)"
  shows "pallet_inv env acct E (p \<lparr> OrderBooks := AList.update obid book' (OrderBooks p) \<rparr>)"
proof -
  have B: "insert obid (dom (map_of (OrderBooks p))) = dom (map_of (OrderBooks p))" using old by auto
  have "orders_known (p \<lparr> OrderBooks := AList.update obid book' (OrderBooks p) \<rparr>)"
    unfolding orders_known_def
  proof (intro allI impI)
    fix o' i
    assume "v_orders (storage_view (Books (p \<lparr> OrderBooks := AList.update obid book' (OrderBooks p) \<rparr>))) o' i \<noteq> None"
    then have "v_orders (storage_view (Books p)) o' i \<noteq> None" by simp
    from pallet_inv_known [OF inv this] obtain b where b: "map_of (OrderBooks p) o' = Some b" "i \<in> {1..last_order_id b}"
      by blast
    then show "\<exists>b. map_of (OrderBooks (p \<lparr> OrderBooks := AList.update obid book' (OrderBooks p) \<rparr>)) o' = Some b
        \<and> i \<in> {1..last_order_id b}"
      using old ids by (cases "o' = obid") (auto simp: update_conv')
  qed
  moreover have "cursors_ok (p \<lparr> OrderBooks := AList.update obid book' (OrderBooks p) \<rparr>)"
    using inv cursor by (auto simp: pallet_inv_def cursors_ok_def update_conv')
  ultimately show ?thesis
    using inv wf B by (auto simp: pallet_inv_def update_conv')
qed

section \<open>Managing order books\<close>

lemma verify_attributes_lots:
  "verify_orderbook_attributes cfg r obid tick step lot_min lot_max = Inr u \<Longrightarrow> lots_ok cfg tick step lot_min lot_max"
  by (auto simp: verify_orderbook_attributes_def lots_ok_def run_simps saturating_mul_u_def dvd_eq_mod_eq_0 mult.commute
      split: if_splits)

definition new_book :: "registry \<Rightarrow> order_book_id \<Rightarrow> balance \<Rightarrow> balance \<Rightarrow> balance \<Rightarrow> balance \<Rightarrow> order_book" where
  "new_book r obid tick step lot_min lot_max =
     (if is_non_divisible r (ob_base obid)
      then order_book_new obid (divisible tick) (indivisible step) (indivisible lot_min) (indivisible lot_max)
      else order_book_new obid (divisible tick) (divisible step) (divisible lot_min) (divisible lot_max))"

lemma create_run:
  assumes "create_orderbook rt origin obid tick step lot_min lot_max p = (Inr u, p')"
  obtains r w es where "verify_create_orderbook_params (chain_of rt) obid p = Inr ()"
    and "verify_orderbook_attributes (chain_config (chain_of rt)) (Registry p) obid tick step lot_min lot_max = Inr ()"
    and "enable_source_for_trading_pair (ob_dex obid) (ob_quote obid) (ob_base obid) OrderBookSource (Registry p) = (Inr (), r)"
    and "register_tech_account (chain_of rt) obid (World p) = (Inr (), w)"
    and "p' = p \<lparr> Registry := r, OrderBooks := AList.update obid (new_book r obid tick step lot_min lot_max) (OrderBooks p),
           World := w \<lparr> Events := es \<rparr> \<rparr>"
proof -
  have made: "create_orderbook_unchecked env obid tick step lot_min lot_max p1 = (Inr u, p2) \<longleftrightarrow>
      (\<exists>w. register_tech_account env obid (World p1) = (Inr u, w) \<and>
        p2 = p1 \<lparr> OrderBooks := AList.update obid (new_book (Registry p1) obid tick step lot_min lot_max) (OrderBooks p1),
          World := w \<rparr>)" for env p1 p2 u
    by (auto simp: create_orderbook_unchecked_def new_book_def Let_def run_simps)
  obtain who where who: "PermittedCreateOrigin rt origin = Inr who"
    using assms by (auto simp: create_orderbook_def sbind_Inr slift_Inr)
  have "\<exists>m. sbind (inner_create_orderbook (chain_of rt) obid tick step lot_min lot_max)
      (\<lambda>_. on_world (deposit_event (OrderBookCreated obid m))) p = (Inr u, p')"
    using assms unfolding create_orderbook_def
    by (cases who; simp add: who sbind_Inr slift_Inr with_state_Inr sret_Inr) blast+
  then obtain p2 where inner: "inner_create_orderbook (chain_of rt) obid tick step lot_min lot_max p = (Inr (), p2)"
    and ev: "\<exists>es. p' = p2 \<lparr> World := (World p2) \<lparr> Events := es \<rparr> \<rparr>"
    by (auto simp: sbind_Inr on_world_Inr deposit_event_Inr)
  from inner obtain r w where
      "verify_create_orderbook_params (chain_of rt) obid p = Inr ()"
      "verify_orderbook_attributes (chain_config (chain_of rt)) (Registry p) obid tick step lot_min lot_max = Inr ()"
      "enable_source_for_trading_pair (ob_dex obid) (ob_quote obid) (ob_base obid) OrderBookSource (Registry p) = (Inr (), r)"
      "register_tech_account (chain_of rt) obid (World p) = (Inr (), w)"
      "p2 = p \<lparr> Registry := r, OrderBooks := AList.update obid (new_book r obid tick step lot_min lot_max) (OrderBooks p),
           World := w \<rparr>"
    by (auto simp: inner_create_orderbook_def sbind_Inr with_state_Inr on_registry_Inr made)
  with ev that show ?thesis by auto
qed

lemma new_book_wf:
  assumes "lots_ok cfg tick step lot_min lot_max" and "ob_base obid \<noteq> ob_quote obid"
  shows "book_wf cfg r obid (new_book r obid tick step lot_min lot_max)"
  using assms by (simp add: book_wf_def new_book_def order_book_new_def divisible_base_def)

text \<open>Registering or removing a technical account touches neither balances nor the agenda.\<close>

lemma tech_account_frame:
  "register_tech_account env obid w = (Inr u, w') \<Longrightarrow> \<exists>t. w' = w \<lparr> TechAccounts := t \<rparr>"
  "deregister_tech_account env obid w = (Inr u, w') \<Longrightarrow> \<exists>t. w' = w \<lparr> TechAccounts := t \<rparr>"
  by (auto simp: register_tech_account_def register_tech_account_id_def deregister_tech_account_def
      deregister_tech_account_id_def run_simps intro: exI [of _ "TechAccounts w"] split: option.splits)

lemma balance_of_tech [simp]: "balance_of env (w \<lparr> TechAccounts := t \<rparr>) = balance_of env w"
  by (simp add: balance_of_def token_balance_def accounts_def fun_eq_iff)

lemma create_inv:
  assumes inv: "pallet_inv env acct E p" and env: "env_ok env acct" and rt: "chain_of rt = env"
    and run: "create_orderbook rt origin obid tick step lot_min lot_max p = (Inr u, p')"
  shows "moves env acct E p {} {} E p'"
proof -
  from create_run [OF run, unfolded rt] obtain r w es where
      params: "verify_create_orderbook_params env obid p = Inr ()"
    and attrs: "verify_orderbook_attributes (chain_config env) (Registry p) obid tick step lot_min lot_max = Inr ()"
    and src: "enable_source_for_trading_pair (ob_dex obid) (ob_quote obid) (ob_base obid) OrderBookSource (Registry p) = (Inr (), r)"
    and tech: "register_tech_account env obid (World p) = (Inr (), w)"
    and p': "p' = p \<lparr> Registry := r, OrderBooks := AList.update obid (new_book r obid tick step lot_min lot_max) (OrderBooks p),
           World := w \<lparr> Events := es \<rparr> \<rparr>"
    by blast
  let ?book = "new_book r obid tick step lot_min lot_max"
  let ?q = "p \<lparr> OrderBooks := AList.update obid ?book (OrderBooks p) \<rparr>"
  have prec: "AssetPrecision r = AssetPrecision (Registry p)" using src by (auto simp: enable_source_Inr)
  have fresh: "map_of (OrderBooks p) obid = None" and assets: "ob_base obid \<noteq> ob_quote obid"
    using params by (auto simp: verify_create_orderbook_params_def run_simps)
  have none: "v_orders (storage_view (Books p)) obid i = None" for i
    using pallet_inv_known [OF inv, of obid i] fresh by (metis option.distinct(1))
  have wf: "book_wf (chain_config env) (Registry p) obid ?book"
    using new_book_wf [OF verify_attributes_lots [OF attrs] assets, of r] divisible_base_cong [OF prec]
    by (simp add: book_wf_def)
  have "v_orders (storage_view (Books p)) obid = Map.empty" using none by (rule ext)
  then have "solvent env obid d t (v_orders (storage_view (Books p)) obid) (World p)" for d t
    by (simp add: solvent_def locked_def)
  moreover have "owners (storage_view (Books p)) o' \<inter> acct ` insert obid (dom (map_of (OrderBooks p))) = {}" for o'
    using inv unfolding pallet_inv_def by blast
  ultimately have safe: "safe env (chain_config env) storage_view storage_ok (divisible_base (Registry p)) acct
      (insert obid (dom (map_of (OrderBooks p)))) E (Books p, World p)"
    using inv by (simp add: pallet_inv_def safe_def)
  have "orders_known ?q"
    unfolding orders_known_def
  proof (intro allI impI)
    fix o' i
    assume "v_orders (storage_view (Books ?q)) o' i \<noteq> None"
    then have o': "v_orders (storage_view (Books p)) o' i \<noteq> None" by simp
    then have "o' \<noteq> obid" using none by auto
    with pallet_inv_known [OF inv o'] show "\<exists>b. map_of (OrderBooks ?q) o' = Some b \<and> i \<in> {1..last_order_id b}"
      by (simp add: update_conv')
  qed
  moreover have "cursors_ok ?q"
    using inv by (auto simp: pallet_inv_def cursors_ok_def update_conv' new_book_def order_book_new_def split: if_splits)
  ultimately have q: "pallet_inv env acct E ?q"
    using inv safe wf by (auto simp: pallet_inv_def update_conv')
  obtain t where w: "w = World p \<lparr> TechAccounts := t \<rparr>" using tech_account_frame(1) [OF tech] by blast
  have "pallet_inv env acct E (?q \<lparr> World := w \<lparr> Events := es \<rparr> \<rparr>)"
    by (rule pallet_inv_world [OF q]) (simp_all add: w)
  then have "pallet_inv env acct E (?q \<lparr> World := w \<lparr> Events := es \<rparr>, Registry := r \<rparr>)"
    by (rule pallet_inv_registry) (simp add: prec)
  moreover have "p' = ?q \<lparr> World := w \<lparr> Events := es \<rparr>, Registry := r \<rparr>" by (rule pallet.equality) (simp_all add: p')
  ultimately have "pallet_inv env acct E p'" by simp
  then show ?thesis by (rule moves_books) (simp_all add: p')
qed

lemma iter_prefix_empty: "iter_prefix s k = [] \<Longrightarrow> map_of s (k, i) = None"
  by (auto simp: iter_prefix_def filter_empty_conv map_of_eq_None_iff)

lemma delete_inv:
  assumes inv: "pallet_inv env acct E p" and rt: "chain_of rt = env"
    and run: "delete_orderbook rt origin obid p = (Inr u, p')"
  shows "moves env acct E p {} {} E p'"
proof -
  let ?q = "p \<lparr> OrderBooks := AList.delete obid (OrderBooks p) \<rparr>"
  from run rt obtain r w es where empty: "iter_prefix (LimitOrders (Books p)) obid = []"
    and src: "disable_source_for_trading_pair (ob_dex obid) (ob_quote obid) (ob_base obid) OrderBookSource (Registry p) = (Inr (), r)"
    and tech: "deregister_tech_account env obid (World p) = (Inr (), w)"
    and p': "p' = p \<lparr> Registry := r, OrderBooks := AList.delete obid (OrderBooks p), World := w \<lparr> Events := es \<rparr> \<rparr>"
    by (auto simp: delete_orderbook_def sbind_Inr slift_Inr on_world_Inr on_registry_Inr with_state_Inr get_order_book_Inr
        ensure_Inr deposit_event_Inr smodify_Inr)
  have prec: "AssetPrecision r = AssetPrecision (Registry p)" using src by (auto simp: disable_source_Inr)
  have none: "v_orders (storage_view (Books p)) obid i = None" for i
    using iter_prefix_empty [OF empty] by (simp add: storage_view_def)
  have "orders_known ?q"
    unfolding orders_known_def
  proof (intro allI impI)
    fix o' i
    assume "v_orders (storage_view (Books ?q)) o' i \<noteq> None"
    then have o': "v_orders (storage_view (Books p)) o' i \<noteq> None" by simp
    then have "o' \<noteq> obid" using none by auto
    with pallet_inv_known [OF inv o'] show "\<exists>b. map_of (OrderBooks ?q) o' = Some b \<and> i \<in> {1..last_order_id b}"
      by (simp add: delete_conv')
  qed
  moreover have "cursors_ok ?q" using inv by (auto simp: pallet_inv_def cursors_ok_def delete_conv')
  moreover have "safe env (chain_config env) storage_view storage_ok (divisible_base (Registry p)) acct
      (dom (map_of (OrderBooks p)) - {obid}) E (Books p, World p)"
    using inv unfolding pallet_inv_def safe_def by blast
  ultimately have q: "pallet_inv env acct E ?q"
    using inv by (auto simp: pallet_inv_def delete_conv')
  obtain t where w: "w = World p \<lparr> TechAccounts := t \<rparr>" using tech_account_frame(2) [OF tech] by blast
  have "pallet_inv env acct E (?q \<lparr> World := w \<lparr> Events := es \<rparr> \<rparr>)"
    by (rule pallet_inv_world [OF q]) (simp_all add: w)
  then have "pallet_inv env acct E (?q \<lparr> World := w \<lparr> Events := es \<rparr>, Registry := r \<rparr>)"
    by (rule pallet_inv_registry) (simp add: prec)
  moreover have "p' = ?q \<lparr> World := w \<lparr> Events := es \<rparr>, Registry := r \<rparr>" by (rule pallet.equality) (simp_all add: p')
  ultimately have "pallet_inv env acct E p'" by simp
  then show ?thesis by (rule moves_books) (simp_all add: p')
qed

lemma status_inv:
  assumes inv: "pallet_inv env acct E p"
    and run: "change_orderbook_status rt origin obid status p = (Inr u, p')"
  shows "moves env acct E p {} {} E p'"
proof -
  from run obtain book es where book: "map_of (OrderBooks p) obid = Some book"
    and guard: "\<not> (tech_status book = Updating \<and> status \<noteq> OnlyCancel \<and> status \<noteq> Stop)"
    and p': "p' = p \<lparr> OrderBooks := AList.update obid (book \<lparr> book_status := status \<rparr>) (OrderBooks p),
      World := (World p) \<lparr> Events := es \<rparr> \<rparr>"
    by (auto simp: change_orderbook_status_def sbind_Inr slift_Inr on_world_Inr get_order_book_Inr set_order_book_Inr
        ensure_Inr deposit_event_Inr)
  have wf: "book_wf (chain_config env) (Registry p) obid (book \<lparr> book_status := status \<rparr>)"
    using pallet_inv_ids [OF inv book] guard by (auto simp: book_wf_def)
  have "obid \<in> fst ` set (AlignmentCursor p)" if "tech_status book = Updating"
    using inv book that by (auto simp: pallet_inv_def cursors_ok_def)
  then have "pallet_inv env acct E (p \<lparr> OrderBooks := AList.update obid (book \<lparr> book_status := status \<rparr>) (OrderBooks p) \<rparr>)"
    by (intro pallet_inv_set_book [OF inv book wf]) auto
  from pallet_inv_events [OF this, of es] have "pallet_inv env acct E p'" by (simp add: p')
  then show ?thesis by (rule moves_books) (simp_all add: p')
qed

lemma update_run:
  assumes "update_orderbook rt origin obid tick step lot_min lot_max p = (Inr u, p')"
  obtains book book' cursors es where "map_of (OrderBooks p) obid = Some book" and "tech_status book = Ready"
    and "book_status book = OnlyCancel \<or> book_status book = Stop"
    and "verify_orderbook_attributes (chain_config (chain_of rt)) (Registry p) obid tick step lot_min lot_max = Inr ()"
    and "book' = book \<lparr> tick_size := bu_set (tick_size book) tick, step_lot_size := bu_set (step_lot_size book) step,
        min_lot_size := bu_set (min_lot_size book) lot_min, max_lot_size := bu_set (max_lot_size book) lot_max,
        tech_status := (if inner (step_lot_size book) mod step \<noteq> 0 then Updating else Ready) \<rparr>"
    and "cursors = (if inner (step_lot_size book) mod step \<noteq> 0 then AList.update obid 0 (AlignmentCursor p)
        else AlignmentCursor p)"
    and "p' = p \<lparr> AlignmentCursor := cursors, OrderBooks := AList.update obid book' (OrderBooks p),
        World := (World p) \<lparr> Events := es \<rparr> \<rparr>"
proof -
  let ?set = "\<lambda>b. b \<lparr> tick_size := bu_set (tick_size b) tick, step_lot_size := bu_set (step_lot_size b) step,
        min_lot_size := bu_set (min_lot_size b) lot_min, max_lot_size := bu_set (max_lot_size b) lot_max \<rparr>"
  from assms obtain book v where book: "map_of (OrderBooks p) obid = Some book" and ready: "tech_status book = Ready"
    and status: "book_status book = OnlyCancel \<or> book_status book = Stop"
    and attrs: "verify_orderbook_attributes (chain_config (chain_of rt)) (Registry p) obid tick step lot_min lot_max = Inr v"
    and rest: "sbind (if inner (step_lot_size book) mod step \<noteq> 0
        then sbind (smodify (\<lambda>p. p \<lparr> AlignmentCursor := AList.update obid 0 (AlignmentCursor p) \<rparr>)) (\<lambda>_.
             sret ((?set book) \<lparr> tech_status := Updating \<rparr>))
        else sret (?set book))
      (\<lambda>b. sbind (set_order_book obid b) (\<lambda>_. on_world (deposit_event (OrderBookUpdated obid)))) p = (Inr u, p')"
    unfolding update_orderbook_def Let_def
    by (auto simp only: sbind_Inr [of "slift _"] sbind_Inr [of "get_order_book _"] sbind_Inr [of "with_state _"]
        slift_Inr get_order_book_Inr ensure_Inr with_state_Inr)
  obtain es where p': "p' = (if inner (step_lot_size book) mod step \<noteq> 0
      then p \<lparr> AlignmentCursor := AList.update obid 0 (AlignmentCursor p),
          OrderBooks := AList.update obid ((?set book) \<lparr> tech_status := Updating \<rparr>) (OrderBooks p),
          World := (World p) \<lparr> Events := es \<rparr> \<rparr>
      else p \<lparr> OrderBooks := AList.update obid (?set book) (OrderBooks p), World := (World p) \<lparr> Events := es \<rparr> \<rparr>)"
    using rest by (cases "inner (step_lot_size book) mod step = 0")
      (auto simp: sbind_Inr sret_Inr smodify_Inr set_order_book_Inr on_world_Inr deposit_event_Inr)
  have same: "(?set book) \<lparr> tech_status := Ready \<rparr> = ?set book" by (rule order_book.equality) (simp_all add: ready)
  show ?thesis by (rule that [OF book ready status attrs [unfolded unit_eq [of v]] refl refl]) (auto simp: p' same)
qed

lemma update_inv:
  assumes inv: "pallet_inv env acct E p" and rt: "chain_of rt = env"
    and run: "update_orderbook rt origin obid tick step lot_min lot_max p = (Inr u, p')"
  shows "moves env acct E p {} {} E p'"
proof -
  from update_run [OF run, unfolded rt] obtain book book' cursors es where book: "map_of (OrderBooks p) obid = Some book"
    and status: "book_status book = OnlyCancel \<or> book_status book = Stop"
    and attrs: "verify_orderbook_attributes (chain_config env) (Registry p) obid tick step lot_min lot_max = Inr ()"
    and book': "book' = book \<lparr> tick_size := bu_set (tick_size book) tick, step_lot_size := bu_set (step_lot_size book) step,
        min_lot_size := bu_set (min_lot_size book) lot_min, max_lot_size := bu_set (max_lot_size book) lot_max,
        tech_status := (if inner (step_lot_size book) mod step \<noteq> 0 then Updating else Ready) \<rparr>"
    and cursors: "cursors = (if inner (step_lot_size book) mod step \<noteq> 0 then AList.update obid 0 (AlignmentCursor p)
        else AlignmentCursor p)"
    and p': "p' = p \<lparr> AlignmentCursor := cursors, OrderBooks := AList.update obid book' (OrderBooks p),
        World := (World p) \<lparr> Events := es \<rparr> \<rparr>"
    by metis
  have wf: "book_wf (chain_config env) (Registry p) obid book'"
    using pallet_inv_ids [OF inv book] status verify_attributes_lots [OF attrs]
    by (simp add: book_wf_def book' bu_set_def)
  have "cursors_ok (p \<lparr> AlignmentCursor := cursors \<rparr>)"
    using inv by (auto simp: pallet_inv_def cursors_ok_def cursors distinct_update dom_update)
  then have q: "pallet_inv env acct E (p \<lparr> AlignmentCursor := cursors \<rparr>)"
    using inv by (simp add: pallet_inv_def orders_known_def)
  have "pallet_inv env acct E (p \<lparr> AlignmentCursor := cursors,
      OrderBooks := AList.update obid book' (OrderBooks (p \<lparr> AlignmentCursor := cursors \<rparr>)) \<rparr>)"
    by (rule pallet_inv_set_book [OF q, of obid book]) (use book wf in \<open>auto simp: book' cursors dom_update split: if_splits\<close>)
  from pallet_inv_events [OF this, of es] have "pallet_inv env acct E p'" by (simp add: p')
  then show ?thesis by (rule moves_books) (simp_all add: p')
qed

section \<open>Placing and executing orders\<close>

text \<open>The order that a call of \<open>place_limit_order\<close> makes of its arguments.\<close>

definition call_order ::
  "'o runtime \<Rightarrow> registry \<Rightarrow> order_book \<Rightarrow> account_id \<Rightarrow> balance \<Rightarrow> balance \<Rightarrow> price_variant \<Rightarrow> moment option \<Rightarrow> limit_order" where
  "call_order rt r book owner price amount side lifespan =
     lo_new (chain_config (chain_of rt)) (Suc (last_order_id book)) owner side (divisible price)
       (volume_for r (book_id book) amount) (Time_now rt)
       (unwrap_or lifespan (MAX_ORDER_LIFESPAN (chain_config (chain_of rt)))) (block_number rt)"

lemma call_order_simps [simp]:
  "lo_id (call_order rt r book owner price amount side lifespan) = Suc (last_order_id book)"
  "lo_owner (call_order rt r book owner price amount side lifespan) = owner"
  "lo_side (call_order rt r book owner price amount side lifespan) = side"
  "lo_price (call_order rt r book owner price amount side lifespan) = divisible price"
  "lo_amount (call_order rt r book owner price amount side lifespan) = volume_for r (book_id book) amount"
  "lo_original_amount (call_order rt r book owner price amount side lifespan) = volume_for r (book_id book) amount"
  by (simp_all add: call_order_def lo_new_def)

lemma place_call_run:
  assumes run: "inner_place_limit_order rt owner obid price amount side lifespan p = (Inr n, p')"
    and room: "\<forall>obid book. map_of (OrderBooks p) obid = Some book \<longrightarrow> book_id book = obid \<and> last_order_id book < u128_max"
  obtains book d w where "map_of (OrderBooks p) obid = Some book"
    and "place_limit_order (chain_of rt) (cache_of rt) (book \<lparr> last_order_id := Suc (last_order_id book) \<rparr>)
      (call_order rt (Registry p) book owner price amount side lifespan) ((cl_new, Books p), World p) = (Inr n, (d, w))"
    and "p' = p \<lparr> OrderBooks := AList.update obid (book \<lparr> last_order_id := Suc (last_order_id book) \<rparr>) (OrderBooks p),
      Books := snd (cl_commit d), World := w \<rparr>"
proof -
  from run obtain book where book: "map_of (OrderBooks p) obid = Some book"
    by (auto simp: inner_place_limit_order_def sbind_Inr get_order_book_Inr)
  with room have b: "book_id book = obid" "last_order_id book < u128_max" by auto
  then have id: "next_order_id book = (Suc (last_order_id book), book \<lparr> last_order_id := Suc (last_order_id book) \<rparr>)"
    by (simp add: next_order_id_def saturating_add_u_def)
  from run book id b(1) that show ?thesis
    by (auto simp: inner_place_limit_order_def sbind_Inr get_order_book_Inr with_state_Inr sret_Inr set_order_book_Inr
        run_cached_Inr Let_def call_order_def)
qed

lemma place_call_safe:
  assumes inv: "pallet_inv env acct E p" and env: "env_ok env acct" and rt: "chain_of rt = env"
    and run: "inner_place_limit_order rt owner obid price amount side lifespan p = (Inr n, p')"
    and owner: "owner \<notin> range acct" and args: "price \<le> u128_max" "amount \<le> u128_max"
    and room: "\<forall>a. balance_of env (World p) a owner < u128_max"
      "\<forall>obid book. map_of (OrderBooks p) obid = Some book \<longrightarrow> last_order_id book < u128_max"
  obtains book x E' d w where "map_of (OrderBooks p) obid = Some book"
    and "x = call_order rt (Registry p) book owner price amount side lifespan"
    and "v_orders (storage_view (Books p)) obid (lo_id x) = None"
    and "p' = p \<lparr> OrderBooks := AList.update obid (book \<lparr> last_order_id := Suc (last_order_id book) \<rparr>) (OrderBooks p),
      Books := snd (cl_commit d), World := w \<rparr>"
    and "moves env acct E p {(obid, lo_id x)} {x} E' p'" and "cache_view d = storage_view (Books p')"
    and "\<not> spec_crosses (storage_view (Books p)) obid x \<Longrightarrow> v_orders (cache_view d) =
      (v_orders (storage_view (Books p))) (obid := (v_orders (storage_view (Books p)) obid)(lo_id x \<mapsto> x))"
    and "\<And>y a. \<not> spec_crosses (storage_view (Books p)) obid x \<Longrightarrow> y \<notin> range acct \<Longrightarrow>
      balance_of env w a y + (if y = owner then lock_units obid (divisible_base (Registry p) obid) a x else 0) =
      balance_of env (World p) a y"
proof -
  have ids: "\<forall>obid book. map_of (OrderBooks p) obid = Some book \<longrightarrow> book_id book = obid \<and> last_order_id book < u128_max"
    using pallet_inv_ids [OF inv] room(2) by blast
  from place_call_run [OF run ids, unfolded rt] obtain book d w where book: "map_of (OrderBooks p) obid = Some book"
    and place: "place_limit_order env (cache_data_layer (chain_config env)) (book \<lparr> last_order_id := Suc (last_order_id book) \<rparr>)
      (call_order rt (Registry p) book owner price amount side lifespan) ((cl_new, Books p), World p) = (Inr n, (d, w))"
    and p': "p' = p \<lparr> OrderBooks := AList.update obid (book \<lparr> last_order_id := Suc (last_order_id book) \<rparr>) (OrderBooks p),
      Books := snd (cl_commit d), World := w \<rparr>"
    by blast
  let ?book = "book \<lparr> last_order_id := Suc (last_order_id book) \<rparr>"
  let ?x = "call_order rt (Registry p) book owner price amount side lifespan"
  let ?q = "p \<lparr> OrderBooks := AList.update obid ?book (OrderBooks p) \<rparr>"
  have wf: "book_wf (chain_config env) (Registry p) obid book" and bid: "book_id ?book = obid"
    using pallet_inv_ids [OF inv book] by simp_all
  have "tech_status book = Updating \<longrightarrow> obid \<in> fst ` set (AlignmentCursor p)"
    using inv book by (auto simp: pallet_inv_def cursors_ok_def)
  then have q: "pallet_inv env acct E ?q"
    using wf by (intro pallet_inv_set_book [OF inv book]) (auto simp: book_wf_def)
  note en = pallet_inv_enter [OF q, simplified]
  have new: "v_orders (storage_view (Books p)) obid (lo_id ?x) = None"
    using pallet_inv_known [OF inv, of obid "Suc (last_order_id book)"] book by fastforce
  have "ensure_limit_order_valid (chain_config env) ?book ?x = Inr ()"
    using place by (auto simp: place_limit_order_def sbind_Inr slift_Inr)
  then have pos: "0 < price" "0 < amount"
    by (auto simp: ensure_limit_order_valid_def lo_ensure_valid_def run_simps bu_is_zero_def volume_for_def split: if_splits)
  then have xwf: "order_wf (divisible_base (Registry p) (book_id ?book)) ?x"
    using args by (simp add: order_wf_def volume_for_def divisible_base_def)
  let ?E = "{(obid, i) \<in> E. v_orders (storage_view (Books p)) obid i \<noteq> None}"
  have safe: "safe env (chain_config env) cache_view cache_ok (divisible_base (Registry p)) acct
      (dom (map_of (OrderBooks ?q))) ?E ((cl_new, Books p), World p)"
    using safe_restrict [OF en(1)] en(2) by simp
  have fresh: "v_orders (cache_view (cl_new, Books p)) (book_id ?book) (lo_id ?x) = None" "(book_id ?book, lo_id ?x) \<notin> ?E"
    using new en(2) bid by auto
  have side: "\<forall>a. balance_of env (World p) a (lo_owner ?x) < u128_max" "book_id ?book \<in> dom (map_of (OrderBooks ?q))"
    "lo_owner ?x \<notin> acct ` dom (map_of (OrderBooks ?q))"
    using room(1) owner bid by (auto simp: update_conv')
  note eff = cache_impl.place_safe [OF safe place xwf fresh side(1) refl pallet_inv_books [OF q env] side(2,3), unfolded bid en(2)]
  have "j < lo_id ?x" if "v_orders (storage_view (Books p)) obid j \<noteq> None" for j
    using pallet_inv_known [OF inv that] book by auto
  then have "latest (storage_view (Books p)) {(obid, lo_id ?x)}" by (simp add: latest_def)
  moreover have "uncrossed (v_orders (storage_view (Books p)) o')" for o' using inv by (simp add: pallet_inv_def)
  ultimately have "pallet_inv env acct ?E (?q \<lparr> Books := snd (cl_commit d), World := w \<rparr>)"
    using owner eff(1,2,5) en(2) by (intro pallet_inv_cached [OF q, where N = "{(obid, lo_id ?x)}" and A = "{?x}"]) (auto simp: update_conv')
  then have inv': "pallet_inv env acct ?E p'" by (simp add: p')
  have view: "cache_view d = storage_view (Books p')" using safe_leave(2) [OF eff(1)] by (simp add: p')
  have out: "y \<notin> acct ` dom (map_of (OrderBooks ?q))" if "y \<notin> range acct" for y using that by blast
  have moves: "moves env acct E p {(obid, lo_id ?x)} {?x} ?E p'"
    using inv' eff(2) view new by (auto simp: moves_def p')
  show ?thesis by (rule that [OF book refl new p' moves view eff(3)]) (use eff(4) out in simp_all)
qed

lemma place_moves:
  assumes "pallet_inv env acct E p" and "env_ok env acct" and "chain_of rt = env"
    and "inner_place_limit_order rt owner obid price amount side lifespan p = (Inr n, p')"
    and "owner \<notin> range acct" and "price \<le> u128_max" "amount \<le> u128_max"
    and "\<forall>a. balance_of env (World p) a owner < u128_max"
      "\<forall>obid book. map_of (OrderBooks p) obid = Some book \<longrightarrow> last_order_id book < u128_max"
  shows "\<exists>book E'. map_of (OrderBooks p) obid = Some book \<and>
    (let x = call_order rt (Registry p) book owner price amount side lifespan
     in moves env acct E p {(obid, lo_id x)} {x} E' p')"
  by (rule place_call_safe [OF assms]) (auto simp: Let_def)

lemma execute_inv:
  assumes inv: "pallet_inv env acct E p" and env: "env_ok env acct"
    and book: "map_of (OrderBooks p) obid = Some book"
    and run: "run_cached (execute_market_order env (cache_data_layer (chain_config env)) book mo) p = (Inr r, p')"
    and amount: "is_divisible (mo_amount mo) = divisible_base (Registry p) obid"
    and parties: "mo_owner mo \<notin> range acct" "unwrap_or (mo_to mo) (mo_owner mo) \<notin> range acct"
  shows "moves env acct E p {} {} E p'"
proof -
  from run obtain d w where exec: "execute_market_order env (cache_data_layer (chain_config env)) book mo
      ((cl_new, Books p), World p) = (Inr r, (d, w))"
    and p': "p' = p \<lparr> Books := snd (cl_commit d), World := w \<rparr>"
    by (auto simp: run_cached_Inr)
  obtain inp outp n where r: "r = (inp, outp, n)" by (cases r)
  have bid: "book_id book = obid" "book_id book \<in> dom (map_of (OrderBooks p))"
    using pallet_inv_ids [OF inv book] book by auto
  have out: "{mo_owner mo, unwrap_or (mo_to mo) (mo_owner mo)} \<inter> acct ` dom (map_of (OrderBooks p)) = {}"
    using parties by auto
  note eff = cache_impl.execute_safe [OF pallet_inv_enter(1) [OF inv] exec [unfolded r] _ pallet_inv_books [OF inv env] bid(2) out]
  show ?thesis unfolding p' using eff(1,10) amount bid(1) by (intro moves_removed [OF inv]) simp_all
qed

lemma execute_call_inv:
  assumes inv: "pallet_inv env acct E p" and env: "env_ok env acct" and rt: "chain_of rt = env"
    and run: "execute_market_order_call rt origin obid direction amount p = (Inr u, p')"
    and signer: "\<And>who. ensure_signed rt origin = Inr who \<Longrightarrow> who \<notin> range acct"
  shows "moves env acct E p {} {} E p'"
proof -
  from run rt obtain who book r where who: "ensure_signed rt origin = Inr who"
    and nft: "is_non_divisible (Registry p) (ob_base obid)" and book: "map_of (OrderBooks p) obid = Some book"
    and exec: "run_cached (execute_market_order env (cache_data_layer (chain_config env)) book
       \<lparr> mo_owner = who, mo_direction = direction, mo_order_book_id = obid, mo_amount = indivisible amount,
         mo_to = None \<rparr>) p = (Inr r, p')"
    by (auto simp: execute_market_order_call_def sbind_Inr slift_Inr with_state_Inr get_order_book_Inr sret_Inr ensure_Inr)
  show ?thesis
    by (rule execute_inv [OF inv env book exec]) (use nft signer [OF who] in \<open>simp_all add: divisible_base_def\<close>)
qed

section \<open>Exchange\<close>

lemma checked_div_flag:
  "bu_checked_add x y = Some z \<Longrightarrow> is_divisible z = (is_divisible x \<or> is_divisible y)"
  "bu_checked_sub x y = Some z \<Longrightarrow> is_divisible z = (is_divisible x \<or> is_divisible y)"
  "bu_checked_div x y = Some z \<Longrightarrow> is_divisible z = (is_divisible x \<or> is_divisible y)"
  by (auto simp: bu_checked_add_def bu_checked_sub_def bu_checked_div_def split: option.splits prod.splits)

lemma align_amount_flag [simp]: "is_divisible (align_amount book a) = is_divisible a"
  by (simp add: align_amount_def Let_def bu_set_def)

text \<open>A deal in a book of a divisible asset has a divisible base amount.\<close>

lemma sum_market_divisible:
  assumes "sum_market_loop book (Some t) m base quote = Inr (b, q, True)"
    and "\<forall>(p, v)\<in>set m. is_divisible p" and "\<And>x. t = Base x \<Longrightarrow> is_divisible x"
  shows "is_divisible b"
  using assms
proof (induction m arbitrary: base quote)
  case (Cons e m)
  obtain p v where e: "e = (p, v)" by (cases e)
  have IH: "sum_market_loop book (Some t) m base' quote' = Inr (b, q, True) \<Longrightarrow> is_divisible b" for base' quote'
    using Cons.IH Cons.prems(2,3) by simp
  have p: "is_divisible p" using Cons.prems(2) by (simp add: e)
  show ?case
  proof (cases t)
    case (Base x)
    show ?thesis
      using Cons.prems(1,3) unfolding e Base
      by (auto simp: sum_final_def Let_def run_simps split: if_splits)
        (metis checked_div_flag align_amount_flag IH [unfolded Base])+
  next
    case (Quote x)
    show ?thesis
      using Cons.prems(1) p unfolding e Quote
      by (auto simp: sum_final_def Let_def run_simps split: if_splits)
        (metis checked_div_flag align_amount_flag IH [unfolded Quote])+
  qed
qed simp

context DataLayer
begin

lemma calculate_deal_run:
  assumes run: "calculate_deal dl book inp_asset outp_asset amount d = (Inr deal, d')" and coh: "coh d"
  obtains base quote where "coh d'" and "view d' = view d"
    and "get_direction book inp_asset outp_asset = Inr (di_direction deal)"
    and "sum_market book (market_view (view d) (book_id book) (di_direction deal))
      (Some (deal_target book (di_direction deal) amount)) True = Inr (Base base, Quote quote)"
    and "di_input_amount deal = (case di_direction deal of Buy \<Rightarrow> Quote quote | Sell \<Rightarrow> Base base)"
    and "di_output_amount deal = (case di_direction deal of Buy \<Rightarrow> Base base | Sell \<Rightarrow> Quote quote)"
    and "0 < bu_value base" and "0 < bu_value quote"
proof -
  from run obtain dir m b q price d1 where dir: "get_direction book inp_asset outp_asset = Inr dir"
    and data: "market_data dl book dir d = (Inr m, d1)"
    and sum: "sum_market book m (Some (deal_target book dir amount)) True = Inr (b, q)"
    and pos: "bu_zero < amount_value b" "bu_zero < amount_value q"
    and deal: "d' = d1" "deal = \<lparr> di_input_asset_id = inp_asset, di_input_amount = (case dir of Buy \<Rightarrow> q | Sell \<Rightarrow> b),
               di_output_asset_id = outp_asset, di_output_amount = (case dir of Buy \<Rightarrow> b | Sell \<Rightarrow> q),
               di_average_price = price, di_direction = dir \<rparr>"
    unfolding calculate_deal_def
    by (auto simp: sbind_Inr slift_Inr ensure_Inr sret_Inr split: prod.splits price_variant.splits)
  note rd = reads_run [OF market_data_reads [OF coh] data]
  obtain base quote where bq: "b = Base base" "q = Quote quote"
    using sum by (auto simp: sum_market_def and_then_Inr)
  show ?thesis
    using that [of base quote] rd dir sum pos unfolding bq deal by (simp add: bu_less_value split: price_variant.splits)
qed

lemma exchange_safe:
  assumes safe: "safe env cfg view coh dv acct B E (d, w)"
    and run: "exchange_cached env dl obid book sender receiver inp_asset outp_asset desired (d, w) = (Inr out, (d', w'))"
    and book: "book_id book = obid" "dv obid" "is_divisible (tick_size book)" "is_divisible (step_lot_size book)"
    and env: "books_ok env acct B" "obid \<in> B" "sender \<notin> acct ` B" "receiver \<notin> acct ` B"
  obtains fs dir where "safe env cfg view coh dv acct B E (d', w')" and "extends_by (view d) (view d') {} {}"
    and "outcome_amount out = (case desired of
        SwapWithDesiredInput _ _ \<Rightarrow> taker_sum dir True fs | SwapWithDesiredOutput _ _ \<Rightarrow> maker_sum dir True fs)"
    and "case desired of
        SwapWithDesiredInput amount_in min_out \<Rightarrow> maker_sum dir True fs \<le> amount_in \<and> min_out \<le> taker_sum dir True fs
      | SwapWithDesiredOutput amount_out max_in \<Rightarrow> taker_sum dir True fs \<le> amount_out \<and> maker_sum dir True fs \<le> max_in"
    and "inp_asset = maker_out_asset obid dir" and "outp_asset = taker_out_asset obid dir"
    and "\<exists>n. fs = fills n (best_queue (view d) obid dir)"
    and "\<And>y a. y \<notin> acct ` B \<Longrightarrow>
      balance_of env w' a y + (if a = inp_asset \<and> y = sender then maker_sum dir True fs else 0) =
      balance_of env w a y +
       (if a = inp_asset then maker_paid dir True fs y
        else if a = outp_asset \<and> y = receiver then taker_sum dir True fs else 0)"
proof -
  have coh: "coh d" and inv: "book_inv cfg (dv obid) obid (view d)"
    using safe by (simp_all add: safe_def consistent_def view_inv_def)
  let ?mo = "\<lambda>deal. \<lparr> mo_owner = sender, mo_direction = di_direction deal, mo_order_book_id = obid,
         mo_amount = deal_base_amount_of deal, mo_to = (if sender = receiver then None else Some receiver) \<rparr>"
  from run obtain deal d1 inp outp n where
      calc: "calculate_deal dl book inp_asset outp_asset (quote_of_swap desired) d = (Inr deal, d1)"
    and exec: "execute_market_order env dl book (?mo deal) (d1, w) = (Inr (inp, outp, n), (d', w'))"
    and slip: "within_slippage desired inp outp = Inr ()"
    and out: "outcome_amount out = (case desired of
        SwapWithDesiredInput _ _ \<Rightarrow> inner (amount_value outp) | SwapWithDesiredOutput _ _ \<Rightarrow> inner (amount_value inp))"
    unfolding exchange_cached_def
    by (fastforce simp: sbind_Inr slift_Inr on_fst_Inr sret_Inr split: prod.splits)
  let ?dir = "di_direction deal"
  from calculate_deal_run [OF calc coh] obtain base quote where d1: "coh d1" "view d1 = view d"
    and dir: "get_direction book inp_asset outp_asset = Inr ?dir"
    and sum: "sum_market book (market_view (view d) obid ?dir)
      (Some (deal_target book ?dir (quote_of_swap desired))) True = Inr (Base base, Quote quote)"
    and deal: "di_input_amount deal = (case ?dir of Buy \<Rightarrow> Quote quote | Sell \<Rightarrow> Base base)"
      "di_output_amount deal = (case ?dir of Buy \<Rightarrow> Base base | Sell \<Rightarrow> Quote quote)"
    unfolding book(1) by metis
  have base: "deal_base_amount_of deal = base"
    by (simp add: deal_base_amount_of_def deal split: price_variant.splits)
  have "fst ` set (v_agg (view d) side obid) \<subseteq> {p. is_divisible p}" for side
    using inv by (simp add: book_inv_def side_inv_def agg_wf_def)
  then have prices: "\<forall>(p, v)\<in>set (market_view (view d) obid ?dir). is_divisible p"
    by (cases ?dir) (force simp: market_view_def)+
  have loop: "sum_market_loop book (Some (deal_target book ?dir (quote_of_swap desired)))
      (market_view (view d) obid ?dir) bu_zero bu_zero = Inr (base, quote, True)"
    using sum by (auto simp: sum_market_def and_then_Inr ensure_Inr)
  have flag: "is_divisible base"
    by (rule sum_market_divisible [OF loop prices])
      (use book(4) in \<open>auto simp: deal_target_def copy_divisibility_def split: quote_amount.splits price_variant.splits\<close>)
  have B: "{mo_owner (?mo deal), unwrap_or (mo_to (?mo deal)) (mo_owner (?mo deal))} \<inter> acct ` B = {}"
    using env(3,4) by auto
  have amt: "is_divisible (mo_amount (?mo deal)) = dv (book_id book)" using flag book(1,2) base by simp
  have bid: "book_id book \<in> B" using env(2) book(1) by simp
  have recv: "unwrap_or (if sender = receiver then None else Some receiver) sender = receiver" by simp
  note eff = execute_safe [OF safe_view [OF safe d1] exec amt env(1) bid B, unfolded d1(2) book(1) market_order.simps recv]
  have dvt: "dv obid = True" using book(2) by simp
  have assets: "inp_asset = maker_out_asset obid ?dir" "outp_asset = taker_out_asset obid ?dir"
    using dir book(1) by (auto simp: get_direction_def maker_out_asset_def taker_out_asset_def split: if_splits)
  let ?t = "deal_target book ?dir (quote_of_swap desired)" and ?fs = "market_fills obid (view d) (?mo deal)"
  have "is_divisible (amount_value ?t)"
    using book(3,4) by (auto simp: deal_target_def copy_divisibility_def split: quote_amount.splits price_variant.splits)
  note md = market_deal [OF inv [unfolded dvt] this sum]
  have sums: "taken ?fs = inner base" "cost True ?fs \<le> inner quote"
    using eff(3) md(2) by (simp_all add: base market_fills_def)
  have within: "case desired of SwapWithDesiredInput amount_in _ \<Rightarrow> maker_sum ?dir True ?fs \<le> amount_in
      | SwapWithDesiredOutput amount_out _ \<Rightarrow> taker_sum ?dir True ?fs \<le> amount_out"
    using md(1) sums by (cases desired; cases ?dir) (auto simp: within_target_def deal_target_def copy_divisibility_def sums_cost_taken)
  show ?thesis
  proof (rule that [of ?dir ?fs, OF eff(1) eff(10) _ _ assets], goal_cases)
    case 3
    show ?case by (auto simp: market_fills_def)
  next
    case 1
    show ?case unfolding out eff(5,7) dvt ..
  next
    case 2
    show ?case
      using slip within unfolding within_slippage_def eff(5,7) dvt by (auto simp: ensure_Inr split: swap_amount.splits)
  next
    case (4 y a)
    show ?case using eff(9) [OF 4, of a] unfolding assets dvt .
  qed
qed

end

lemma exchange_book:
  assumes inv: "pallet_inv env acct E p" and asm: "assemble_order_book_id (Registry p) dex inp outp = Some obid"
    and book: "map_of (OrderBooks p) obid = Some book" and check: "check_indivisible_assets (Registry p) inp outp = Inr ()"
  shows "book_id book = obid" and "divisible_base (Registry p) obid" and "is_divisible (tick_size book)"
    and "is_divisible (step_lot_size book)"
proof -
  have wf: "book_wf (chain_config env) (Registry p) obid book" and bid: "book_id book = obid"
    using pallet_inv_ids [OF inv book] by auto
  have "ob_base obid = inp \<or> ob_base obid = outp"
    using asm by (auto simp: assemble_order_book_id_def split: if_splits sum.splits)
  then have "divisible_base (Registry p) obid"
    using check by (auto simp: check_indivisible_assets_def ensure_Inr divisible_base_def)
  with wf bid show "book_id book = obid" and "divisible_base (Registry p) obid" and "is_divisible (tick_size book)"
    and "is_divisible (step_lot_size book)"
    by (auto simp: book_wf_def)
qed

lemma exchange_inv:
  assumes inv: "pallet_inv env acct E p" and env: "env_ok env acct" and rt: "chain_of rt = env"
    and run: "exchange rt sender receiver dex inp_asset outp_asset desired p = (Inr out, p')"
    and check: "check_indivisible_assets (Registry p) inp_asset outp_asset = Inr ()"
    and parties: "sender \<notin> range acct" "receiver \<notin> range acct"
  shows "moves env acct E p {} {} E p'"
proof -
  from run rt obtain obid book d w where asm: "assemble_order_book_id (Registry p) dex inp_asset outp_asset = Some obid"
    and book: "map_of (OrderBooks p) obid = Some book"
    and exec: "exchange_cached env (cache_data_layer (chain_config env)) obid book sender receiver inp_asset outp_asset desired
      ((cl_new, Books p), World p) = (Inr out, (d, w))"
    and p': "p' = p \<lparr> Books := snd (cl_commit d), World := w \<rparr>"
    by (auto simp: exchange_def find_order_book_def sbind_Inr with_state_Inr and_then_Inr ok_or_Inr run_cached_Inr)
  note side = exchange_book [OF inv asm book check]
  have out: "obid \<in> dom (map_of (OrderBooks p))" "sender \<notin> acct ` dom (map_of (OrderBooks p))"
    "receiver \<notin> acct ` dom (map_of (OrderBooks p))"
    using book parties by auto
  show ?thesis
    unfolding p'
    by (rule cache_impl.exchange_safe [OF pallet_inv_enter(1) [OF inv] exec side pallet_inv_books [OF inv env] out])
      (rule moves_removed [OF inv])
qed

section \<open>Dispatch\<close>

text \<open>
  What the theorems on calls assume of a call: nobody signs for a technical account, the numbers are
  \<open>u128\<close>, and no balance of the signer and no order counter has reached the largest \<open>u128\<close>.
\<close>

definition not_signed_by :: "'o runtime \<Rightarrow> 'o \<Rightarrow> account_id set \<Rightarrow> bool" where
  "not_signed_by rt origin A \<longleftrightarrow> (case ensure_signed rt origin of Inr who \<Rightarrow> who \<notin> A | Inl _ \<Rightarrow> True)"

definition below_limits :: "chain \<Rightarrow> account_id set \<Rightarrow> pallet \<Rightarrow> bool" where
  "below_limits env A p \<longleftrightarrow>
     (\<forall>a y. y \<notin> A \<longrightarrow> balance_of env (World p) a y < u128_max) \<and>
     (\<forall>obid book. map_of (OrderBooks p) obid = Some book \<longrightarrow> last_order_id book < u128_max)"

fun call_fits :: "chain \<Rightarrow> account_id set \<Rightarrow> pallet \<Rightarrow> call \<Rightarrow> bool" where
  "call_fits env A p (PlaceLimitOrder obid price amount side lifespan) \<longleftrightarrow>
     price \<le> u128_max \<and> amount \<le> u128_max \<and> below_limits env A p"
| "call_fits env A p _ \<longleftrightarrow> True"

lemma without_info_Inr: "without_info f p = (Inr u, p') \<longleftrightarrow> (\<exists>r. f p = (Inr r, p'))"
  by (auto simp: without_info_def sbind_Inr sret_Inr)

lemma dispatch_moves:
  assumes inv: "pallet_inv env acct E p" and env: "env_ok env acct" and rt: "chain_of rt = env"
    and signer: "not_signed_by rt origin (range acct)" and args: "call_fits env (range acct) p c"
    and run: "dispatch rt origin c p = (r, p')"
  shows "moves env acct E p {} {} E p' \<or>
    (\<exists>obid price amount side lifespan who book x E'. c = PlaceLimitOrder obid price amount side lifespan \<and>
       ensure_signed rt origin = Inr who \<and> map_of (OrderBooks p) obid = Some book \<and>
       x = call_order rt (Registry p) book who price amount side lifespan \<and> moves env acct E p {(obid, lo_id x)} {x} E' p')"
proof (cases "\<exists>e. fst (call_body rt origin c p) = Inl e")
  case True
  then have "p' = p" using run by (auto simp: dispatch_def transactional_def split: prod.splits)
  then show ?thesis using inv by (simp add: moves_books)
next
  case False
  then have run': "call_body rt origin c p = (Inr (), p')"
    using run by (auto simp: dispatch_def transactional_def split: prod.splits sum.splits)
  have signed: "ensure_signed rt origin = Inr who \<Longrightarrow> who \<notin> range acct" for who
    using signer by (auto simp: not_signed_by_def)
  show ?thesis
  proof (cases "\<exists>obid price amount side lifespan. c = PlaceLimitOrder obid price amount side lifespan")
    case True
    then obtain obid price amount side lifespan where c: "c = PlaceLimitOrder obid price amount side lifespan" by blast
    with run' obtain who n where who: "ensure_signed rt origin = Inr who"
      and place: "inner_place_limit_order rt who obid price amount side lifespan p = (Inr n, p')"
      by (auto simp: without_info_Inr place_limit_order_call_def sbind_Inr slift_Inr sret_Inr)
    let ?x = "\<lambda>book. call_order rt (Registry p) book who price amount side lifespan"
    have "\<exists>book E'. map_of (OrderBooks p) obid = Some book \<and>
        (let x = ?x book in moves env acct E p {(obid, lo_id x)} {x} E' p')"
      using args signed [OF who] by (intro place_moves [OF inv env rt place]) (auto simp: c below_limits_def)
    then obtain book E' where "map_of (OrderBooks p) obid = Some book"
      and "moves env acct E p {(obid, lo_id (?x book))} {?x book} E' p'" unfolding Let_def by blast
    with c who show ?thesis by blast
  next
    case False
    have "moves env acct E p {} {} E p'"
    proof (cases c)
      case (ExecuteMarketOrder obid direction amount)
      with run' show ?thesis by (auto intro: execute_call_inv [OF inv env rt _ signed])
    qed (use run' False in \<open>auto simp: without_info_Inr intro: create_inv [OF inv env rt] delete_inv [OF inv rt]
        update_inv [OF inv rt] status_inv [OF inv] cancel_call_inv [OF inv env rt] cancel_batch_inv [OF inv env rt]\<close>)
    then show ?thesis by blast
  qed
qed

lemma dispatch_inv:
  assumes "pallet_inv env acct E p" and "env_ok env acct" and "chain_of rt = env"
    and "not_signed_by rt origin (range acct)" and "call_fits env (range acct) p c"
    and "dispatch rt origin c p = (r, p')"
  shows "\<exists>E'. pallet_inv env acct E' p'"
  using dispatch_moves [OF assms] unfolding moves_def by blast

end
