(* ===== verification/Scheduler.thy ===== *)
theory Scheduler
  imports Order_Book_Pallet
begin

text \<open>
  The work of the pallet at the start of a block (\<open>pallets/order-book/src/scheduler.rs\<close> and
  \<open>on_initialize\<close> of \<open>lib.rs\<close>): expiring orders and aligning the orders of updated books, both within
  a weight limit.

  The weight meter of \<open>frame_support\<close> is a parameter: the record \<open>meter\<close> has the operations the code
  calls, over an abstract type of meters. So are the benchmarked weights and \<open>trie_position\<close>, the
  position of an order's hashed key in the trie, which orders the iteration over \<open>LimitOrders\<close>.
\<close>

section \<open>Weights\<close>

record 'm meter =
  try_consume :: "weight \<Rightarrow> 'm \<Rightarrow> 'm option"
  can_consume :: "weight \<Rightarrow> 'm \<Rightarrow> bool"
  consume :: "weight \<Rightarrow> 'm \<Rightarrow> 'm"
  remaining :: "'m \<Rightarrow> weight"
  with_limit :: "weight \<Rightarrow> 'm"
  consumed :: "'m \<Rightarrow> weight"

record scheduling =
  service_expiration_base :: weight
  service_expiration_block_base :: weight
  service_single_expiration_weight :: weight
  align_single_order :: weight
  MaxExpirationWeightPerBlock :: weight
  MaxAlignmentWeightPerBlock :: weight
  trie_position :: "order_book_id \<Rightarrow> order_id \<Rightarrow> nat"

definition weight_mul :: "weight \<Rightarrow> nat \<Rightarrow> weight" where
  "weight_mul w n = \<lparr> ref_time = saturating_mul_u u64_max (ref_time w) n,
                      proof_size = saturating_mul_u u64_max (proof_size w) n \<rparr>"

definition weight_add :: "weight \<Rightarrow> weight \<Rightarrow> weight" where
  "weight_add v w = \<lparr> ref_time = saturating_add_u u64_max (ref_time v) (ref_time w),
                      proof_size = saturating_add_u u64_max (proof_size v) (proof_size w) \<rparr>"

text \<open>\<open>check_accrue_n\<close> of \<open>common/src/weights.rs\<close>.\<close>

definition check_accrue_n :: "'m meter \<Rightarrow> weight \<Rightarrow> nat \<Rightarrow> bool \<Rightarrow> 'm \<Rightarrow> nat \<times> 'm" where
  "check_accrue_n mt w max_n consume_weight m =
     (let weight_left = remaining mt m;
          n_ref_time = unwrap_or (checked_div_u (ref_time weight_left) (ref_time w)) u64_max;
          n_proof_size = unwrap_or (checked_div_u (proof_size weight_left) (proof_size w)) u64_max;
          n = min (min n_ref_time n_proof_size) max_n
      in (n, if consume_weight then consume mt (weight_mul w n) m else m))"

section \<open>Expiration\<close>

text \<open>
  One order of the agenda, on the pass's data layer. Failures are reported as events; what
  \<open>expire_limit_order\<close> did before it failed stays, since no storage transaction surrounds it.
\<close>

definition service_single_expiration ::
  "chain \<Rightarrow> 'd data_layer \<Rightarrow> (order_book_id, order_book) storage \<Rightarrow> order_book_id \<Rightarrow> order_id \<Rightarrow>
   'd \<times> world \<Rightarrow> 'd \<times> world" where
  "service_single_expiration env dl books obid i s =
     (case on_fst (dl_get_limit_order dl obid i) s of
        (Inl e, s1) \<Rightarrow> snd (on_snd (deposit_event (ExpirationFailure obid i e)) s1)
      | (Inr order, s1) \<Rightarrow>
          (case map_of books obid of
             None \<Rightarrow> snd (on_snd (deposit_event (ExpirationFailure obid i UnknownOrderBook)) s1)
           | Some book \<Rightarrow>
               (case expire_limit_order env dl book order s1 of
                  (Inr _, s2) \<Rightarrow> s2
                | (Inl e, s2) \<Rightarrow> snd (on_snd (deposit_event (ExpirationFailure obid i e)) s2))))"

text \<open>\<open>pop\<close> takes the entries from the end of the vector.\<close>

fun service_loop ::
  "chain \<Rightarrow> 'd data_layer \<Rightarrow> (order_book_id, order_book) storage \<Rightarrow> nat \<Rightarrow> nat \<Rightarrow>
   (order_book_id \<times> order_id) list \<Rightarrow> 'd \<times> world \<Rightarrow> (order_book_id \<times> order_id) list \<times> ('d \<times> world)" where
  "service_loop env dl books to_service serviced [] s = ([], s)"
| "service_loop env dl books to_service serviced ((obid, i) # rest) s =
     (let s' = service_single_expiration env dl books obid i s
      in if to_service \<le> Suc serviced then (rest, s')
         else service_loop env dl books to_service (Suc serviced) rest s')"

definition service_expiration_block ::
  "chain \<Rightarrow> 'd data_layer \<Rightarrow> 'm meter \<Rightarrow> scheduling \<Rightarrow> (order_book_id, order_book) storage \<Rightarrow> block \<Rightarrow>
   'm \<times> ('d \<times> world) \<Rightarrow> bool \<times> ('m \<times> ('d \<times> world))" where
  "service_expiration_block env dl mt sch books b = (\<lambda>(m, (d, w)).
     case try_consume mt (service_expiration_block_base sch) m of
       None \<Rightarrow> (False, (m, (d, w)))
     | Some m1 \<Rightarrow>
         let expirations = ExpirationsAgenda w b;
             w1 = w \<lparr> ExpirationsAgenda := (ExpirationsAgenda w)(b := []) \<rparr>
         in if expirations = [] then (True, (m1, (d, w1)))
            else
              case check_accrue_n mt (service_single_expiration_weight sch) (length expirations) True m1 of
                (to_service, m2) \<Rightarrow>
                  (case service_loop env dl books to_service 0 (rev expirations) (d, w1) of
                     (rest, (d2, w2)) \<Rightarrow>
                       if rest \<noteq> []
                       then (False, (m2, (d2, w2 \<lparr> ExpirationsAgenda := (ExpirationsAgenda w2)(b := rev rest) \<rparr>)))
                       else (True, (m2, (d2, w2)))))"

text \<open>
  The loop over the blocks from \<open>when\<close> to the current one; \<open>fuel\<close> is the number of blocks left,
  \<open>current_block + 1 - when\<close>, after which the loop condition fails. \<open>saturating_inc\<close> of the last
  block number would not advance; block numbers below \<open>u32_max\<close> are assumed, as on the chain.
\<close>

fun expiration_loop ::
  "chain \<Rightarrow> 'd data_layer \<Rightarrow> 'm meter \<Rightarrow> scheduling \<Rightarrow> (order_book_id, order_book) storage \<Rightarrow> block \<Rightarrow> nat \<Rightarrow>
   block \<Rightarrow> block \<Rightarrow> 'm \<times> ('d \<times> world) \<Rightarrow> block \<times> block \<times> ('m \<times> ('d \<times> world))" where
  "expiration_loop env dl mt sch books current 0 incomplete when s = (incomplete, when, s)"
| "expiration_loop env dl mt sch books current (Suc fuel) incomplete when s =
     (if when \<le> current \<and> can_consume mt (service_expiration_block_base sch) (fst s)
      then case service_expiration_block env dl mt sch books when s of
             (finished, s') \<Rightarrow>
               expiration_loop env dl mt sch books current fuel
                 (if finished then incomplete else min incomplete when) (saturating_add_u u32_max when 1) s'
      else (incomplete, when, s))"

definition service_expiration ::
  "chain \<Rightarrow> 'm meter \<Rightarrow> scheduling \<Rightarrow> block \<Rightarrow> 'm \<Rightarrow> pallet \<Rightarrow> 'm \<times> pallet" where
  "service_expiration env mt sch current m p =
     (case try_consume mt (service_expiration_base sch) m of
        None \<Rightarrow> (m, p)
      | Some m1 \<Rightarrow>
          let when = unwrap_or (IncompleteExpirationsSince p) current;
              p1 = p \<lparr> IncompleteExpirationsSince := None \<rparr>
          in case expiration_loop env (cache_data_layer (chain_config env)) mt sch (OrderBooks p) current
                    (Suc current - when) (current + 1) when (m1, ((cl_new, Books p), World p)) of
               (incomplete, when', (m2, (d, w))) \<Rightarrow>
                 let incomplete' = min incomplete when'
                 in (m2, p1 \<lparr> IncompleteExpirationsSince := (if incomplete' \<le> current then Some incomplete' else None),
                              Books := snd (cl_commit d), World := w \<rparr>))"

section \<open>Alignment\<close>

text \<open>
  \<open>iter_prefix_from\<close> continues after the hashed key of the cursor, whether or not that order is
  still there.
\<close>

definition get_limit_orders ::
  "scheduling \<Rightarrow> book_storage \<Rightarrow> order_book_id \<Rightarrow> order_id option \<Rightarrow> nat \<Rightarrow> limit_order list" where
  "get_limit_orders sch s obid maybe_cursor count =
     (let rows = sort_key (\<lambda>e. trie_position sch obid (fst e)) (iter_prefix (LimitOrders s) obid);
          from_cursor =
            (case maybe_cursor of
               Some cursor \<Rightarrow>
                 if cursor \<noteq> 0 then filter (\<lambda>e. trie_position sch obid cursor < trie_position sch obid (fst e)) rows
                 else rows
             | None \<Rightarrow> rows)
      in map snd (take count from_cursor))"

text \<open>
  The loop over the cursors. It ends early with \<open>Inl\<close> when it returns from the function: then nothing
  below the loop runs.
\<close>

record 'm alignment =
  al_meter :: 'm
  al_state :: "cached \<times> world"
  new_cursors :: "(order_book_id, order_id) btree"
  finished_books :: "order_book list"

fun alignment_loop ::
  "chain \<Rightarrow> 'm meter \<Rightarrow> scheduling \<Rightarrow> pallet \<Rightarrow> (order_book_id, order_id) storage \<Rightarrow> 'm alignment \<Rightarrow>
   'm alignment + 'm alignment" where
  "alignment_loop env mt sch p [] a = Inr a"
| "alignment_loop env mt sch p ((obid, cursor) # rest) a =
     (if \<not> can_consume mt (align_single_order sch) (al_meter a) then Inr a
      else
        case map_of (OrderBooks p) obid of
          None \<Rightarrow>
            Inl (a \<lparr> al_state := snd (on_snd (deposit_event (AlignmentFailure obid UnknownOrderBook)) (al_state a)) \<rparr>)
        | Some book \<Rightarrow>
            case check_accrue_n mt (align_single_order sch) (SOFT_MIN_MAX_RATIO (chain_config env)) False (al_meter a) of
              (count, m1) \<Rightarrow>
                let limit_orders = get_limit_orders sch (Books p) obid (Some cursor) count
                in if limit_orders = []
                   then alignment_loop env mt sch p rest
                          (a \<lparr> al_meter := m1, finished_books := finished_books a @ [book] \<rparr>)
                   else
                     let m2 = consume mt (weight_mul (align_single_order sch) (length limit_orders)) m1;
                         a1 = a \<lparr> al_meter := m2,
                                  new_cursors := bt_insert obid (lo_id (last limit_orders)) (new_cursors a) \<rparr>
                     in case align_limit_orders env (cache_data_layer (chain_config env)) book limit_orders (al_state a1) of
                          (Inr _, s') \<Rightarrow> alignment_loop env mt sch p rest (a1 \<lparr> al_state := s' \<rparr>)
                        | (Inl e, s') \<Rightarrow>
                            Inl (a1 \<lparr> al_state := snd (on_snd (deposit_event (AlignmentFailure obid e)) s') \<rparr>))"

definition finish_book :: "order_book \<Rightarrow> pallet \<Rightarrow> pallet" where
  "finish_book book p =
     p \<lparr> AlignmentCursor := AList.delete (book_id book) (AlignmentCursor p),
         OrderBooks := AList.update (book_id book) (book \<lparr> tech_status := Ready \<rparr>) (OrderBooks p) \<rparr>"

definition service_alignment :: "chain \<Rightarrow> 'm meter \<Rightarrow> scheduling \<Rightarrow> 'm \<Rightarrow> pallet \<Rightarrow> 'm \<times> pallet" where
  "service_alignment env mt sch m p =
     (if \<not> can_consume mt (align_single_order sch) m then (m, p)
      else
        case alignment_loop env mt sch p (AlignmentCursor p)
               \<lparr> al_meter = m, al_state = ((cl_new, Books p), World p), new_cursors = [], finished_books = [] \<rparr> of
          Inl a \<Rightarrow> (al_meter a, p \<lparr> World := snd (al_state a) \<rparr>)
        | Inr a \<Rightarrow>
            let p1 = p \<lparr> Books := snd (cl_commit (fst (al_state a))), World := snd (al_state a) \<rparr>;
                p2 = foldl (\<lambda>p (obid, c). p \<lparr> AlignmentCursor := AList.update obid c (AlignmentCursor p) \<rparr>) p1 (new_cursors a)
            in (al_meter a, foldl (\<lambda>p book. finish_book book p) p2 (finished_books a)))"

definition on_initialize :: "chain \<Rightarrow> 'm meter \<Rightarrow> scheduling \<Rightarrow> block \<Rightarrow> pallet \<Rightarrow> weight \<times> pallet" where
  "on_initialize env mt sch current p =
     (case service_expiration env mt sch current (with_limit mt (MaxExpirationWeightPerBlock sch)) p of
        (m1, p1) \<Rightarrow>
          (case service_alignment env mt sch (with_limit mt (MaxAlignmentWeightPerBlock sch)) p1 of
             (m2, p2) \<Rightarrow> (weight_add (consumed mt m1) (consumed mt m2), p2)))"

end
