(* ===== verification/Scheduler_Safety.thy ===== *)
theory Scheduler_Safety
  imports Pallet_Safety Scheduler
begin

text \<open>
  The passes at the start of a block keep the pallet's invariant: expirations whether or not they
  succeed, and an alignment that runs to its end. The agenda loses an entry whose expiration failed;
  such orders form the set \<open>E\<close> of the invariant.
\<close>

section \<open>Cancelling with and without an agenda entry\<close>

text \<open>A failed transfer of the native currency changes nothing, as the balances pallet promises.\<close>

definition native_atomic :: "chain \<Rightarrow> bool" where
  "native_atomic env \<longleftrightarrow>
     (\<forall>f t n b e b'. NativeCurrency_transfer env f t n b = (Inl e, b') \<longrightarrow> b' = b)"

lemma do_transfer_fails: "do_transfer env a f t n w = (Inl e, w') \<Longrightarrow> w' = w"
  by (auto simp: do_transfer_def Let_def split: if_splits sum.splits prod.splits)

lemma transfer_out_fails:
  assumes "transfer_out env a tech dest n w = (Inl e, w')" and "native_atomic env"
  shows "w' = w"
proof -
  have cur: "currencies_transfer env a f t n w = (Inl e, w') \<Longrightarrow> w' = w" for f t e w'
    using assms(2)
    by (auto simp: currencies_transfer_def native_atomic_def split: if_splits prod.splits intro: do_transfer_fails)
  have "transfer_from env a f t n w = (Inl e, w') \<Longrightarrow> w' = w" for f t
    by (cases "AssetRegulator_check_transfer env f t a"; cases "currencies_transfer env a f t n w";
        cases "fst (currencies_transfer env a f t n w)")
      (auto simp: transfer_from_def sbind_def slift_def dest: cur)
  then show ?thesis
    using assms(1)
    by (auto simp: transfer_out_def sbind_def slift_def ensure_account_registered_def split: prod.splits sum.splits)
qed

text \<open>What cancelling an order pays back, and to whom.\<close>

definition refund :: "chain \<Rightarrow> order_book_id \<Rightarrow> limit_order \<Rightarrow> order_amount \<Rightarrow> unit world_run" where
  "refund env obid x r =
     transfer_out env (associated_asset r obid) (tech_account_for_order_book obid) (lo_owner x) (inner (amount_value r))"

lemma sbind_sret: "sbind f sret = f"
  by (auto simp: sbind_def sret_def fun_eq_iff split: prod.splits sum.splits)

lemma sret_sbind: "sbind (sret a) g = g a"
  by (simp add: sbind_def sret_def fun_eq_iff)

lemma cancel_unfold:
  "cancel_limit_order_unchecked env dl book x reason ig (d, w) =
     (case deal_amount x Taker None of
        Inl e \<Rightarrow> (Inl e, (d, w))
      | Inr r \<Rightarrow>
          (case refund env (book_id book) x r w of
             (Inl e, w1) \<Rightarrow> (Inl e, (d, w1))
           | (Inr _, w1) \<Rightarrow> apply_cancel dl ig (book_id book) (x, reason) (d, w1)))"
proof (cases "deal_amount x Taker None")
  case (Inr r)
  let ?obid = "book_id book"
  have mc: "calculate_cancellation_limit_order_impact book x reason ig = Inr ((market_change_new ?obid)
      \<lparr> market_output := Some r, to_cancel := [(lo_id x, (x, reason))],
        mc_payment := \<lparr> pay_order_book_id = ?obid, to_lock = [],
          to_unlock = [(associated_asset r ?obid, [(lo_owner x, amount_value r)])] \<rparr>,
        ignore_unschedule_error := ig \<rparr>)"
    by (simp add: calculate_cancellation_limit_order_impact_def Inr Let_def payment_new_def pay_entry_fresh)
  have pay: "execute_all (lock_liquidity env) (unlock_liquidity_batch env) \<lparr> pay_order_book_id = ?obid, to_lock = [],
      to_unlock = [(associated_asset r ?obid, [(lo_owner x, amount_value r)])] \<rparr> = refund env ?obid x r"
    by (simp add: execute_all_def payment_lock_def payment_unlock_def unlock_liquidity_batch_def refund_def sbind_sret sret_sbind)
  have "cancel_limit_order_unchecked env dl book x reason ig (d, w) =
      sbind (on_snd (refund env ?obid x r)) (\<lambda>_. apply_cancel dl ig ?obid (x, reason)) (d, w)"
    unfolding cancel_limit_order_unchecked_def mc
    by (simp add: sbind_def [of "slift _"] slift_def)
      (simp add: apply_market_change_def pay market_change_new_def sbind_sret sret_sbind)
  then show ?thesis
    by (cases "refund env ?obid x r w") (auto simp: Inr sbind_def on_snd_def split: sum.splits)
qed (simp add: cancel_limit_order_unchecked_def calculate_cancellation_limit_order_impact_def sbind_def slift_def)

context DataLayer
begin

text \<open>Deleting an order that is there cannot fail; only its agenda entry may be missing.\<close>

lemma cancel_apply:
  assumes cons: "consistent cfg view coh dv E (d, w)" and x: "v_orders (view d) obid (lo_id x) = Some x"
  shows "fst (apply_cancel dl ig obid (x, reason) (d, w)) =
    (if ig \<or> (obid, lo_id x) \<notin> E then Inr () else Inl ExpirationNotFound)"
proof -
  have c: "coh d" "view_inv cfg dv (view d)" "agenda_inv E (v_orders (view d)) w"
    using cons by (auto simp: consistent_def)
  from spec_delete_known [OF c(2) x] obtain v' where "spec_delete cfg obid (lo_id x) (view d) = Inr v'" by blast
  from writes_Inr [OF delete_limit_order [OF c(1,2)] this] obtain d'
    where del: "dl_delete_limit_order dl obid (lo_id x) d = (Inr (), d')" by blast
  have "count_list (ExpirationsAgenda w (lo_expires_at x)) (obid, lo_id x) = (if (obid, lo_id x) \<notin> E then 1 else 0)"
    using c(3) x by (simp add: agenda_inv_def)
  then have "(obid, lo_id x) \<in> set (ExpirationsAgenda w (lo_expires_at x)) \<longleftrightarrow> (obid, lo_id x) \<notin> E"
    by (metis count_list_0_iff zero_neq_one)
  then show ?thesis
    by (auto simp: apply_cancel_def sbind_def on_fst_def on_snd_def del unschedule_order_def unschedule_expiration_def
        emit_event_def deposit_event_def smodify_def split: prod.splits)
qed

lemma cancel_result:
  assumes cons: "consistent cfg view coh dv E (d, w)" and x: "v_orders (view d) (book_id book) (lo_id x) = Some x"
  shows "fst (cancel_limit_order_unchecked env dl book x reason ig (d, w)) =
     and_then (deal_amount x Taker None) (\<lambda>r.
     and_then (fst (refund env (book_id book) x r w)) (\<lambda>_.
     if ig \<or> (book_id book, lo_id x) \<notin> E then Inr () else Inl ExpirationNotFound))"
proof (cases "deal_amount x Taker None")
  case (Inr r)
  obtain res w1 where ref: "refund env (book_id book) x r w = (res, w1)" by (cases "refund env (book_id book) x r w")
  then have "same_agenda w w1" unfolding refund_def by (rule transfer_out_agenda)
  from cancel_apply [OF consistent_payment [OF cons this] x] show ?thesis
    by (cases res) (simp_all add: cancel_unfold Inr ref)
qed (simp add: cancel_unfold)

text \<open>An expiration that fails leaves everything as it was.\<close>

lemma expire_fails:
  assumes cons: "consistent cfg view coh dv E (d, w)" and x: "v_orders (view d) (book_id book) (lo_id x) = Some x"
    and run: "expire_limit_order env dl book x (d, w) = (Inl e, s')" and atomic: "native_atomic env"
  shows "s' = (d, w)"
proof (cases "deal_amount x Taker None")
  case (Inr r)
  have "fst (refund env (book_id book) x r w) \<noteq> Inr u" for u
    using cancel_result [OF cons x, of env Expired True] run
    by (auto simp: expire_limit_order_def Inr)
  then obtain e' where ref: "refund env (book_id book) x r w = (Inl e', snd (refund env (book_id book) x r w))"
    by (metis prod.collapse sumE)
  from transfer_out_fails [OF this [unfolded refund_def] atomic] ref run show ?thesis
    by (auto simp: expire_limit_order_def cancel_unfold Inr refund_def split: prod.splits)
qed (use run in \<open>simp add: expire_limit_order_def cancel_unfold\<close>)

lemma service_single_safe:
  assumes safe: "safe env cfg view coh dv acct (dom (map_of books)) E (d, w)"
    and run: "service_single_expiration env dl books obid i (d, w) = (d', w')"
    and env: "books_ok env acct (dom (map_of books))" "native_atomic env"
    and ids: "\<forall>obid book. map_of books obid = Some book \<longrightarrow> book_id book = obid"
  shows "safe env cfg view coh dv acct (dom (map_of books)) E (d', w') \<and> extends_by (view d) (view d') {} {} \<and>
    (v_orders (view d') = v_orders (view d) \<or>
     v_orders (view d') = (v_orders (view d)) (obid := (v_orders (view d) obid)(i := None)))"
proof -
  have coh: "coh d" and inv: "book_inv cfg (dv obid) obid (view d)"
    using safe by (simp_all add: safe_def consistent_def view_inv_def)
  obtain g d1 where get: "dl_get_limit_order dl obid i d = (g, d1)" by (cases "dl_get_limit_order dl obid i d")
  note rd = reads_run [OF get_limit_order [OF coh] get]
  note safe1 = safe_view [OF safe rd(2,3)]
  have event: "safe env cfg view coh dv acct (dom (map_of books)) E (d1, w \<lparr> Events := es \<rparr>)" for es
    by (rule safe_events [OF safe1])
  show ?thesis
  proof (cases g)
    case (Inl e)
    then show ?thesis
      using run get event rd(3)
      by (auto simp: service_single_expiration_def on_fst_def on_snd_def deposit_event_def smodify_def)
  next
    case (Inr x)
    then have x: "v_orders (view d) obid i = Some x" using rd(1) by (auto simp: ok_or_def split: option.splits)
    then have id: "lo_id x = i" using inv by (simp add: book_inv_def)
    show ?thesis
    proof (cases "map_of books obid")
      case None
      then show ?thesis
        using run get Inr event rd(3)
        by (auto simp: service_single_expiration_def on_fst_def on_snd_def deposit_event_def smodify_def)
    next
      case (Some book)
      then have bid: "book_id book = obid" "book_id book \<in> dom (map_of books)" using ids by auto
      have x1: "v_orders (view d1) (book_id book) (lo_id x) = Some x" using x rd(3) id bid by simp
      obtain res s2 where ex: "expire_limit_order env dl book x (d1, w) = (res, s2)" by (cases "expire_limit_order env dl book x (d1, w)")
      show ?thesis
      proof (cases res)
        case e: (Inl e)
        have "consistent cfg view coh dv E (d1, w)" using safe1 by (simp add: safe_def)
        from expire_fails [OF this x1 ex [unfolded e] env(2)] have "s2 = (d1, w)" .
        then show ?thesis
          using run get Inr Some ex e event rd(3)
          by (auto simp: service_single_expiration_def on_fst_def on_snd_def deposit_event_def smodify_def)
      next
        case (Inr u)
        have s2: "s2 = (d', w')"
          using run get \<open>g = Inr x\<close> Some ex Inr by (simp add: service_single_expiration_def on_fst_def)
        note eff = cancel_safe [OF safe1 ex [unfolded expire_limit_order_def Inr s2] x1 env(1) bid(2), unfolded rd(3) bid(1) id]
        show ?thesis using eff(1,2,4) by simp
      qed
    qed
  qed
qed

lemma service_loop_safe:
  assumes safe: "safe env cfg view coh dv acct (dom (map_of books)) E (d, w)"
    and run: "service_loop env dl books to_service serviced es (d, w) = (rest, (d', w'))"
    and env: "books_ok env acct (dom (map_of books))" "native_atomic env"
    and ids: "\<forall>obid book. map_of books obid = Some book \<longrightarrow> book_id book = obid"
  shows "safe env cfg view coh dv acct (dom (map_of books)) E (d', w') \<and> extends_by (view d) (view d') {} {} \<and>
    (\<exists>done. es = done @ rest \<and>
      (\<forall>obid i. v_orders (view d') obid i = v_orders (view d) obid i \<or>
         v_orders (view d') obid i = None \<and> (obid, i) \<in> set done))"
  using safe run
proof (induction es arbitrary: serviced d w)
  case (Cons k es)
  obtain obid i where k: "k = (obid, i)" by (cases k)
  obtain d1 w1 where one: "service_single_expiration env dl books obid i (d, w) = (d1, w1)"
    by (cases "service_single_expiration env dl books obid i (d, w)")
  note st = service_single_safe [OF Cons.prems(1) one env ids]
  have step: "v_orders (view d1) o' j = v_orders (view d) o' j \<or> v_orders (view d1) o' j = None \<and> (o', j) = k" for o' j
    using st by (cases "o' = obid"; cases "j = i") (auto simp: k)
  show ?case
  proof (cases "to_service \<le> Suc serviced")
    case True
    then have eq: "rest = es" "d' = d1" "w' = w1" using Cons.prems(2) one by (auto simp: k Let_def)
    show ?thesis using st step unfolding eq by (auto intro: exI [of _ "[k]"])
  next
    case False
    then have rest: "service_loop env dl books to_service (Suc serviced) es (d1, w1) = (rest, (d', w'))"
      using Cons.prems(2) one by (simp add: k Let_def)
    from Cons.IH [OF _ rest] st obtain ks where
        IH: "safe env cfg view coh dv acct (dom (map_of books)) E (d', w')" "extends_by (view d1) (view d') {} {}"
      and ks: "es = ks @ rest" "\<And>o' j. v_orders (view d') o' j = v_orders (view d1) o' j \<or>
         v_orders (view d') o' j = None \<and> (o', j) \<in> set ks"
      by metis
    have "extends_by (view d) (view d') {} {}" using extends_by_trans [of "view d" "view d1" "{}" "{}"] st IH(2) by fastforce
    moreover have "v_orders (view d') o' j = v_orders (view d) o' j \<or> v_orders (view d') o' j = None \<and> (o', j) \<in> set (k # ks)" for o' j
      using ks(2) [of o' j] step [of o' j] by auto
    ultimately show ?thesis using IH(1) ks(1) by (intro conjI exI [of _ "k # ks"]) auto
  qed
qed auto

end

section \<open>The agenda of one block\<close>

lemma agenda_take:
  assumes "agenda_inv E orders w"
  shows "agenda_inv (E \<union> set (ExpirationsAgenda w b)) orders
    (w \<lparr> ExpirationsAgenda := (ExpirationsAgenda w)(b := []) \<rparr>)"
  unfolding agenda_inv_def
proof (intro allI)
  fix b' obid i
  have c: "count_list (ExpirationsAgenda w b) (obid, i) = (if (obid, i) \<notin> E \<and> (\<exists>x. orders obid i = Some x \<and> lo_expires_at x = b) then 1 else 0)"
    for b using assms unfolding agenda_inv_def by blast
  have mem: "(obid, i) \<in> set (ExpirationsAgenda w b) \<longleftrightarrow> (obid, i) \<notin> E \<and> (\<exists>x. orders obid i = Some x \<and> lo_expires_at x = b)"
    using c [of b] by (metis count_list_0_iff zero_neq_one)
  show "count_list (ExpirationsAgenda (w \<lparr> ExpirationsAgenda := (ExpirationsAgenda w)(b := []) \<rparr>) b') (obid, i) =
      (if (obid, i) \<notin> E \<union> set (ExpirationsAgenda w b) \<and> (\<exists>x. orders obid i = Some x \<and> lo_expires_at x = b') then 1 else 0)"
    using c [of b'] mem by auto
qed

lemma agenda_mem:
  assumes "agenda_inv E orders w"
  shows "(obid, i) \<in> set (ExpirationsAgenda w b) \<longleftrightarrow> (obid, i) \<notin> E \<and> (\<exists>x. orders obid i = Some x \<and> lo_expires_at x = b)"
  using assms unfolding agenda_inv_def by (metis count_list_0_iff zero_neq_one)

lemma agenda_distinct:
  assumes "agenda_inv E orders w"
  shows "distinct (ExpirationsAgenda w b)"
proof -
  have "count_list (ExpirationsAgenda w b) k \<le> 1" for k
    using assms by (cases k) (simp add: agenda_inv_def)
  moreover have "distinct xs" if "\<And>k. count_list xs k \<le> 1" for xs :: "'a list"
    using that
  proof (induction xs)
    case (Cons x xs)
    have "count_list xs x = 0" using Cons.prems [of x] by simp
    moreover have "count_list xs k \<le> 1" for k using Cons.prems [of k] by (simp split: if_splits)
    ultimately show ?case using Cons.IH by (simp add: count_list_0_iff)
  qed simp
  ultimately show ?thesis by blast
qed

lemma count_distinct: "distinct xs \<Longrightarrow> count_list xs k = (if k \<in> set xs then 1 else 0)"
  by (induction xs) auto

lemma agenda_put_back:
  assumes inv: "agenda_inv E orders w" and taken: "agenda_inv (E \<union> set (ExpirationsAgenda w b)) orders2 w2"
    and less: "\<And>obid i x. orders2 obid i = Some x \<Longrightarrow> orders obid i = Some x"
    and rest: "set rest \<subseteq> set (ExpirationsAgenda w b)" "distinct rest"
      "\<And>obid i. (obid, i) \<in> set rest \<Longrightarrow> orders2 obid i = orders obid i"
  shows "agenda_inv ((E \<union> set (ExpirationsAgenda w b)) - set rest) orders2
    (w2 \<lparr> ExpirationsAgenda := (ExpirationsAgenda w2)(b := rev rest) \<rparr>)"
  unfolding agenda_inv_def
proof (intro allI)
  fix b' obid i
  let ?E = "E \<union> set (ExpirationsAgenda w b)"
  have c2: "count_list (ExpirationsAgenda w2 b') (obid, i) =
      (if (obid, i) \<notin> ?E \<and> (\<exists>x. orders2 obid i = Some x \<and> lo_expires_at x = b') then 1 else 0)"
    using taken unfolding agenda_inv_def by blast
  note mem = agenda_mem [OF inv, of obid i]
  have cr: "count_list (rev rest) (obid, i) = (if (obid, i) \<in> set rest then 1 else 0)"
    using rest(2) by (simp add: count_distinct)
  show "count_list (ExpirationsAgenda (w2 \<lparr> ExpirationsAgenda := (ExpirationsAgenda w2)(b := rev rest) \<rparr>) b') (obid, i) =
      (if (obid, i) \<notin> ?E - set rest \<and> (\<exists>x. orders2 obid i = Some x \<and> lo_expires_at x = b') then 1 else 0)"
  proof (cases "(obid, i) \<in> set rest")
    case True
    then have "orders2 obid i = orders obid i" "(obid, i) \<in> set (ExpirationsAgenda w b)" using rest by auto
    then show ?thesis using True cr c2 mem [of b] by auto
  next
    case False
    then show ?thesis using cr c2 mem [of b] less by (auto split: if_splits)
  qed
qed

section \<open>The expiration pass\<close>

lemma safe_agenda:
  assumes "safe env cfg view coh dv acct B E (d, w)" and "agenda_inv E' (v_orders (view d)) w'" and "same_ledger w w'"
  shows "safe env cfg view coh dv acct B E' (d, w')"
  using assms by (simp add: safe_def consistent_def solvent_def same_ledger_balance)

text \<open>The orders whose expiration block has come.\<close>

definition due :: "orders_of \<Rightarrow> block \<Rightarrow> (order_book_id \<times> order_id) set" where
  "due orders n = {(obid, i). \<exists>x. orders obid i = Some x \<and> lo_expires_at x \<le> n}"

lemma due_shrinks:
  assumes "extends_by v v' {} A"
  shows "due (v_orders v') n \<subseteq> due (v_orders v) n"
proof
  fix k
  assume "k \<in> due (v_orders v') n"
  then obtain obid i y where k: "k = (obid, i)" and y: "v_orders v' obid i = Some y" "lo_expires_at y \<le> n"
    by (auto simp: due_def)
  from extends_by_cases [OF assms y(1)] obtain x where "v_orders v obid i = Some x" "part_of x y" by blast
  then show "k \<in> due (v_orders v) n" using y(2) part_ofD(5) by (auto simp: due_def k)
qed

context DataLayer
begin

lemma expiration_block_safe:
  assumes safe: "safe env cfg view coh dv acct (dom (map_of books)) E (d, w)"
    and run: "service_expiration_block env dl mt sch books b (m, (d, w)) = (fin, (m', (d', w')))"
    and env: "books_ok env acct (dom (map_of books))" "native_atomic env"
    and ids: "\<forall>obid book. map_of books obid = Some book \<longrightarrow> book_id book = obid"
  shows "\<exists>E'. safe env cfg view coh dv acct (dom (map_of books)) E' (d', w') \<and> extends_by (view d) (view d') {} {} \<and>
    E' \<subseteq> E \<union> set (ExpirationsAgenda w b) \<and> (\<forall>b'. set (ExpirationsAgenda w' b') \<subseteq> set (ExpirationsAgenda w b')) \<and> (fin \<longrightarrow> ExpirationsAgenda w' b = [])"
proof -
  let ?ks = "ExpirationsAgenda w b" and ?w1 = "w \<lparr> ExpirationsAgenda := (ExpirationsAgenda w)(b := []) \<rparr>"
  let ?orders = "v_orders (view d)"
  have inv: "agenda_inv E ?orders w" using safe by (simp add: safe_def consistent_def)
  have safe1: "safe env cfg view coh dv acct (dom (map_of books)) (E \<union> set ?ks) (d, ?w1)"
    by (rule safe_agenda [OF safe agenda_take [OF inv]]) simp
  show ?thesis
  proof (cases "try_consume mt (service_expiration_block_base sch) m")
    case None
    then show ?thesis using run safe by (auto simp: service_expiration_block_def)
  next
    case (Some m1)
    show ?thesis
    proof (cases "?ks = []")
      case True
      then have "d' = d" "w' = ?w1" using run Some by (auto simp: service_expiration_block_def)
      then show ?thesis using safe1 by (intro exI [of _ "E \<union> set ?ks"]) simp
    next
      case False
      obtain n m2 where n: "check_accrue_n mt (service_single_expiration_weight sch) (length ?ks) True m1 = (n, m2)"
        by (cases "check_accrue_n mt (service_single_expiration_weight sch) (length ?ks) True m1")
      obtain rest d2 w2 where loop: "service_loop env dl books n 0 (rev ?ks) (d, ?w1) = (rest, (d2, w2))"
        by (metis prod.collapse)
      from service_loop_safe [OF safe1 loop env ids] obtain ks where
          safe2: "safe env cfg view coh dv acct (dom (map_of books)) (E \<union> set ?ks) (d2, w2)"
        and ext: "extends_by (view d) (view d2) {} {}" and ks: "rev ?ks = ks @ rest"
        and orders: "\<And>obid i. v_orders (view d2) obid i = ?orders obid i \<or>
          v_orders (view d2) obid i = None \<and> (obid, i) \<in> set ks"
        by metis
      have dist: "distinct (ks @ rest)" using agenda_distinct [OF inv, of b] by (metis ks distinct_rev)
      have sub: "set rest \<subseteq> set ?ks" by (metis ks set_rev set_append Un_upper2)
      have inv2: "agenda_inv (E \<union> set ?ks) (v_orders (view d2)) w2" using safe2 by (simp add: safe_def consistent_def)
      have left: "set (ExpirationsAgenda w2 b') \<subseteq> set (ExpirationsAgenda w b') - set ?ks" for b'
      proof
        fix k assume k: "k \<in> set (ExpirationsAgenda w2 b')"
        obtain obid i where eq: "k = (obid, i)" by (cases k)
        from k agenda_mem [OF inv2] obtain x where x: "(obid, i) \<notin> E \<union> set ?ks" "v_orders (view d2) obid i = Some x" "lo_expires_at x = b'"
          unfolding eq by blast
        then have "?orders obid i = Some x" using orders [of obid i] by simp
        then show "k \<in> set (ExpirationsAgenda w b') - set ?ks" using x agenda_mem [OF inv] unfolding eq by blast
      qed
      then have none: "ExpirationsAgenda w2 b = []" by (metis Diff_cancel set_empty subset_empty)
      have "agenda_inv ((E \<union> set ?ks) - set rest) (v_orders (view d2))
          (w2 \<lparr> ExpirationsAgenda := (ExpirationsAgenda w2)(b := rev rest) \<rparr>)"
      proof (rule agenda_put_back [OF inv inv2 _ sub])
        show "?orders obid i = Some x" if "v_orders (view d2) obid i = Some x" for obid i x
          using orders [of obid i] that by auto
        show "distinct rest" using dist by simp
        show "v_orders (view d2) obid i = ?orders obid i" if "(obid, i) \<in> set rest" for obid i
          using orders [of obid i] that dist by auto
      qed
      then have "safe env cfg view coh dv acct (dom (map_of books)) ((E \<union> set ?ks) - set rest)
          (d2, w2 \<lparr> ExpirationsAgenda := (ExpirationsAgenda w2)(b := rev rest) \<rparr>)"
        by (rule safe_agenda [OF safe2]) simp
      moreover have "set (((ExpirationsAgenda w2)(b := rev rest)) b') \<subseteq> set (ExpirationsAgenda w b')"
        "set (ExpirationsAgenda w2 b') \<subseteq> set (ExpirationsAgenda w b')" for b'
        using left [of b'] sub by auto
      moreover have "(E \<union> set ?ks) - set rest \<subseteq> E \<union> set ?ks" "E \<union> set ?ks \<subseteq> E \<union> set ?ks" by auto
      ultimately show ?thesis
        using run Some False n loop safe2 ext none
        by (cases "rest = []") (fastforce simp: service_expiration_block_def Let_def)+
    qed
  qed
qed

lemma expiration_loop_safe:
  assumes safe: "safe env cfg view coh dv acct (dom (map_of books)) E (d, w)"
    and run: "expiration_loop env dl mt sch books current fuel incomplete bl (m, (d, w)) = (inc', bl', (m', (d', w')))"
    and env: "books_ok env acct (dom (map_of books))" "native_atomic env"
    and ids: "\<forall>obid book. map_of books obid = Some book \<longrightarrow> book_id book = obid"
  shows "\<exists>E'. safe env cfg view coh dv acct (dom (map_of books)) E' (d', w') \<and> extends_by (view d) (view d') {} {} \<and>
    E' \<subseteq> E \<union> due (v_orders (view d)) current"
  using safe run
proof (induction fuel arbitrary: incomplete bl m d w E)
  case (Suc fuel)
  show ?case
  proof (cases "bl \<le> current \<and> can_consume mt (service_expiration_block_base sch) m")
    case True
    obtain fin m1 d1 w1 where blk: "service_expiration_block env dl mt sch books bl (m, (d, w)) = (fin, (m1, (d1, w1)))"
      by (metis prod.collapse)
    from expiration_block_safe [OF Suc.prems(1) blk env ids] obtain E1
      where one: "safe env cfg view coh dv acct (dom (map_of books)) E1 (d1, w1)" "extends_by (view d) (view d1) {} {}"
      and E1: "E1 \<subseteq> E \<union> set (ExpirationsAgenda w bl)" by blast
    from Suc.prems(2) True blk have "expiration_loop env dl mt sch books current fuel
        (if fin then incomplete else min incomplete bl) (saturating_add_u u32_max bl 1) (m1, (d1, w1)) =
        (inc', bl', (m', (d', w')))" by simp
    from Suc.IH [OF one(1) this] obtain E' where two: "safe env cfg view coh dv acct (dom (map_of books)) E' (d', w')"
      "extends_by (view d1) (view d') {} {}" and E': "E' \<subseteq> E1 \<union> due (v_orders (view d1)) current" by blast
    have "agenda_inv E (v_orders (view d)) w" using Suc.prems(1) by (simp add: safe_def consistent_def)
    then have "set (ExpirationsAgenda w bl) \<subseteq> due (v_orders (view d)) current"
      using agenda_mem True by (fastforce simp: due_def)
    then have "E' \<subseteq> E \<union> due (v_orders (view d)) current" using E1 E' due_shrinks [OF one(2)] by blast
    with two(1) extends_by_trans [OF one(2) two(2)] show ?thesis by auto
  next
    case False
    then show ?thesis using Suc.prems by auto
  qed
qed auto

end

lemma expiration_inv:
  assumes inv: "pallet_inv env acct E p" and env: "env_ok env acct" "native_atomic env"
    and run: "service_expiration env mt sch current m p = (m', p')"
  shows "\<exists>E'. pallet_inv env acct E' p' \<and> extends_by (storage_view (Books p)) (storage_view (Books p')) {} {} \<and>
    E' \<subseteq> E \<union> due (v_orders (storage_view (Books p))) current"
proof (cases "try_consume mt (service_expiration_base sch) m")
  case None
  then show ?thesis using run inv by (auto simp: service_expiration_def)
next
  case (Some m1)
  let ?when = "unwrap_or (IncompleteExpirationsSince p) current"
  obtain inc when' m2 d w where loop: "expiration_loop env (cache_data_layer (chain_config env)) mt sch (OrderBooks p) current
      (Suc current - ?when) (current + 1) ?when (m1, ((cl_new, Books p), World p)) = (inc, when', (m2, (d, w)))"
    by (metis prod.collapse)
  have ids: "\<forall>obid book. map_of (OrderBooks p) obid = Some book \<longrightarrow> book_id book = obid"
    using pallet_inv_ids [OF inv] by blast
  from cache_impl.expiration_loop_safe [OF pallet_inv_enter(1) [OF inv] loop pallet_inv_books [OF inv env(1)] env(2) ids]
  obtain E' where safe: "safe env (chain_config env) cache_view cache_ok (divisible_base (Registry p)) acct
      (dom (map_of (OrderBooks p))) E' (d, w)" and ext: "extends_by (cache_view (cl_new, Books p)) (cache_view d) {} {}"
    and E': "E' \<subseteq> E \<union> due (v_orders (cache_view (cl_new, Books p))) current"
    by blast
  note en = pallet_inv_enter(2) [OF inv]
  have "pallet_inv env acct E' (p \<lparr> Books := snd (cl_commit d), World := w \<rparr>)" by (rule pallet_inv_removed [OF inv safe ext])
  moreover obtain i where p': "p' = p \<lparr> IncompleteExpirationsSince := i, Books := snd (cl_commit d), World := w \<rparr>"
    using run Some loop by (auto simp: service_expiration_def Let_def)
  ultimately have "pallet_inv env acct E' p'"
    by (simp add: pallet_inv_def orders_known_def cursors_ok_def)
  moreover have "storage_view (Books p') = cache_view d" using safe_leave(2) [OF safe] by (simp add: p')
  ultimately show ?thesis using ext E' en by auto
qed

section \<open>The alignment pass\<close>

lemma iter_prefix_mem: "distinct (map fst s) \<Longrightarrow> (i, x) \<in> set (iter_prefix s k) \<longleftrightarrow> map_of s (k, i) = Some x"
  by (force simp: iter_prefix_def)

lemma iter_prefix_distinct: "distinct (map fst s) \<Longrightarrow> distinct (map fst (iter_prefix s k))"
proof (induction s)
  case (Cons e s)
  obtain a b v where e: "e = ((a, b), v)" by (metis prod.collapse)
  have "b \<notin> fst ` set (iter_prefix s k)" if "a = k"
    using Cons.prems that by (force simp: e iter_prefix_def)
  moreover have "iter_prefix (e # s) k = (if a = k then (b, v) # iter_prefix s k else iter_prefix s k)"
    by (simp add: e iter_prefix_def)
  ultimately show ?case using Cons by simp
qed (simp add: iter_prefix_def)

text \<open>\<open>get_limit_orders\<close> returns orders of the book, each once.\<close>

lemma get_limit_orders_known:
  assumes ok: "storage_ok s" and inv: "book_inv cfg d obid (storage_view s)"
  shows "\<forall>x\<in>set (get_limit_orders sch s obid cursor n). v_orders (storage_view s) obid (lo_id x) = Some x"
    and "distinct (map lo_id (get_limit_orders sch s obid cursor n))"
proof -
  have dist: "distinct (map fst (LimitOrders s))" using ok by (simp add: storage_ok_def)
  define rows where "rows = sort_key (\<lambda>e. trie_position sch obid (fst e)) (iter_prefix (LimitOrders s) obid)"
  have mem: "v_orders (storage_view s) obid i = Some x" if "(i, x) \<in> set rows" for i x
    using that iter_prefix_mem [OF dist] by (simp add: rows_def storage_view_def)
  then have id: "lo_id x = i" if "(i, x) \<in> set rows" for i x
    using that inv by (simp add: book_inv_def)
  have "mset (map fst rows) = mset (map fst (iter_prefix (LimitOrders s) obid))" by (simp add: rows_def)
  then have drows: "distinct (map fst rows)"
    using iter_prefix_distinct [OF dist] mset_eq_imp_distinct_iff by blast
  obtain P where orders: "get_limit_orders sch s obid cursor n = map snd (take n (filter P rows))"
  proof (cases "cursor = None \<or> cursor = Some 0")
    case True
    then show ?thesis using that [of "\<lambda>_. True"] by (auto simp: get_limit_orders_def rows_def Let_def)
  next
    case False
    then obtain c where "cursor = Some c" "c \<noteq> 0" by auto
    then show ?thesis
      using that [of "\<lambda>e. trie_position sch obid c < trie_position sch obid (fst e)"]
      by (simp add: get_limit_orders_def rows_def Let_def)
  qed
  let ?rs = "take n (filter P rows)"
  have sub: "set ?rs \<subseteq> set rows" by (meson filter_is_subset set_take_subset subset_trans)
  then show "\<forall>x\<in>set (get_limit_orders sch s obid cursor n). v_orders (storage_view s) obid (lo_id x) = Some x"
    unfolding orders using mem id by fastforce
  have "map lo_id (map snd ?rs) = map fst ?rs"
    using sub id by (auto simp: subset_iff)
  moreover have "distinct (map fst ?rs)"
    using drows by (simp add: take_map [symmetric] distinct_map_filter)
  ultimately show "distinct (map lo_id (get_limit_orders sch s obid cursor n))" unfolding orders by metis
qed

text \<open>
  The loop reads the orders of a book from the storage while earlier books are changed in the cache;
  every book occurs once, so its orders are still those of the storage.
\<close>

lemma alignment_loop_safe:
  assumes inv: "pallet_inv env acct E p" and env: "env_ok env acct"
    and run: "alignment_loop env mt sch p cursors a = Inr a'"
    and safe: "safe env (chain_config env) cache_view cache_ok (divisible_base (Registry p)) acct
      (dom (map_of (OrderBooks p))) E (al_state a)"
    and ext: "extends_by (storage_view (Books p)) (cache_view (fst (al_state a))) {} {}"
    and same: "\<forall>obid\<in>fst ` set cursors. v_orders (cache_view (fst (al_state a))) obid = v_orders (storage_view (Books p)) obid"
    and dist: "distinct (map fst cursors)"
    and fin: "\<forall>b\<in>set (finished_books a). map_of (OrderBooks p) (book_id b) = Some b"
  shows "safe env (chain_config env) cache_view cache_ok (divisible_base (Registry p)) acct
      (dom (map_of (OrderBooks p))) E (al_state a') \<and>
    extends_by (storage_view (Books p)) (cache_view (fst (al_state a'))) {} {} \<and>
    (\<forall>b\<in>set (finished_books a'). map_of (OrderBooks p) (book_id b) = Some b)"
  using run safe ext same dist fin
proof (induction cursors arbitrary: a)
  case (Cons c cursors)
  obtain obid cursor where c: "c = (obid, cursor)" by (cases c)
  show ?case
  proof (cases "can_consume mt (align_single_order sch) (al_meter a)")
    case False
    then show ?thesis using Cons.prems by (simp add: c)
  next
    case can: True
    with Cons.prems(1) obtain book where book: "map_of (OrderBooks p) obid = Some book"
      by (cases "map_of (OrderBooks p) obid") (auto simp: c)
    obtain n m1 where n: "check_accrue_n mt (align_single_order sch) (SOFT_MIN_MAX_RATIO (chain_config env)) False (al_meter a) = (n, m1)"
      by (cases "check_accrue_n mt (align_single_order sch) (SOFT_MIN_MAX_RATIO (chain_config env)) False (al_meter a)")
    let ?xs = "get_limit_orders sch (Books p) obid (Some cursor) n"
    have wf: "book_wf (chain_config env) (Registry p) obid book" and bid: "book_id book = obid"
      using pallet_inv_ids [OF inv book] by auto
    have rest: "\<forall>o'\<in>fst ` set cursors. o' \<noteq> obid" "distinct (map fst cursors)" using Cons.prems(5) by (auto simp: c)
    show ?thesis
    proof (cases "?xs = []")
      case True
      let ?a = "a \<lparr> al_meter := m1, finished_books := finished_books a @ [book] \<rparr>"
      have "alignment_loop env mt sch p cursors ?a = Inr a'" using Cons.prems(1) can book n True by (simp add: c)
      from Cons.IH [OF this] Cons.prems(2-6) book bid rest show ?thesis by (simp add: c)
    next
      case False
      let ?a1 = "a \<lparr> al_meter := consume mt (weight_mul (align_single_order sch) (length ?xs)) m1,
        new_cursors := bt_insert obid (lo_id (last ?xs)) (new_cursors a) \<rparr>"
      obtain res s' where al: "align_limit_orders env (cache_data_layer (chain_config env)) book ?xs (al_state a) = (res, s')"
        by (cases "align_limit_orders env (cache_data_layer (chain_config env)) book ?xs (al_state a)")
      with Cons.prems(1) can book n False obtain u where res: "res = Inr u"
        and loop: "alignment_loop env mt sch p cursors (?a1 \<lparr> al_state := s' \<rparr>) = Inr a'"
        by (cases res) (auto simp: c Let_def)
      obtain d w d' w' where st: "al_state a = (d, w)" "s' = (d', w')" by (metis prod.collapse)
      have ok: "storage_ok (Books p)" and binv: "book_inv (chain_config env) (divisible_base (Registry p) obid) obid (storage_view (Books p))"
        using inv by (simp_all add: pallet_inv_def safe_def consistent_def view_inv_def)
      note known = get_limit_orders_known [OF ok binv, of sch "Some cursor" n]
      have xs: "\<forall>x\<in>set ?xs. v_orders (cache_view d) (book_id book) (lo_id x) = Some x"
        using known(1) Cons.prems(4) by (simp add: c st bid)
      have step: "is_divisible (step_lot_size book) = divisible_base (Registry p) (book_id book)" "0 < inner (step_lot_size book)"
        using wf bid by (auto simp: book_wf_def lots_ok_def)
      have B: "book_id book \<in> dom (map_of (OrderBooks p))" using book bid by auto
      note eff = cache_impl.align_safe [OF Cons.prems(2) [unfolded st] al [unfolded st res] xs known(2) step
          pallet_inv_books [OF inv env] B]
      have "extends_by (storage_view (Books p)) (cache_view d') {} {}"
        using extends_by_trans [OF Cons.prems(3) [unfolded st fst_conv] eff(2)] by simp
      then show ?thesis
        using Cons.IH [OF loop] eff(1,3) Cons.prems(4,6) rest by (simp add: c st bid)
    qed
  qed
qed auto

definition alignment_run :: "chain \<Rightarrow> 'm meter \<Rightarrow> scheduling \<Rightarrow> 'm \<Rightarrow> pallet \<Rightarrow> 'm alignment + 'm alignment" where
  "alignment_run env mt sch m p =
     alignment_loop env mt sch p (AlignmentCursor p)
       \<lparr> al_meter = m, al_state = ((cl_new, Books p), World p), new_cursors = [], finished_books = [] \<rparr>"

text \<open>The loop over the cursors ends without an error.\<close>

definition alignment_completes :: "chain \<Rightarrow> 'm meter \<Rightarrow> scheduling \<Rightarrow> 'm \<Rightarrow> pallet \<Rightarrow> bool" where
  "alignment_completes env mt sch m p \<longleftrightarrow> (case alignment_run env mt sch m p of Inl _ \<Rightarrow> False | Inr _ \<Rightarrow> True)"

lemma new_cursors_inv:
  assumes "pallet_inv env acct E p"
  shows "pallet_inv env acct E (foldl (\<lambda>p (obid, c). p \<lparr> AlignmentCursor := AList.update obid c (AlignmentCursor p) \<rparr>) p cs)"
    and "OrderBooks (foldl (\<lambda>p (obid, c). p \<lparr> AlignmentCursor := AList.update obid c (AlignmentCursor p) \<rparr>) p cs) = OrderBooks p"
    and "Registry (foldl (\<lambda>p (obid, c). p \<lparr> AlignmentCursor := AList.update obid c (AlignmentCursor p) \<rparr>) p cs) = Registry p"
proof -
  let ?f = "\<lambda>p (obid, c). p \<lparr> AlignmentCursor := AList.update obid c (AlignmentCursor p) \<rparr> :: pallet"
  have "pallet_inv env acct E (foldl ?f p cs) \<and> OrderBooks (foldl ?f p cs) = OrderBooks p \<and> Registry (foldl ?f p cs) = Registry p"
    using assms
  proof (induction cs arbitrary: p)
    case (Cons c cs)
    obtain obid i where c: "c = (obid, i)" by (cases c)
    have "cursors_ok (p \<lparr> AlignmentCursor := AList.update obid i (AlignmentCursor p) \<rparr>)"
      using Cons.prems by (auto simp: pallet_inv_def cursors_ok_def distinct_update dom_update)
    then have "pallet_inv env acct E (p \<lparr> AlignmentCursor := AList.update obid i (AlignmentCursor p) \<rparr>)"
      using Cons.prems by (simp add: pallet_inv_def orders_known_def)
    from Cons.IH [OF this] show ?case by (simp add: c)
  qed simp
  then show "pallet_inv env acct E (foldl ?f p cs)" "OrderBooks (foldl ?f p cs) = OrderBooks p" "Registry (foldl ?f p cs) = Registry p"
    by auto
qed

lemma finish_book_inv:
  assumes inv: "pallet_inv env acct E p" and old: "map_of (OrderBooks p) (book_id b) = Some b0"
    and ids: "last_order_id b0 = last_order_id b" and wf: "book_wf (chain_config env) (Registry p) (book_id b) b"
  shows "pallet_inv env acct E (finish_book b p)"
proof -
  let ?q = "p \<lparr> OrderBooks := AList.update (book_id b) (b \<lparr> tech_status := Ready \<rparr>) (OrderBooks p) \<rparr>"
  have q: "pallet_inv env acct E ?q"
    by (rule pallet_inv_set_book [OF inv old]) (use wf ids in \<open>auto simp: book_wf_def\<close>)
  let ?cs = "AList.delete (book_id b) (AlignmentCursor p)"
  have "obid \<in> fst ` set ?cs" if "map_of (OrderBooks ?q) obid = Some book" "tech_status book = Updating" for obid book
  proof -
    have "obid \<noteq> book_id b" using that by (auto simp: update_conv')
    moreover have "obid \<in> fst ` set (AlignmentCursor p)" using q that by (auto simp: pallet_inv_def cursors_ok_def)
    moreover have "fst ` set ?cs = fst ` set (AlignmentCursor p) - {book_id b}"
      using arg_cong [OF delete_keys [of "book_id b" "AlignmentCursor p"], of set] by simp
    ultimately show ?thesis by simp
  qed
  then have "cursors_ok (?q \<lparr> AlignmentCursor := ?cs \<rparr>)"
    using q by (simp add: pallet_inv_def cursors_ok_def distinct_delete)
  then have "pallet_inv env acct E (?q \<lparr> AlignmentCursor := ?cs \<rparr>)"
    using q by (simp add: pallet_inv_def orders_known_def)
  moreover have "finish_book b p = ?q \<lparr> AlignmentCursor := ?cs \<rparr>"
    by (rule pallet.equality) (simp_all add: finish_book_def)
  ultimately show ?thesis by simp
qed

lemma finish_books_inv:
  assumes "pallet_inv env acct E p"
    and "\<forall>b\<in>set bs. book_wf (chain_config env) (Registry p) (book_id b) b \<and>
      (\<exists>b0. map_of (OrderBooks p) (book_id b) = Some b0 \<and> last_order_id b0 = last_order_id b)"
  shows "pallet_inv env acct E (foldl (\<lambda>p book. finish_book book p) p bs)"
  using assms
proof (induction bs arbitrary: p)
  case (Cons b bs)
  from Cons.prems(2) obtain b0 where b0: "map_of (OrderBooks p) (book_id b) = Some b0" "last_order_id b0 = last_order_id b"
    and wf: "book_wf (chain_config env) (Registry p) (book_id b) b" by auto
  have one: "pallet_inv env acct E (finish_book b p)" by (rule finish_book_inv [OF Cons.prems(1) b0 wf])
  have "\<exists>b1. map_of (OrderBooks (finish_book b p)) (book_id c) = Some b1 \<and> last_order_id b1 = last_order_id c"
    if "c \<in> set bs" for c
  proof -
    from Cons.prems(2) that obtain c0 where c0: "map_of (OrderBooks p) (book_id c) = Some c0" "last_order_id c0 = last_order_id c"
      by auto
    then show ?thesis using b0 by (cases "book_id c = book_id b") (auto simp: finish_book_def update_conv')
  qed
  moreover have "Registry (finish_book b p) = Registry p" by (simp add: finish_book_def)
  ultimately show ?case using Cons.IH [OF one] Cons.prems(2) by simp
qed simp

lemma finish_books_frame:
  "Books (foldl (\<lambda>p book. finish_book book p) p bs) = Books p"
  "IncompleteExpirationsSince (foldl (\<lambda>p book. finish_book book p) p bs) = IncompleteExpirationsSince p"
  by (induction bs arbitrary: p) (simp_all add: finish_book_def)

lemma new_cursors_frame:
  "Books (foldl (\<lambda>p (obid, c). p \<lparr> AlignmentCursor := AList.update obid c (AlignmentCursor p) \<rparr>) p cs) = Books p"
  "IncompleteExpirationsSince (foldl (\<lambda>p (obid, c). p \<lparr> AlignmentCursor := AList.update obid c (AlignmentCursor p) \<rparr>) p cs) =
     IncompleteExpirationsSince p"
  by (induction cs arbitrary: p) (auto split: prod.splits)

lemma alignment_inv:
  assumes inv: "pallet_inv env acct E p" and env: "env_ok env acct"
    and run: "service_alignment env mt sch m p = (m', p')" and completes: "alignment_completes env mt sch m p"
  shows "moves env acct E p {} {} E p'"
proof (cases "can_consume mt (align_single_order sch) m")
  case False
  then show ?thesis using run inv by (simp add: service_alignment_def moves_books)
next
  case True
  from completes obtain a where a: "alignment_run env mt sch m p = Inr a"
    by (auto simp: alignment_completes_def split: sum.splits)
  let ?p1 = "p \<lparr> Books := snd (cl_commit (fst (al_state a))), World := snd (al_state a) \<rparr>"
  let ?p2 = "foldl (\<lambda>p (obid, c). p \<lparr> AlignmentCursor := AList.update obid c (AlignmentCursor p) \<rparr>) ?p1 (new_cursors a)"
  have p': "p' = foldl (\<lambda>p book. finish_book book p) ?p2 (finished_books a)"
    using run True a by (simp add: service_alignment_def alignment_run_def Let_def)
  note en = pallet_inv_enter [OF inv]
  have dist: "distinct (map fst (AlignmentCursor p))" using inv by (simp add: pallet_inv_def cursors_ok_def)
  have loop: "safe env (chain_config env) cache_view cache_ok (divisible_base (Registry p)) acct
      (dom (map_of (OrderBooks p))) E (al_state a) \<and>
    extends_by (storage_view (Books p)) (cache_view (fst (al_state a))) {} {} \<and>
    (\<forall>b\<in>set (finished_books a). map_of (OrderBooks p) (book_id b) = Some b)"
    by (rule alignment_loop_safe [OF inv env a [unfolded alignment_run_def]]) (use en dist in auto)
  have m1: "moves env acct E p {} {} E ?p1"
    by (rule moves_removed [OF inv]) (use loop en in auto)
  then have p1: "pallet_inv env acct E ?p1" by (simp add: moves_def)
  have "pallet_inv env acct E (foldl (\<lambda>p book. finish_book book p) ?p2 (finished_books a))"
    by (rule finish_books_inv [OF new_cursors_inv(1) [OF p1]])
      (use loop pallet_inv_ids [OF inv] in \<open>auto simp: new_cursors_inv [OF p1]\<close>)
  then show ?thesis using m1 by (simp add: moves_def p' finish_books_frame new_cursors_frame)
qed

end
