(* ===== verification/Reachability.thy ===== *)
theory Reachability
  imports Scheduler_Safety
begin

text \<open>
  The pallet as a transition system. A step inside a block is a dispatched call, a swap of the liquidity
  proxy, an alignment pass that ends without an error, or anything other pallets do that takes nothing
  from the technical accounts of the order books; beside these there is the expiration pass. Every state that such steps reach from
  a chain without order books satisfies the invariant.
\<close>

section \<open>Steps\<close>

definition genesis :: "pallet \<Rightarrow> bool" where
  "genesis p \<longleftrightarrow>
     LimitOrders (Books p) = [] \<and> Bids (Books p) = [] \<and> Asks (Books p) = [] \<and>
     AggregatedBids (Books p) = [] \<and> AggregatedAsks (Books p) = [] \<and> UserLimitOrders (Books p) = [] \<and>
     OrderBooks p = [] \<and> AlignmentCursor p = [] \<and> (\<forall>b. ExpirationsAgenda (World p) b = [])"

text \<open>
  \<open>rts\<close> are the runtimes that execute blocks: they differ in the clock, the block number and what
  their origins permit.
\<close>

inductive block_step ::
  "'o runtime set \<Rightarrow> 'm meter \<Rightarrow> scheduling \<Rightarrow> chain \<Rightarrow> (order_book_id \<Rightarrow> account_id) \<Rightarrow> pallet \<Rightarrow> pallet \<Rightarrow> bool"
  for rts :: "'o runtime set" and mt :: "'m meter" and sch env acct where
  call_step:
    "rt \<in> rts \<Longrightarrow> not_signed_by rt origin (range acct) \<Longrightarrow> call_fits env (range acct) p c \<Longrightarrow>
     dispatch rt origin c p = (r, p') \<Longrightarrow> block_step rts mt sch env acct p p'"
| swap_step:
    "rt \<in> rts \<Longrightarrow> sender \<notin> range acct \<Longrightarrow> receiver \<notin> range acct \<Longrightarrow>
     check_indivisible_assets (Registry p) inp outp = Inr () \<Longrightarrow>
     transactional (exchange rt sender receiver dex inp outp desired) p = (r, p') \<Longrightarrow>
     block_step rts mt sch env acct p p'"
| alignment_step:
    "alignment_completes env mt sch m p \<Longrightarrow> service_alignment env mt sch m p = (m', p') \<Longrightarrow>
     block_step rts mt sch env acct p p'"
| outside_step:
    "ExpirationsAgenda w = ExpirationsAgenda (World p) \<Longrightarrow>
     (\<forall>obid\<in>dom (map_of (OrderBooks p)). \<forall>a. balance_of env (World p) a (acct obid) \<le> balance_of env w a (acct obid)) \<Longrightarrow>
     AssetPrecision r = AssetPrecision (Registry p) \<Longrightarrow>
     block_step rts mt sch env acct p (p \<lparr> World := w, Registry := r \<rparr>)"

inductive pallet_step ::
  "'o runtime set \<Rightarrow> 'm meter \<Rightarrow> scheduling \<Rightarrow> chain \<Rightarrow> (order_book_id \<Rightarrow> account_id) \<Rightarrow> pallet \<Rightarrow> pallet \<Rightarrow> bool"
  for rts :: "'o runtime set" and mt :: "'m meter" and sch env acct where
  in_block_step: "block_step rts mt sch env acct p p' \<Longrightarrow> pallet_step rts mt sch env acct p p'"
| expiration_step:
    "service_expiration env mt sch current m p = (m', p') \<Longrightarrow> pallet_step rts mt sch env acct p p'"

inductive reachable ::
  "'o runtime set \<Rightarrow> 'm meter \<Rightarrow> scheduling \<Rightarrow> chain \<Rightarrow> (order_book_id \<Rightarrow> account_id) \<Rightarrow> pallet \<Rightarrow> bool"
  for rts :: "'o runtime set" and mt :: "'m meter" and sch env acct where
  start: "genesis p \<Longrightarrow> reachable rts mt sch env acct p"
| step: "reachable rts mt sch env acct p \<Longrightarrow> pallet_step rts mt sch env acct p p' \<Longrightarrow> reachable rts mt sch env acct p'"

text \<open>What the chain provides to the pallet.\<close>

definition chain_ok :: "'o runtime set \<Rightarrow> chain \<Rightarrow> (order_book_id \<Rightarrow> account_id) \<Rightarrow> bool" where
  "chain_ok rts env acct \<longleftrightarrow> env_ok env acct \<and> native_atomic env \<and> (\<forall>rt\<in>rts. chain_of rt = env)"

section \<open>The invariant holds in every reachable state\<close>

lemma genesis_inv:
  assumes "genesis p"
  shows "pallet_inv env acct {} p"
proof -
  have v: "storage_view (Books p) = \<lparr> v_orders = (\<lambda>_ _. None), v_level = (\<lambda>_ _ _. None), v_agg = (\<lambda>_ _. []), v_user = (\<lambda>_ _. None) \<rparr>"
    using assms by (auto simp: storage_view_def genesis_def fun_eq_iff split: price_variant.splits)
  have ok: "storage_ok (Books p)" using assms by (simp add: storage_ok_def genesis_def)
  have "view_inv cfg dv (storage_view (Books p))" for cfg dv
    unfolding v
    by (auto simp: view_inv_def book_inv_def side_inv_def level_inv_def agg_wf_def agg_of_def user_inv_def)
  then show ?thesis
    using assms ok
    by (simp add: pallet_inv_def safe_def consistent_def v agenda_inv_def genesis_def owners_def ran_def queues_ordered_def orders_known_def cursors_ok_def uncrossed_def)
qed

text \<open>
  A step inside a block extends the orders by at most one, an order that a call with this runtime has
  signed.
\<close>

lemma block_step_moves:
  assumes "block_step rts mt sch env acct p p'" and "pallet_inv env acct E p" and "chain_ok rts env acct"
  shows "moves env acct E p {} {} E p' \<or>
    (\<exists>rt\<in>rts. \<exists>origin obid price amount side lifespan who book x E'. dispatch rt origin (PlaceLimitOrder obid price amount side lifespan) p = (Inr (), p') \<and>
       ensure_signed rt origin = Inr who \<and> map_of (OrderBooks p) obid = Some book \<and>
       x = call_order rt (Registry p) book who price amount side lifespan \<and> moves env acct E p {(obid, lo_id x)} {x} E' p')"
  using assms(1)
proof cases
  case (call_step rt origin c r)
  have env: "env_ok env acct" "chain_of rt = env" using assms(3) call_step(1) by (auto simp: chain_ok_def)
  show ?thesis
  proof (cases r)
    case (Inl e)
    then have "p' = p" using call_step(4) by (auto simp: dispatch_def transactional_def split: prod.splits sum.splits)
    then show ?thesis using assms(2) by (simp add: moves_books)
  next
    case (Inr u)
    with dispatch_moves [OF assms(2) env call_step(2,3,4)] call_step(1,4) show ?thesis by auto
  qed
next
  case (swap_step rt sender receiver inp outp dex desired r)
  show ?thesis
  proof (cases "exchange rt sender receiver dex inp outp desired p")
    case (Pair res q)
    then show ?thesis
      using swap_step assms(2,3) exchange_inv [OF assms(2), of rt sender receiver dex inp outp desired]
      by (cases res) (auto simp: transactional_def chain_ok_def moves_books)
  qed
next
  case (alignment_step m m')
  then show ?thesis using alignment_inv [OF assms(2)] assms(3) by (auto simp: chain_ok_def)
next
  case (outside_step w r)
  then have "pallet_inv env acct E p'"
    using assms(2) by (auto intro!: pallet_inv_registry pallet_inv_world)
  then show ?thesis by (simp add: moves_books outside_step(1))
qed

lemma step_inv:
  assumes "pallet_step rts mt sch env acct p p'" and "pallet_inv env acct E p" and "chain_ok rts env acct"
  shows "\<exists>E'. pallet_inv env acct E' p'"
  using assms(1)
proof cases
  case in_block_step
  from block_step_moves [OF this assms(2,3)] show ?thesis unfolding moves_def by blast
next
  case (expiration_step current m m')
  from expiration_inv [OF assms(2) _ _ this] assms(3) show ?thesis by (auto simp: chain_ok_def)
qed

lemma reachable_inv:
  assumes "reachable rts mt sch env acct p" and "chain_ok rts env acct"
  shows "\<exists>E. pallet_inv env acct E p"
  using assms by induction (auto intro: genesis_inv dest: step_inv)

end
