(* ===== verification/Pallet_Effects.thy ===== *)
theory Pallet_Effects
  imports Reachability
begin

text \<open>
  What the calls that move funds do to the orders and to the balances of every account but the
  technical ones, in a state that satisfies the invariant.
\<close>

lemma dispatch_Inr: "dispatch rt origin c p = (Inr u, p') \<longleftrightarrow> call_body rt origin c p = (Inr u, p')"
  by (auto simp: dispatch_def transactional_def split: prod.splits sum.splits)

text \<open>The orders of the storage, and what an order of a book has locked.\<close>

abbreviation orders_in :: "pallet \<Rightarrow> orders_of" where
  "orders_in p \<equiv> v_orders (storage_view (Books p))"

abbreviation locked_units :: "pallet \<Rightarrow> order_book_id \<Rightarrow> asset_id \<Rightarrow> limit_order \<Rightarrow> nat" where
  "locked_units p obid \<equiv> lock_units obid (divisible_base (Registry p) obid)"

text \<open>An order crosses the spread if an order of the other side has a price it accepts.\<close>

lemma side_min_in: "side_min m = Some e \<Longrightarrow> e \<in> set m"
  by (induction m arbitrary: e) (auto split: option.splits if_splits)

lemma side_max_in: "side_max m = Some e \<Longrightarrow> e \<in> set m"
  by (induction m arbitrary: e) (auto split: option.splits if_splits)

lemma best_accepted: "spec_crosses v obid x \<Longrightarrow> \<exists>e\<in>set (v_agg v (switched (lo_side x)) obid). accepts_price x (fst e)"
  by (cases "lo_side x") (auto simp: spec_crosses_def accepts_price_def split: option.splits
      dest!: side_min_in side_max_in intro: bexI [rotated])

lemma crosses_iff:
  assumes inv: "book_inv cfg d obid v"
  shows "spec_crosses v obid x \<longleftrightarrow>
    (\<exists>i y. v_orders v obid i = Some y \<and> lo_side y = switched (lo_side x) \<and> accepts_price x (lo_price y))"
proof
  assume "spec_crosses v obid x"
  then obtain pr vol where e: "(pr, vol) \<in> set (v_agg v (switched (lo_side x)) obid)" "accepts_price x pr"
    using best_accepted by fastforce
  from agg_level_present(2) [OF inv e(1)] obtain q where q: "v_level v (switched (lo_side x)) obid pr = Some q" by blast
  then have "q \<noteq> []" using inv by (auto simp: book_inv_def side_inv_def level_inv_def)
  then obtain i where "i \<in> set q" by fastforce
  from level_ids_known [OF inv q this] e(2)
  show "\<exists>i y. v_orders v obid i = Some y \<and> lo_side y = switched (lo_side x) \<and> accepts_price x (lo_price y)" by blast
qed (use not_crossing [OF inv] in blast)

lemma pallet_not_crossing:
  assumes inv: "pallet_inv env acct E p"
    and plain: "\<And>i y. orders_in p obid i = Some y \<Longrightarrow> lo_side y = switched (lo_side x) \<Longrightarrow>
      (case lo_side x of Buy \<Rightarrow> lo_price x < lo_price y | Sell \<Rightarrow> lo_price y < lo_price x)"
  shows "\<not> spec_crosses (storage_view (Books p)) obid x"
proof -
  have binv: "book_inv (chain_config env) (divisible_base (Registry p) obid) obid (storage_view (Books p))"
    using inv by (simp add: pallet_inv_def safe_def consistent_def view_inv_def)
  have "\<not> accepts_price x (lo_price y)" if "orders_in p obid i = Some y" "lo_side y = switched (lo_side x)" for i y
    using plain [OF that] by (cases "lo_side x") (auto simp: accepts_price_def bu_less_eq_value bu_less_value)
  then show ?thesis unfolding crosses_iff [OF binv] by blast
qed

lemma cancel_effect:
  assumes inv: "pallet_inv env acct E p" and env: "env_ok env acct" and rt: "chain_of rt = env"
    and run: "dispatch rt origin (CancelLimitOrder obid i) p = (Inr u, p')"
  shows "\<exists>x. ensure_signed rt origin = Inr (lo_owner x) \<and> orders_in p obid i = Some x \<and>
    orders_in p' = (orders_in p) (obid := (orders_in p obid)(i := None)) \<and>
    (\<forall>a y. y \<notin> range acct \<longrightarrow> balance_of env (World p') a y =
      balance_of env (World p) a y + (if y = lo_owner x then locked_units p obid a x else 0))"
proof -
  from run rt obtain who d w where who: "ensure_signed rt origin = Inr who"
    and cancel: "cancel_owned env (cache_data_layer (chain_config env)) (OrderBooks p) who obid i
        ((cl_new, Books p), World p) = (Inr (), (d, w))"
    and p': "p' = p \<lparr> Books := snd (cl_commit d), World := w \<rparr>"
    by (auto simp: dispatch_Inr without_info_Inr cancel_limit_order_call_def run_simps run_cached_Inr)
  note en = pallet_inv_enter [OF inv]
  have ids: "\<forall>obid book. map_of (OrderBooks p) obid = Some book \<longrightarrow> book_id book = obid"
    using pallet_inv_ids [OF inv] by blast
  show ?thesis
  proof (rule cache_impl.cancel_owned_safe [OF en(1) cancel pallet_inv_books [OF inv env] ids])
    fix x
    assume x: "v_orders (cache_view (cl_new, Books p)) obid i = Some x" and own: "lo_owner x = who"
      and safe: "safe env (chain_config env) cache_view cache_ok (divisible_base (Registry p)) acct (dom (map_of (OrderBooks p))) E (d, w)"
      and orders: "v_orders (cache_view d) = (v_orders (cache_view (cl_new, Books p)))
          (obid := (v_orders (cache_view (cl_new, Books p)) obid)(i := None))"
      and bal: "\<And>y a. y \<notin> acct ` dom (map_of (OrderBooks p)) \<Longrightarrow> balance_of env w a y = balance_of env (World p) a y +
          (if y = who then lock_units obid (divisible_base (Registry p) obid) a x else 0)"
    have "y \<notin> acct ` dom (map_of (OrderBooks p))" if "y \<notin> range acct" for y using that by blast
    then show ?thesis
      using x own orders bal who safe_leave(2) [OF safe] en(2) by (intro exI [of _ x]) (simp add: p')
  qed
qed

lemma place_effect:
  assumes inv: "pallet_inv env acct E p" and env: "env_ok env acct" and rt: "chain_of rt = env"
    and run: "dispatch rt origin (PlaceLimitOrder obid price amount side lifespan) p = (Inr u, p')"
    and signer: "not_signed_by rt origin (range acct)"
    and args: "call_fits env (range acct) p (PlaceLimitOrder obid price amount side lifespan)"
  shows "\<exists>book who x. map_of (OrderBooks p) obid = Some book \<and> ensure_signed rt origin = Inr who \<and>
    x = call_order rt (Registry p) book who price amount side lifespan \<and> orders_in p obid (lo_id x) = None \<and>
    map_of (OrderBooks p') = (map_of (OrderBooks p))(obid \<mapsto> book \<lparr> last_order_id := Suc (last_order_id book) \<rparr>) \<and>
    Registry p' = Registry p \<and>
    (\<not> spec_crosses (storage_view (Books p)) obid x \<longrightarrow>
      orders_in p' = (orders_in p) (obid := (orders_in p obid)(lo_id x \<mapsto> x)) \<and>
      (\<forall>a y. y \<notin> range acct \<longrightarrow> balance_of env (World p') a y + (if y = who then locked_units p obid a x else 0) =
        balance_of env (World p) a y))"
proof -
  from run obtain who n where who: "ensure_signed rt origin = Inr who"
    and place: "inner_place_limit_order rt who obid price amount side lifespan p = (Inr n, p')"
    by (auto simp: dispatch_Inr without_info_Inr place_limit_order_call_def sbind_Inr slift_Inr sret_Inr)
  have side: "who \<notin> range acct" "price \<le> u128_max" "amount \<le> u128_max" "\<forall>a. balance_of env (World p) a who < u128_max"
    "\<forall>obid book. map_of (OrderBooks p) obid = Some book \<longrightarrow> last_order_id book < u128_max"
    using signer who args by (auto simp: not_signed_by_def below_limits_def)
  show ?thesis
  proof (rule place_call_safe [OF inv env rt place side])
    fix book x E' d w
    assume f: "map_of (OrderBooks p) obid = Some book" "x = call_order rt (Registry p) book who price amount side lifespan"
      "orders_in p obid (lo_id x) = None"
      "p' = p \<lparr> OrderBooks := AList.update obid (book \<lparr> last_order_id := Suc (last_order_id book) \<rparr>) (OrderBooks p),
        Books := snd (cl_commit d), World := w \<rparr>"
      "cache_view d = storage_view (Books p')"
      "\<not> spec_crosses (storage_view (Books p)) obid x \<Longrightarrow> v_orders (cache_view d) = (orders_in p) (obid := (orders_in p obid)(lo_id x \<mapsto> x))"
      "\<And>y a. \<not> spec_crosses (storage_view (Books p)) obid x \<Longrightarrow> y \<notin> range acct \<Longrightarrow>
        balance_of env w a y + (if y = who then locked_units p obid a x else 0) = balance_of env (World p) a y"
    have "World p' = w" "Registry p' = Registry p"
      "map_of (OrderBooks p') = (map_of (OrderBooks p))(obid \<mapsto> book \<lparr> last_order_id := Suc (last_order_id book) \<rparr>)"
      by (simp_all add: f(4) update_conv')
    then show ?thesis using f who by (intro exI [of _ book] exI [of _ who] exI [of _ x]) auto
  qed
qed

lemma place_limits:
  assumes inv: "pallet_inv env acct E p" and env: "env_ok env acct" and rt: "chain_of rt = env"
    and run: "dispatch rt origin (PlaceLimitOrder obid price amount side lifespan) p = (Inr u, p')"
    and signer: "not_signed_by rt origin (range acct)"
    and args: "call_fits env (range acct) p (PlaceLimitOrder obid price amount side lifespan)"
    and plain: "\<And>x. lo_side x = side \<Longrightarrow> lo_price x = divisible price \<Longrightarrow> \<not> spec_crosses (storage_view (Books p)) obid x"
    and ids: "\<And>book. map_of (OrderBooks p) obid = Some book \<Longrightarrow> Suc (last_order_id book) < u128_max"
  shows "below_limits env (range acct) p'"
proof -
  from place_effect [OF inv env rt run signer args] plain obtain book who x
    where book: "map_of (OrderBooks p) obid = Some book"
    and books: "map_of (OrderBooks p') = (map_of (OrderBooks p))(obid \<mapsto> book \<lparr> last_order_id := Suc (last_order_id book) \<rparr>)"
    and bal: "\<forall>a y. y \<notin> range acct \<longrightarrow> balance_of env (World p') a y + (if y = who then locked_units p obid a x else 0) =
        balance_of env (World p) a y"
    by fastforce
  have "balance_of env (World p') a y < u128_max" if "y \<notin> range acct" for a y
  proof -
    have "balance_of env (World p) a y < u128_max" using args that by (simp add: below_limits_def)
    then show ?thesis using bal [rule_format, OF that, of a] by linarith
  qed
  then show ?thesis using books ids [OF book] args by (auto simp: below_limits_def split: if_splits)
qed

text \<open>Placing an order that does not cross and cancelling it again.\<close>

lemma place_cancel:
  assumes inv: "pallet_inv env acct E p" and env: "env_ok env acct" and rt: "chain_of rt = env"
    and place: "dispatch rt origin (PlaceLimitOrder obid price amount side lifespan) p = (Inr u, p1)"
    and signer: "not_signed_by rt origin (range acct)"
    and args: "call_fits env (range acct) p (PlaceLimitOrder obid price amount side lifespan)"
    and book: "map_of (OrderBooks p) obid = Some book"
    and plain: "\<And>x. lo_side x = side \<Longrightarrow> lo_price x = divisible price \<Longrightarrow> \<not> spec_crosses (storage_view (Books p)) obid x"
    and cancel: "dispatch rt origin (CancelLimitOrder obid (Suc (last_order_id book))) p1 = (Inr u', p2)"
  shows "orders_in p2 = orders_in p" and "y \<notin> range acct \<Longrightarrow> balance_of env (World p2) a y = balance_of env (World p) a y"
proof -
  let ?i = "Suc (last_order_id book)"
  from place_effect [OF inv env rt place signer args] obtain book' who x
    where book': "map_of (OrderBooks p) obid = Some book'" and who: "ensure_signed rt origin = Inr who"
    and x: "x = call_order rt (Registry p) book' who price amount side lifespan" and free: "orders_in p obid (lo_id x) = None"
    and reg: "Registry p1 = Registry p"
    and eff: "\<not> spec_crosses (storage_view (Books p)) obid x \<longrightarrow>
      orders_in p1 = (orders_in p) (obid := (orders_in p obid)(lo_id x \<mapsto> x)) \<and>
      (\<forall>a y. y \<notin> range acct \<longrightarrow> balance_of env (World p1) a y + (if y = who then locked_units p obid a x else 0) =
        balance_of env (World p) a y)"
    by blast
  have lx: "lo_id x = ?i" "lo_owner x = who" "lo_side x = side" "lo_price x = divisible price" using book book' by (simp_all add: x)
  have new: "orders_in p1 = (orders_in p) (obid := (orders_in p obid)(?i \<mapsto> x))"
    and paid: "\<And>a y. y \<notin> range acct \<Longrightarrow> balance_of env (World p1) a y + (if y = who then locked_units p obid a x else 0) =
        balance_of env (World p) a y"
    using eff plain [OF lx(3,4)] lx(1) by auto
  obtain E1 where inv1: "pallet_inv env acct E1 p1" using dispatch_inv [OF inv env rt signer args place] ..
  from cancel_effect [OF inv1 env rt cancel] obtain z
    where z: "orders_in p1 obid ?i = Some z" "orders_in p2 = (orders_in p1) (obid := (orders_in p1 obid)(?i := None))"
    and ret: "\<forall>a y. y \<notin> range acct \<longrightarrow> balance_of env (World p2) a y =
      balance_of env (World p1) a y + (if y = lo_owner z then locked_units p1 obid a z else 0)"
    by blast
  have zx: "z = x" using z(1) by (simp add: new)
  show "orders_in p2 = orders_in p" unfolding z(2) new using free lx(1) by (auto simp: fun_eq_iff)
  assume y: "y \<notin> range acct"
  show "balance_of env (World p2) a y = balance_of env (World p) a y"
    using ret [rule_format, OF y, of a] paid [OF y, of a] lx(2) by (simp add: zx reg split: if_splits)
qed

section \<open>When a cancellation succeeds\<close>

lemma cancel_call_result:
  assumes inv: "pallet_inv env acct E p" and rt: "chain_of rt = env"
    and book: "map_of (OrderBooks p) obid = Some book" and x: "orders_in p obid i = Some x"
    and who: "ensure_signed rt origin = Inr (lo_owner x)"
  shows "fst (dispatch rt origin (CancelLimitOrder obid i) p) =
    (if book_status book = Stop then Inl CancellationOfLimitOrdersIsForbidden
     else and_then (deal_amount x Taker None) (\<lambda>r.
       and_then (fst (refund env obid x r (World p))) (\<lambda>_.
       if (obid, i) \<in> set (ExpirationsAgenda (World p) (lo_expires_at x)) then Inr () else Inl ExpirationNotFound)))"
proof -
  let ?d = "(cl_new, Books p)" and ?dl = "cache_data_layer (chain_config env)"
  note en = pallet_inv_enter [OF inv]
  have coh: "cache_ok ?d" using en(1) by (simp add: safe_def consistent_def)
  have id: "lo_id x = i" and bid: "book_id book = obid"
    using inv x pallet_inv_ids [OF inv book] by (auto simp: pallet_inv_def safe_def consistent_def view_inv_def book_inv_def)
  obtain g d1 where get: "dl_get_limit_order ?dl obid i ?d = (g, d1)" by (cases "dl_get_limit_order ?dl obid i ?d")
  note rd = reads_run [OF cache_impl.get_limit_order [OF coh] get]
  have g: "g = Inr x" using rd(1) x en(2) by simp
  have cons: "consistent (chain_config env) cache_view cache_ok (divisible_base (Registry p)) E (d1, World p)"
    using safe_view [OF en(1) rd(2,3)] by (simp add: safe_def)
  have x1: "v_orders (cache_view d1) (book_id book) (lo_id x) = Some x" using x rd(3) en(2) id bid by simp
  have agenda: "agenda_inv E (orders_in p) (World p)" using inv by (simp add: pallet_inv_def safe_def consistent_def)
  have mem: "(obid, i) \<in> set (ExpirationsAgenda (World p) (lo_expires_at x)) \<longleftrightarrow> (obid, i) \<notin> E"
    unfolding agenda_mem [OF agenda] using x by simp
  have "fst (dispatch rt origin (CancelLimitOrder obid i) p) =
      fst (cancel_limit_order env ?dl book x (d1, World p))"
    by (cases "cancel_limit_order env ?dl book x (d1, World p)"; cases "fst (cancel_limit_order env ?dl book x (d1, World p))")
      (auto simp: dispatch_def transactional_def without_info_def cancel_limit_order_call_def sbind_def slift_def who rt run_cached_def
        cancel_owned_def on_fst_def get g book ok_or_def ensure_def sret_def)
  also have "\<dots> = (if book_status book = Stop then Inl CancellationOfLimitOrdersIsForbidden
      else fst (cancel_limit_order_unchecked env ?dl book x Manual False (d1, World p)))"
    by (cases "book_status book") (simp_all add: cancel_limit_order_def sbind_def slift_def ensure_def)
  finally show ?thesis
    using cache_impl.cancel_result [OF cons x1, of env Manual False] mem id bid by simp
qed

section \<open>Trading\<close>

lemma execute_effect:
  assumes inv: "pallet_inv env acct E p" and env: "env_ok env acct" and rt: "chain_of rt = env"
    and run: "dispatch rt origin (ExecuteMarketOrder obid dir amount) p = (Inr u, p')"
    and who: "ensure_signed rt origin = Inr who" "who \<notin> range acct"
  defines "fs \<equiv> fills amount (best_queue (storage_view (Books p)) obid dir)"
  shows "taken fs = amount"
    and "orders_in p' = (orders_in p) (obid := after_fills False fs (orders_in p obid))"
    and "y \<notin> range acct \<Longrightarrow>
      balance_of env (World p') a y + (if a = maker_out_asset obid dir \<and> y = who then maker_sum dir False fs else 0) =
      balance_of env (World p) a y +
       (if a = maker_out_asset obid dir then maker_paid dir False fs y
        else if a = taker_out_asset obid dir \<and> y = who then taker_sum dir False fs else 0)"
proof -
  let ?mo = "\<lparr> mo_owner = who, mo_direction = dir, mo_order_book_id = obid, mo_amount = indivisible amount, mo_to = None \<rparr>"
  from run rt who obtain book r d w where nft: "is_non_divisible (Registry p) (ob_base obid)"
    and book: "map_of (OrderBooks p) obid = Some book"
    and exec: "execute_market_order env (cache_data_layer (chain_config env)) book ?mo ((cl_new, Books p), World p) = (Inr r, (d, w))"
    and p': "p' = p \<lparr> Books := snd (cl_commit d), World := w \<rparr>"
    by (auto simp: dispatch_Inr execute_market_order_call_def sbind_Inr slift_Inr with_state_Inr get_order_book_Inr sret_Inr
        ensure_Inr run_cached_Inr)
  obtain inp outp n where r: "r = (inp, outp, n)" by (cases r)
  have bid: "book_id book = obid" "book_id book \<in> dom (map_of (OrderBooks p))" using pallet_inv_ids [OF inv book] book by auto
  have dv: "divisible_base (Registry p) obid = False" using nft by (simp add: divisible_base_def)
  have amt: "is_divisible (mo_amount ?mo) = divisible_base (Registry p) (book_id book)" by (simp add: dv bid)
  have out: "{mo_owner ?mo, unwrap_or (mo_to ?mo) (mo_owner ?mo)} \<inter> acct ` dom (map_of (OrderBooks p)) = {}"
    using who(2) by auto
  note en = pallet_inv_enter [OF inv]
  have vals: "inner (indivisible amount) = amount" "unwrap_or None who = who" by simp_all
  note eff = cache_impl.execute_safe [OF en(1) exec [unfolded r] amt pallet_inv_books [OF inv env] bid(2) out,
      unfolded market_fills_def market_order.simps en(2) bid(1) dv vals, folded fs_def]
  show "taken fs = amount" by (rule eff(3))
  have view: "storage_view (Books p') = cache_view d" using safe_leave(2) [OF eff(1)] by (simp add: p')
  show "orders_in p' = (orders_in p) (obid := after_fills False fs (orders_in p obid))" using eff(2) by (simp add: view)
  assume y: "y \<notin> range acct"
  then have y': "y \<notin> acct ` dom (map_of (OrderBooks p))" by blast
  have w: "World p' = w" by (simp add: p')
  show "balance_of env (World p') a y + (if a = maker_out_asset obid dir \<and> y = who then maker_sum dir False fs else 0) =
      balance_of env (World p) a y +
       (if a = maker_out_asset obid dir then maker_paid dir False fs y
        else if a = taker_out_asset obid dir \<and> y = who then taker_sum dir False fs else 0)"
    unfolding w by (rule eff(9) [OF y'])
qed

text \<open>What the makers are paid adds up to what the taker pays.\<close>

lemma maker_paid_total: "(\<Sum>y | maker_paid direction d fs y \<noteq> 0. maker_paid direction d fs y) = maker_sum direction d fs"
proof -
  let ?S = "(\<lambda>f. lo_owner (fst f)) ` set fs"
  have "(\<Sum>y\<in>S. maker_paid direction d gs y) = maker_sum direction d gs"
    if "finite S" and "(\<lambda>f. lo_owner (fst f)) ` set gs \<subseteq> S" for S gs
    using that by (induction gs) (auto simp: maker_paid_def maker_sum_def sum.distrib)
  then have "(\<Sum>y\<in>?S. maker_paid direction d fs y) = maker_sum direction d fs" by simp
  moreover have "maker_paid direction d fs y = 0" if "y \<notin> ?S" for y
    using that by (force simp: maker_paid_def sum_list_eq_0_iff)
  then have "{y. maker_paid direction d fs y \<noteq> 0} \<subseteq> ?S" by (metis (mono_tags, lifting) mem_Collect_eq subsetI)
  then have "(\<Sum>y | maker_paid direction d fs y \<noteq> 0. maker_paid direction d fs y) = (\<Sum>y\<in>?S. maker_paid direction d fs y)"
    by (intro sum.mono_neutral_left) simp_all
  ultimately show ?thesis by simp
qed

text \<open>A swap: \<open>paid\<close> is what the sender gives, \<open>got\<close> what the receiver gets.\<close>

lemma exchange_effect:
  assumes inv: "pallet_inv env acct E p" and env: "env_ok env acct" and rt: "chain_of rt = env"
    and run: "exchange rt sender receiver dex inp outp desired p = (Inr out, p')"
    and check: "check_indivisible_assets (Registry p) inp outp = Inr ()"
    and parties: "sender \<notin> range acct" "receiver \<notin> range acct"
  shows "\<exists>paid got share. outcome_amount out = (case desired of SwapWithDesiredInput _ _ \<Rightarrow> got | SwapWithDesiredOutput _ _ \<Rightarrow> paid) \<and>
    (case desired of SwapWithDesiredInput amount_in min_out \<Rightarrow> paid \<le> amount_in \<and> min_out \<le> got
      | SwapWithDesiredOutput amount_out max_in \<Rightarrow> got \<le> amount_out \<and> paid \<le> max_in) \<and>
    (\<forall>a y. y \<notin> range acct \<longrightarrow>
      balance_of env (World p') a y + (if a = inp \<and> y = sender then paid else 0) =
      balance_of env (World p) a y + (if a = inp then share y else if a = outp \<and> y = receiver then got else 0)) \<and>
    (\<Sum>y | share y \<noteq> 0. share y) = paid \<and>
    (\<forall>y. share y \<noteq> 0 \<longrightarrow> (\<exists>obid i x. orders_in p obid i = Some x \<and> lo_owner x = y))"
proof -
  from run rt obtain obid book d w where asm: "assemble_order_book_id (Registry p) dex inp outp = Some obid"
    and book: "map_of (OrderBooks p) obid = Some book"
    and exec: "exchange_cached env (cache_data_layer (chain_config env)) obid book sender receiver inp outp desired
      ((cl_new, Books p), World p) = (Inr out, (d, w))"
    and p': "p' = p \<lparr> Books := snd (cl_commit d), World := w \<rparr>"
    by (auto simp: exchange_def find_order_book_def sbind_Inr with_state_Inr and_then_Inr ok_or_Inr run_cached_Inr)
  note side = exchange_book [OF inv asm book check]
  have out: "obid \<in> dom (map_of (OrderBooks p))" "sender \<notin> acct ` dom (map_of (OrderBooks p))"
    "receiver \<notin> acct ` dom (map_of (OrderBooks p))"
    using book parties by auto
  note en = pallet_inv_enter [OF inv]
  have binv: "book_inv (chain_config env) (divisible_base (Registry p) obid) obid (storage_view (Books p))"
    using inv by (simp add: pallet_inv_def safe_def consistent_def view_inv_def)
  have w: "World p' = w" by (simp add: p')
  show ?thesis
  proof (rule cache_impl.exchange_safe [OF en(1) exec side pallet_inv_books [OF inv env] out, unfolded en(2)])
    fix fs dir
    assume f: "outcome_amount out = (case desired of
          SwapWithDesiredInput _ _ \<Rightarrow> taker_sum dir True fs | SwapWithDesiredOutput _ _ \<Rightarrow> maker_sum dir True fs)"
      "case desired of SwapWithDesiredInput amount_in min_out \<Rightarrow> maker_sum dir True fs \<le> amount_in \<and> min_out \<le> taker_sum dir True fs
        | SwapWithDesiredOutput amount_out max_in \<Rightarrow> taker_sum dir True fs \<le> amount_out \<and> maker_sum dir True fs \<le> max_in"
      and fs: "\<exists>n. fs = fills n (best_queue (storage_view (Books p)) obid dir)"
      and bal: "\<And>y a. y \<notin> acct ` dom (map_of (OrderBooks p)) \<Longrightarrow>
        balance_of env w a y + (if a = inp \<and> y = sender then maker_sum dir True fs else 0) =
        balance_of env (World p) a y + (if a = inp then maker_paid dir True fs y
          else if a = outp \<and> y = receiver then taker_sum dir True fs else 0)"
    have own: "\<exists>obid i x. orders_in p obid i = Some x \<and> lo_owner x = y" if "maker_paid dir True fs y \<noteq> 0" for y
    proof -
      from that obtain g where g: "g \<in> set fs" "lo_owner (fst g) = y"
        by (auto simp: maker_paid_def sum_list_eq_0_iff split: if_splits)
      from fs obtain n where "map fst fs = take (length fs) (best_queue (storage_view (Books p)) obid dir)"
        using fills_prefix by metis
      then have "fst g \<in> set (best_queue (storage_view (Books p)) obid dir)"
        using g(1) by (metis in_set_takeD list.set_map imageI)
      from best_queue_member(2) [OF binv this] g(2) show ?thesis by blast
    qed
    have outside: "y \<notin> acct ` dom (map_of (OrderBooks p))" if "y \<notin> range acct" for y using that by blast
    show ?thesis
      unfolding w
      by (rule exI [of _ "maker_sum dir True fs"], rule exI [of _ "taker_sum dir True fs"], rule exI [of _ "maker_paid dir True fs"])
        (intro conjI f allI impI maker_paid_total bal outside own; assumption)
  qed
qed

section \<open>Creating and deleting books\<close>

lemma create_effect:
  assumes run: "dispatch rt origin (CreateOrderbook obid tick step lot_min lot_max) p = (Inr u, p')"
  shows "map_of (OrderBooks p) obid = None"
    and "map_of (OrderBooks p') = (map_of (OrderBooks p))(obid \<mapsto> new_book (Registry p) obid tick step lot_min lot_max)"
    and "Books p' = Books p" and "balance_of (chain_of rt) (World p') = balance_of (chain_of rt) (World p)"
    and "is_source_enabled_for_trading_pair (Registry p') (ob_dex obid) (ob_quote obid) (ob_base obid) OrderBookSource =
      Inr (OrderBookSource \<notin> set (LockedLiquiditySources (Registry p)))"
    and "AlignmentCursor p' = AlignmentCursor p"
proof -
  from run have "create_orderbook rt origin obid tick step lot_min lot_max p = (Inr u, p')" by (simp add: dispatch_Inr)
  from create_run [OF this] obtain r w es where
      params: "verify_create_orderbook_params (chain_of rt) obid p = Inr ()"
    and src: "enable_source_for_trading_pair (ob_dex obid) (ob_quote obid) (ob_base obid) OrderBookSource (Registry p) = (Inr (), r)"
    and tech: "register_tech_account (chain_of rt) obid (World p) = (Inr (), w)"
    and p': "p' = p \<lparr> Registry := r, OrderBooks := AList.update obid (new_book r obid tick step lot_min lot_max) (OrderBooks p),
           World := w \<lparr> Events := es \<rparr> \<rparr>"
    by metis
  have prec: "AssetPrecision r = AssetPrecision (Registry p)" using src by (auto simp: enable_source_Inr)
  obtain t where w: "w = World p \<lparr> TechAccounts := t \<rparr>" using tech_account_frame(1) [OF tech] by blast
  show "map_of (OrderBooks p) obid = None" using params by (auto simp: verify_create_orderbook_params_def run_simps)
  show "map_of (OrderBooks p') = (map_of (OrderBooks p))(obid \<mapsto> new_book (Registry p) obid tick step lot_min lot_max)"
    using prec by (simp add: p' update_conv' new_book_def is_non_divisible_def)
  show "Books p' = Books p" "AlignmentCursor p' = AlignmentCursor p"
    "balance_of (chain_of rt) (World p') = balance_of (chain_of rt) (World p)" by (simp_all add: p' w)
  show "is_source_enabled_for_trading_pair (Registry p') (ob_dex obid) (ob_quote obid) (ob_base obid) OrderBookSource =
      Inr (OrderBookSource \<notin> set (LockedLiquiditySources (Registry p)))"
    using source_enabled [OF src] by (simp add: p')
qed

lemma delete_effect:
  assumes run: "dispatch rt origin (DeleteOrderbook obid) p = (Inr u, p')"
  shows "map_of (OrderBooks p') = (map_of (OrderBooks p))(obid := None)" and "orders_in p obid = Map.empty"
    and "Books p' = Books p" and "balance_of (chain_of rt) (World p') = balance_of (chain_of rt) (World p)"
    and "is_source_enabled_for_trading_pair (Registry p') (ob_dex obid) (ob_quote obid) (ob_base obid) OrderBookSource = Inr False"
    and "AlignmentCursor p' = AlignmentCursor p"
proof -
  from run obtain r w es where empty: "iter_prefix (LimitOrders (Books p)) obid = []"
    and src: "disable_source_for_trading_pair (ob_dex obid) (ob_quote obid) (ob_base obid) OrderBookSource (Registry p) = (Inr (), r)"
    and tech: "deregister_tech_account (chain_of rt) obid (World p) = (Inr (), w)"
    and p': "p' = p \<lparr> Registry := r, OrderBooks := AList.delete obid (OrderBooks p), World := w \<lparr> Events := es \<rparr> \<rparr>"
    by (auto simp: dispatch_Inr delete_orderbook_def sbind_Inr slift_Inr on_world_Inr on_registry_Inr with_state_Inr
        get_order_book_Inr ensure_Inr deposit_event_Inr smodify_Inr)
  obtain t where w: "w = World p \<lparr> TechAccounts := t \<rparr>" using tech_account_frame(2) [OF tech] by blast
  show "orders_in p obid = Map.empty" using iter_prefix_empty [OF empty] by (simp add: storage_view_def fun_eq_iff)
  show "map_of (OrderBooks p') = (map_of (OrderBooks p))(obid := None)" "Books p' = Books p" "AlignmentCursor p' = AlignmentCursor p"
    "balance_of (chain_of rt) (World p') = balance_of (chain_of rt) (World p)" by (simp_all add: p' w delete_conv')
  show "is_source_enabled_for_trading_pair (Registry p') (ob_dex obid) (ob_quote obid) (ob_base obid) OrderBookSource = Inr False"
    using source_disabled [OF src] by (simp add: p')
qed

lemma create_limits:
  assumes "below_limits (chain_of rt) A p"
    and "dispatch rt origin (CreateOrderbook obid tick step lot_min lot_max) p = (Inr u, p')"
  shows "below_limits (chain_of rt) A p'"
  using assms(1) create_effect(2,4) [OF assms(2)]
  by (auto simp: below_limits_def new_book_def order_book_new_def u128_max_def split: if_splits)

end
