(* ===== verification/Limit_Price.thy ===== *)
theory Limit_Price
  imports Pallet_Effects
begin

text \<open>
  The price at which an order that crosses the spread trades. The part that the other side cannot take at the
  limit price stays in the book as a limit order. A part below the minimal lot cannot stay: \<open>cross_spread\<close>
  trades it at whatever price there is, or drops it.
\<close>

lemma cross_spread_prices:
  assumes run: "spec_cross_spread book v x = Inr mc" and inv: "book_inv cfg d (book_id book) v"
    and wf: "order_wf d x" and assets: "ob_base (book_id book) \<noteq> ob_quote (book_id book)"
    and depth: "calculate_market_depth_volume_to_price (switched (lo_side x)) (lo_price x) (lo_amount x)
      (market_view v (book_id book) (lo_side x)) = (m0, l0)"
    and l0: "bu_is_zero l0 \<or> min_lot_size book \<le> l0"
    and y: "y \<in> set (filled_full mc @ filled_part mc)"
  shows "accepts_price x (lo_price y)"
proof -
  from cross_spread_run [OF run inv wf assets] obtain ma la mc1 where split: "spread_split book v x = Inr (ma, la)"
    and mc1: "if bu_is_zero ma then mc1 = market_change_new (book_id book)
      else is_divisible ma = d \<and> 0 < inner ma \<and> spec_market_impact (book_id book) v (spread_market_order book x ma) = Inr mc1"
    and mc: "if bu_is_zero la then mc = mc1
      else order_wf d (x \<lparr> lo_amount := la \<rparr>) \<and> (\<exists>pl. calculate_limit_order_impact book (x \<lparr> lo_amount := la \<rparr>) = Inr pl \<and>
        market_change_merge mc1 pl = Some mc)"
    and none: "to_place mc1 = []"
    by metis
  let ?mo = "spread_market_order book x ma"
  have "filled_full mc = filled_full mc1" "filled_part mc = filled_part mc1"
    using mc merge_fields [OF _ _ _ assets none] by (cases "bu_is_zero la"; fastforce)+
  then have y1: "y \<in> set (filled_full mc1 @ filled_part mc1)" using y by simp
  then have ma: "\<not> bu_is_zero ma" "is_divisible (mo_amount ?mo) = d" "0 < inner (mo_amount ?mo)" "0 < inner ma"
    "spec_market_impact (book_id book) v ?mo = Inr mc1"
    using mc1 by (auto simp: spread_market_order_def market_change_new_def change_lists split: if_splits)
  note lists = market_lists(1,2) [OF inv market_impact_end(1) [OF ma(5) inv ma(2,3)], THEN mset_eq_setD]
  from y1 obtain f where f: "f \<in> set (market_fills (book_id book) v ?mo)" and price: "lo_price y = lo_price (fst f)"
    unfolding set_append lists by (auto simp: reduced_def)
  show ?thesis unfolding price by (rule spread_split_price [OF split inv wf depth l0 ma(4) f])
qed

end
