(* ===== verification/Scenario.thy ===== *)
theory Scenario
  imports Pallet_Effects "HOL-Library.Countable" "HOL-Library.Code_Target_Numeral"
begin

text \<open>
  A small chain on which the theorems are applied: one exchange whose base asset is 0 (XOR), the token
  1, the collectible 2 that has no fractions, the token 3 whose regulator does not let technical accounts pay
  it out, and the accounts 2 and 4 that own all of them. The technical accounts of the order books are odd
  numbers. The states are those after successful calls: a book of the
  token and one sell order, a book of the collectible and one sell order.
\<close>

definition demo_account :: "order_book_id \<Rightarrow> account_id" where
  "demo_account obid = 2 * prod_encode (ob_dex obid, prod_encode (ob_base obid, ob_quote obid)) + 1"

definition demo_chain :: chain where
  "demo_chain =
     \<lparr> chain_config = runtime_config,
       tech_account_id_to_account_id = (\<lambda>t. case t of
           Pure dex (OrderBookLiquidityKeeper pair) \<Rightarrow>
             Inr (demo_account (OrderBookId dex (target_asset_id pair) (base_asset_id pair)))
         | _ \<Rightarrow> Inl (OtherPalletError 0)),
       dec_providers = (\<lambda>_. Inr ()),
       can_dec_provider = (\<lambda>_. True),
       ExistentialDeposits = (\<lambda>_. 0),
       DustRemovalWhitelist = (\<lambda>_. False),
       GetNativeCurrencyId = 0,
       NativeCurrency_transfer = (\<lambda>f t n b. if n \<le> b f then (Inr (), b(f := b f - n, t := b t + n)) else (Inl (OtherPalletError 1), b)),
       AssetRegulator_check_transfer = (\<lambda>f _ a. if a = 3 \<and> odd f then Inl (OtherPalletError 2) else Inr ()),
       asset_exists = (\<lambda>a. a \<le> 3) \<rparr>"

definition demo_runtime :: "account_id option runtime" where
  "demo_runtime =
     \<lparr> chain_of = demo_chain,
       ensure_signed = (\<lambda>o'. ok_or o' BadOrigin),
       PermittedCreateOrigin = (\<lambda>o'. case o' of None \<Rightarrow> Inr (Inr ()) | Some who \<Rightarrow> Inr (Inl who)),
       PermittedEditOrigin = (\<lambda>o'. case o' of None \<Rightarrow> Inr () | Some _ \<Rightarrow> Inl BadOrigin),
       Currency_total_balance = (\<lambda>w a y. balance_of demo_chain w a y),
       GetTotalBalance = (\<lambda>_ _. Inr 0),
       Time_now = 0, block_number = 1,
       place_limit_order_without_cross_spread = \<lparr> ref_time = 0, proof_size = 0 \<rparr> \<rparr>"

definition demo_world :: world where
  "demo_world =
     \<lparr> Accounts = (\<lambda>(y, a). if (a = 1 \<or> a = 2 \<or> a = 3) \<and> (y = 2 \<or> y = 4) then Some \<lparr> free = 1000 * 10 ^ 18, reserved = 0, frozen = 0 \<rparr> else None),
       NativeBalances = (\<lambda>y. if y = 2 \<or> y = 4 then 1000 * 10 ^ 18 else 0),
       TechAccounts = (\<lambda>_. None),
       ExpirationsAgenda = (\<lambda>_. []),
       Events = [] \<rparr>"

definition demo_pallet :: pallet where
  "demo_pallet =
     \<lparr> Books = \<lparr> LimitOrders = [], Bids = [], Asks = [], AggregatedBids = [], AggregatedAsks = [], UserLimitOrders = [] \<rparr>,
       OrderBooks = [], AlignmentCursor = [], IncompleteExpirationsSince = None,
       Registry = \<lparr> DEXInfos = [(0, \<lparr> dex_base_asset_id = 0, dex_synthetic_base_asset_id = 0, dex_is_public = True \<rparr>)],
          EnabledSources = [((0, pair_of 0 1), {}), ((0, pair_of 0 2), {}), ((0, pair_of 0 3), {})], LockedLiquiditySources = [], TradingPairsStored = [],
          AssetPrecision = (\<lambda>a. if a = 2 then 0 else 18) \<rparr>,
       World = demo_world \<rparr>"

text \<open>A meter that counts: what is consumed, and the limit.\<close>

definition demo_fits :: "weight \<Rightarrow> weight \<times> weight \<Rightarrow> bool" where
  "demo_fits w m = (ref_time (fst m) + ref_time w \<le> ref_time (snd m) \<and> proof_size (fst m) + proof_size w \<le> proof_size (snd m))"

definition demo_add :: "weight \<Rightarrow> weight \<times> weight \<Rightarrow> weight \<times> weight" where
  "demo_add w m = (\<lparr> ref_time = ref_time (fst m) + ref_time w, proof_size = proof_size (fst m) + proof_size w \<rparr>, snd m)"

definition demo_meter :: "(weight \<times> weight) meter" where
  "demo_meter =
     \<lparr> try_consume = (\<lambda>w m. if demo_fits w m then Some (demo_add w m) else None),
       can_consume = demo_fits,
       consume = demo_add,
       remaining = (\<lambda>m. \<lparr> ref_time = ref_time (snd m) - ref_time (fst m), proof_size = proof_size (snd m) - proof_size (fst m) \<rparr>),
       with_limit = (\<lambda>w. (\<lparr> ref_time = 0, proof_size = 0 \<rparr>, w)),
       consumed = fst \<rparr>"

definition demo_scheduling :: scheduling where
  "demo_scheduling =
     \<lparr> service_expiration_base = \<lparr> ref_time = 1, proof_size = 0 \<rparr>,
       service_expiration_block_base = \<lparr> ref_time = 1, proof_size = 0 \<rparr>,
       service_single_expiration_weight = \<lparr> ref_time = 1, proof_size = 0 \<rparr>,
       align_single_order = \<lparr> ref_time = 1, proof_size = 0 \<rparr>,
       MaxExpirationWeightPerBlock = \<lparr> ref_time = 10000, proof_size = 0 \<rparr>,
       MaxAlignmentWeightPerBlock = \<lparr> ref_time = 10000, proof_size = 0 \<rparr>,
       trie_position = (\<lambda>_ i. i) \<rparr>"

definition demo_book :: order_book_id where
  "demo_book = OrderBookId 0 1 0"

definition demo_create :: call where
  "demo_create = CreateOrderbook demo_book (10 ^ 15) (10 ^ 15) (10 ^ 18) (100 * 10 ^ 18)"

definition demo_sell :: call where
  "demo_sell = PlaceLimitOrder demo_book (2 * 10 ^ 18) (5 * 10 ^ 18) Sell None"

definition demo_created :: pallet where
  "demo_created = snd (dispatch demo_runtime None demo_create demo_pallet)"

definition demo_placed :: pallet where
  "demo_placed = snd (dispatch demo_runtime (Some 2) demo_sell demo_created)"

definition demo_buy :: call where
  "demo_buy = PlaceLimitOrder demo_book (15 * 10 ^ 17) (3 * 10 ^ 18) Buy None"

definition demo_both :: pallet where
  "demo_both = snd (dispatch demo_runtime (Some 4) demo_buy demo_placed)"

definition demo_cancel :: call where
  "demo_cancel = CancelLimitOrder demo_book 1"

definition demo_cancelled :: pallet where
  "demo_cancelled = snd (dispatch demo_runtime (Some 2) demo_cancel demo_placed)"

text \<open>Account 4 swaps 4 XOR for at least 2 tokens.\<close>

definition demo_swap :: "swap_outcome pallet_run" where
  "demo_swap = exchange demo_runtime 4 4 0 0 1 (SwapWithDesiredInput (4 * 10 ^ 18) (2 * 10 ^ 18))"

definition demo_swapped :: pallet where
  "demo_swapped = snd (demo_swap demo_placed)"

definition nft_book :: order_book_id where
  "nft_book = OrderBookId 0 2 0"

definition nft_create :: call where
  "nft_create = CreateOrderbook nft_book (10 ^ 15) 1 1 100"

definition nft_sell :: call where
  "nft_sell = PlaceLimitOrder nft_book (3 * 10 ^ 18) 10 Sell None"

definition nft_created :: pallet where
  "nft_created = snd (dispatch demo_runtime None nft_create demo_pallet)"

definition nft_placed :: pallet where
  "nft_placed = snd (dispatch demo_runtime (Some 2) nft_sell nft_created)"

definition nft_buy :: call where
  "nft_buy = ExecuteMarketOrder nft_book Buy 4"

definition nft_traded :: pallet where
  "nft_traded = snd (dispatch demo_runtime (Some 4) nft_buy nft_placed)"

section \<open>What the states contain\<close>

definition demo_order :: limit_order where
  "demo_order = \<lparr> lo_id = 1, lo_owner = 2, lo_side = Sell, lo_price = divisible (2 * 10 ^ 18), lo_original_amount = divisible (5 * 10 ^ 18),
     lo_amount = divisible (5 * 10 ^ 18), lo_time = 0, lo_lifespan = 2592000000, lo_expires_at = 432002 \<rparr>"

definition demo_bid :: limit_order where
  "demo_bid = \<lparr> lo_id = 2, lo_owner = 4, lo_side = Buy, lo_price = divisible (15 * 10 ^ 17), lo_original_amount = divisible (3 * 10 ^ 18),
     lo_amount = divisible (3 * 10 ^ 18), lo_time = 0, lo_lifespan = 2592000000, lo_expires_at = 432002 \<rparr>"

definition book_attributes :: "pallet \<Rightarrow> order_book_id \<Rightarrow> (nat \<times> nat \<times> nat \<times> nat \<times> nat \<times> order_book_status) option" where
  "book_attributes p obid = map_option (\<lambda>book. (inner (tick_size book), inner (step_lot_size book), inner (min_lot_size book),
     inner (max_lot_size book), last_order_id book, book_status book)) (map_of (OrderBooks p) obid)"

text \<open>The sessions run the calls one after the other and check each state.\<close>

definition demo_created_check :: "pallet \<Rightarrow> bool" where
  "demo_created_check p \<longleftrightarrow> divisible_base (Registry p) demo_book \<and> LimitOrders (Books p) = [] \<and>
     book_attributes p demo_book = Some (10 ^ 15, 10 ^ 15, 10 ^ 18, 100 * 10 ^ 18, 0, Trade) \<and>
     v_agg (storage_view (Books p)) Buy demo_book = []"

definition demo_placed_check :: "pallet \<Rightarrow> bool" where
  "demo_placed_check p \<longleftrightarrow>
     book_attributes p demo_book = Some (10 ^ 15, 10 ^ 15, 10 ^ 18, 100 * 10 ^ 18, 1, Trade) \<and>
     orders_in p demo_book 1 = Some demo_order \<and> divisible_base (Registry p) demo_book \<and>
     (demo_book, 1) \<in> set (ExpirationsAgenda (World p) (lo_expires_at demo_order)) \<and>
     \<not> isl (check_indivisible_assets (Registry p) 0 1) \<and>
     \<not> isl (fst (dispatch demo_runtime (Some 2) demo_cancel p)) \<and>
     (case fst (demo_swap p) of Inl _ \<Rightarrow> False | Inr out \<Rightarrow> outcome_amount out = 2 * 10 ^ 18)"

definition demo_both_check :: "pallet \<Rightarrow> bool" where
  "demo_both_check p \<longleftrightarrow> orders_in p demo_book 1 = Some demo_order \<and> orders_in p demo_book 2 = Some demo_bid \<and>
     get_limit_orders demo_scheduling (Books p) demo_book (Some 0) 1 = [demo_order] \<and>
     get_limit_orders demo_scheduling (Books p) demo_book (Some 1) 1 = [demo_bid]"

definition demo_session :: "pallet \<Rightarrow> bool" where
  "demo_session p \<longleftrightarrow>
     (case dispatch demo_runtime None demo_create p of (r1, p1) \<Rightarrow>
      case dispatch demo_runtime (Some 2) demo_sell p1 of (r2, p2) \<Rightarrow>
      case dispatch demo_runtime (Some 4) demo_buy p2 of (r3, p3) \<Rightarrow>
        \<not> isl r1 \<and> demo_created_check p1 \<and> \<not> isl r2 \<and> demo_placed_check p2 \<and> \<not> isl r3 \<and> demo_both_check p3)"

lemma demo_session_runs: "demo_session demo_pallet"
  by code_simp

lemma not_isl_unit: "\<not> isl r \<Longrightarrow> r = Inr ()" for r :: "dispatch_error + unit"
  by (cases r) auto

lemma demo_create_run: "dispatch demo_runtime None demo_create demo_pallet = (Inr (), demo_created)"
  and demo_created_facts: "demo_created_check demo_created"
  and demo_sell_run: "dispatch demo_runtime (Some 2) demo_sell demo_created = (Inr (), demo_placed)"
  and demo_placed_facts: "demo_placed_check demo_placed"
  and demo_buy_run: "dispatch demo_runtime (Some 4) demo_buy demo_placed = (Inr (), demo_both)"
  and demo_both_facts: "demo_both_check demo_both"
proof -
  obtain r1 p1 where r1: "dispatch demo_runtime None demo_create demo_pallet = (r1, p1)" by force
  obtain r2 p2 where r2: "dispatch demo_runtime (Some 2) demo_sell p1 = (r2, p2)" by force
  obtain r3 p3 where r3: "dispatch demo_runtime (Some 4) demo_buy p2 = (r3, p3)" by force
  have ok: "\<not> isl r1" "demo_created_check p1" "\<not> isl r2" "demo_placed_check p2" "\<not> isl r3" "demo_both_check p3"
    using demo_session_runs by (simp_all add: demo_session_def r1 r2 r3)
  have p: "demo_created = p1" "demo_placed = p2" "demo_both = p3"
    by (simp_all add: demo_created_def demo_placed_def demo_both_def r1 r2 r3)
  show "dispatch demo_runtime None demo_create demo_pallet = (Inr (), demo_created)" "demo_created_check demo_created"
    "dispatch demo_runtime (Some 2) demo_sell demo_created = (Inr (), demo_placed)" "demo_placed_check demo_placed"
    "dispatch demo_runtime (Some 4) demo_buy demo_placed = (Inr (), demo_both)" "demo_both_check demo_both"
    using ok r1 r2 r3 by (simp_all add: p not_isl_unit)
qed

lemma book_attributes_Some:
  "book_attributes p obid = Some (tick, step, lot_min, lot_max, i, status) \<longleftrightarrow>
     (\<exists>book. map_of (OrderBooks p) obid = Some book \<and> inner (tick_size book) = tick \<and> inner (step_lot_size book) = step \<and>
        inner (min_lot_size book) = lot_min \<and> inner (max_lot_size book) = lot_max \<and> last_order_id book = i \<and> book_status book = status)"
  by (auto simp: book_attributes_def)

lemma demo_config: "chain_config demo_chain = runtime_config" "chain_of demo_runtime = demo_chain"
  by (simp_all add: demo_chain_def demo_runtime_def)

lemma demo_created_book:
  obtains book where "map_of (OrderBooks demo_created) demo_book = Some book" "last_order_id book = 0" "book_status book = Trade"
  using demo_created_facts by (auto simp: demo_created_check_def book_attributes_Some)

lemma demo_created_empty: "orders_in demo_created demo_book = Map.empty"
  and demo_created_divisible: "divisible_base (Registry demo_created) demo_book"
  using demo_created_facts by (auto simp: demo_created_check_def storage_view_def)

lemma demo_placed_book:
  obtains book where "map_of (OrderBooks demo_placed) demo_book = Some book" "inner (tick_size book) = 10 ^ 15"
    "inner (step_lot_size book) = 10 ^ 15" "inner (min_lot_size book) = 10 ^ 18" "inner (max_lot_size book) = 100 * 10 ^ 18"
    "book_status book = Trade"
  using demo_placed_facts by (auto simp: demo_placed_check_def book_attributes_Some)

lemma demo_placed_orders: "orders_in demo_placed demo_book 1 = Some demo_order"
  and demo_placed_agenda: "(demo_book, 1) \<in> set (ExpirationsAgenda (World demo_placed) (lo_expires_at demo_order))"
  and demo_placed_divisible: "divisible_base (Registry demo_placed) demo_book"
  using demo_placed_facts by (simp_all add: demo_placed_check_def)

lemma demo_cancel_run: "dispatch demo_runtime (Some 2) demo_cancel demo_placed = (Inr (), demo_cancelled)"
  using demo_placed_facts by (simp add: demo_placed_check_def demo_cancelled_def prod_eq_iff not_isl_unit)

lemma demo_swap_run:
  obtains out where "demo_swap demo_placed = (Inr out, demo_swapped)" "outcome_amount out = 2 * 10 ^ 18"
  using demo_placed_facts
  by (cases "demo_swap demo_placed") (auto simp: demo_placed_check_def demo_swapped_def split: sum.splits)

lemma demo_swap_check: "check_indivisible_assets (Registry demo_placed) 0 1 = Inr ()"
  using demo_placed_facts by (simp add: demo_placed_check_def not_isl_unit)

lemma demo_both_orders: "orders_in demo_both demo_book 1 = Some demo_order" "orders_in demo_both demo_book 2 = Some demo_bid"
  and demo_both_batches: "get_limit_orders demo_scheduling (Books demo_both) demo_book (Some 0) 1 = [demo_order]"
    "get_limit_orders demo_scheduling (Books demo_both) demo_book (Some 1) 1 = [demo_bid]"
  using demo_both_facts by (simp_all add: demo_both_check_def)

definition nft_session :: "pallet \<Rightarrow> bool" where
  "nft_session p \<longleftrightarrow>
     (case dispatch demo_runtime None nft_create p of (r1, p1) \<Rightarrow>
      case dispatch demo_runtime (Some 2) nft_sell p1 of (r2, p2) \<Rightarrow>
        \<not> isl r1 \<and> \<not> isl r2 \<and> \<not> isl (fst (dispatch demo_runtime (Some 4) nft_buy p2)) \<and>
        orders_in p2 nft_book 1 \<noteq> None)"

lemma nft_session_runs: "nft_session demo_pallet"
  by code_simp

lemma nft_create_run: "dispatch demo_runtime None nft_create demo_pallet = (Inr (), nft_created)"
  and nft_sell_run: "dispatch demo_runtime (Some 2) nft_sell nft_created = (Inr (), nft_placed)"
  and nft_buy_run: "dispatch demo_runtime (Some 4) nft_buy nft_placed = (Inr (), nft_traded)"
proof -
  obtain r1 p1 where r1: "dispatch demo_runtime None nft_create demo_pallet = (r1, p1)" by force
  obtain r2 p2 where r2: "dispatch demo_runtime (Some 2) nft_sell p1 = (r2, p2)" by force
  have ok: "\<not> isl r1" "\<not> isl r2" "\<not> isl (fst (dispatch demo_runtime (Some 4) nft_buy p2))"
    using nft_session_runs by (simp_all add: nft_session_def r1 r2)
  have p: "nft_created = p1" "nft_placed = p2" by (simp_all add: nft_created_def nft_placed_def r1 r2)
  show "dispatch demo_runtime None nft_create demo_pallet = (Inr (), nft_created)"
    "dispatch demo_runtime (Some 2) nft_sell nft_created = (Inr (), nft_placed)"
    "dispatch demo_runtime (Some 4) nft_buy nft_placed = (Inr (), nft_traded)"
    using ok r1 r2 by (simp_all add: p not_isl_unit nft_traded_def prod_eq_iff)
qed

section \<open>The chain provides what the pallet relies on\<close>

lemma demo_account_inj: "inj demo_account"
proof (rule injI)
  fix x y :: order_book_id
  assume "demo_account x = demo_account y"
  then show "x = y" by (cases x; cases y) (simp add: demo_account_def)
qed

lemma demo_account_odd: "odd (demo_account obid)"
  by (simp add: demo_account_def)

lemma demo_account_even: "even y \<Longrightarrow> y \<notin> range demo_account"
  using demo_account_odd by auto

lemma demo_book_account: "book_account demo_chain obid (demo_account obid)"
  by (cases obid) (simp add: book_account_def demo_chain_def tech_account_for_order_book_def
      to_order_tech_unit_from_dex_and_trading_pair_def trading_pair_of_def demo_account_def)

lemma demo_chain_ok: "chain_ok {demo_runtime} demo_chain demo_account"
proof -
  have "native_exact demo_chain"
    by (auto simp: native_exact_def demo_chain_def split: if_splits)
  moreover have "native_atomic demo_chain"
    by (auto simp: native_atomic_def demo_chain_def split: if_splits)
  ultimately show ?thesis
    using demo_account_inj demo_book_account by (simp add: chain_ok_def env_ok_def demo_runtime_def)
qed

lemma demo_signer: "even who \<Longrightarrow> not_signed_by demo_runtime (Some who) (range demo_account)"
  using demo_account_odd by (auto simp: not_signed_by_def demo_runtime_def ok_or_def)

lemma demo_root: "not_signed_by demo_runtime None (range demo_account)"
  by (simp add: not_signed_by_def demo_runtime_def ok_or_def)

section \<open>The states are reachable\<close>

abbreviation demo_reachable :: "pallet \<Rightarrow> bool" where
  "demo_reachable \<equiv> reachable {demo_runtime} demo_meter demo_scheduling demo_chain demo_account"

lemma demo_call:
  assumes "demo_reachable p" and "call_fits demo_chain (range demo_account) p c"
    and "not_signed_by demo_runtime origin (range demo_account)" and "dispatch demo_runtime origin c p = (r, p')"
  shows "demo_reachable p'"
  using assms by (intro reachable.step [OF assms(1)] in_block_step call_step [of demo_runtime]) auto

lemma demo_limits: "below_limits demo_chain (range demo_account) demo_pallet"
  by (auto simp: below_limits_def demo_pallet_def balance_of_def demo_world_def token_balance_def accounts_def
      default_account_def demo_chain_def u128_max_def)

lemma demo_start: "demo_reachable demo_pallet"
  by (rule reachable.start) (simp add: genesis_def demo_pallet_def demo_world_def)

lemma created_limits: "below_limits demo_chain (range demo_account) demo_created" "below_limits demo_chain (range demo_account) nft_created"
  using create_limits [of demo_runtime "range demo_account" demo_pallet] demo_create_run nft_create_run demo_limits
  unfolding demo_create_def nft_create_def by (simp_all add: demo_runtime_def)

lemma demo_created_reachable: "demo_reachable demo_created"
  by (rule demo_call [OF demo_start _ demo_root demo_create_run]) (simp add: demo_create_def)

lemma nft_created_reachable: "demo_reachable nft_created"
  by (rule demo_call [OF demo_start _ demo_root nft_create_run]) (simp add: nft_create_def)

lemma demo_placed_reachable: "demo_reachable demo_placed"
  by (rule demo_call [OF demo_created_reachable _ demo_signer demo_sell_run])
    (simp_all add: demo_sell_def u128_max_def created_limits)

lemma nft_placed_reachable: "demo_reachable nft_placed"
  by (rule demo_call [OF nft_created_reachable _ demo_signer nft_sell_run])
    (simp_all add: nft_sell_def u128_max_def created_limits)

lemma demo_placed_limits: "below_limits demo_chain (range demo_account) demo_placed"
proof -
  obtain E where inv: "pallet_inv demo_chain demo_account E demo_created"
    using reachable_inv [OF demo_created_reachable demo_chain_ok] ..
  have env: "env_ok demo_chain demo_account" using demo_chain_ok by (simp add: chain_ok_def)
  have plain: "\<not> spec_crosses (storage_view (Books demo_created)) demo_book x" if "lo_side x = Sell" for x
    using that demo_created_facts by (simp add: spec_crosses_def demo_created_check_def)
  have ids: "last_order_id book = 0" if "map_of (OrderBooks demo_created) demo_book = Some book" for book
    using that demo_created_facts by (simp add: demo_created_check_def book_attributes_def)
  show ?thesis
    by (rule place_limits [OF inv env demo_config(2) demo_sell_run [unfolded demo_sell_def] demo_signer])
      (simp_all add: plain ids u128_max_def created_limits)
qed

lemma demo_both_reachable: "demo_reachable demo_both"
  by (rule demo_call [OF demo_placed_reachable _ demo_signer demo_buy_run])
    (simp_all add: demo_buy_def u128_max_def demo_placed_limits)

end
