(* ===== verification/Incidents.thy ===== *)
theory Incidents
  imports Scenario
begin

text \<open>
  Sessions of the demonstration chain in which a pass of the scheduler fails: an order whose refund the
  regulator refuses when it expires, an alignment that fails at its second book, and a book that is deleted
  while it waits for its alignment.
\<close>

definition frozen_book :: order_book_id where
  "frozen_book = OrderBookId 0 3 0"

definition frozen_create :: call where
  "frozen_create = CreateOrderbook frozen_book (10 ^ 15) (10 ^ 15) (10 ^ 18) (100 * 10 ^ 18)"

definition frozen_sell :: call where
  "frozen_sell = PlaceLimitOrder frozen_book (2 * 10 ^ 18) (5001 * 10 ^ 15) Sell (Some 60000)"

definition frozen_created :: pallet where
  "frozen_created = snd (dispatch demo_runtime None frozen_create demo_pallet)"

definition frozen_placed :: pallet where
  "frozen_placed = snd (dispatch demo_runtime (Some 2) frozen_sell frozen_created)"

definition frozen_meter :: "weight \<times> weight" where
  "frozen_meter = with_limit demo_meter (MaxExpirationWeightPerBlock demo_scheduling)"

definition frozen_expired :: pallet where
  "frozen_expired = snd (service_expiration demo_chain demo_meter demo_scheduling 12 frozen_meter frozen_placed)"

definition frozen_order :: limit_order where
  "frozen_order = \<lparr> lo_id = 1, lo_owner = 2, lo_side = Sell, lo_price = divisible (2 * 10 ^ 18),
     lo_original_amount = divisible (5001 * 10 ^ 15), lo_amount = divisible (5001 * 10 ^ 15), lo_time = 0, lo_lifespan = 60000, lo_expires_at = 12 \<rparr>"

definition frozen_session :: "pallet \<Rightarrow> bool" where
  "frozen_session p \<longleftrightarrow>
     (case dispatch demo_runtime None frozen_create p of (r1, p1) \<Rightarrow>
      case dispatch demo_runtime (Some 2) frozen_sell p1 of (r2, p2) \<Rightarrow>
      case service_expiration demo_chain demo_meter demo_scheduling 12 frozen_meter p2 of (m, p3) \<Rightarrow>
        \<not> isl r1 \<and> \<not> isl r2 \<and> LimitOrders (Books p2) = [((frozen_book, 1), frozen_order)] \<and>
        IncompleteExpirationsSince p2 = None \<and> (frozen_book, 1) \<in> set (ExpirationsAgenda (World p2) 12) \<and>
        IncompleteExpirationsSince p3 = None \<and>
        orders_in p3 frozen_book 1 = Some frozen_order \<and> ExpirationsAgenda (World p3) 12 = [])"

lemma frozen_session_runs: "frozen_session demo_pallet"
  by code_simp

lemma frozen_runs:
  "dispatch demo_runtime None frozen_create demo_pallet = (Inr (), frozen_created)"
  "dispatch demo_runtime (Some 2) frozen_sell frozen_created = (Inr (), frozen_placed)"
  "orders_in frozen_expired frozen_book 1 = Some frozen_order"
  "ExpirationsAgenda (World frozen_expired) 12 = []"
  "\<exists>m. service_expiration demo_chain demo_meter demo_scheduling 12 frozen_meter frozen_placed = (m, frozen_expired)"
  "LimitOrders (Books frozen_placed) = [((frozen_book, 1), frozen_order)]"
  "IncompleteExpirationsSince frozen_placed = None" "IncompleteExpirationsSince frozen_expired = None"
proof -
  obtain r1 p1 where r1: "dispatch demo_runtime None frozen_create demo_pallet = (r1, p1)" by force
  obtain r2 p2 where r2: "dispatch demo_runtime (Some 2) frozen_sell p1 = (r2, p2)" by force
  obtain m p3 where r3: "service_expiration demo_chain demo_meter demo_scheduling 12 frozen_meter p2 = (m, p3)" by (meson surj_pair)
  have ok: "\<not> isl r1" "\<not> isl r2" "orders_in p3 frozen_book 1 = Some frozen_order" "ExpirationsAgenda (World p3) 12 = []"
    "LimitOrders (Books p2) = [((frozen_book, 1), frozen_order)]" "IncompleteExpirationsSince p2 = None" "IncompleteExpirationsSince p3 = None"
    using frozen_session_runs by (simp_all add: frozen_session_def r1 r2 r3)
  have p: "frozen_created = p1" "frozen_placed = p2" "frozen_expired = p3"
    by (simp_all add: frozen_created_def frozen_placed_def frozen_expired_def r1 r2 r3)
  show "dispatch demo_runtime None frozen_create demo_pallet = (Inr (), frozen_created)"
    "dispatch demo_runtime (Some 2) frozen_sell frozen_created = (Inr (), frozen_placed)"
    using ok r1 r2 by (simp_all add: p not_isl_unit)
  show "orders_in frozen_expired frozen_book 1 = Some frozen_order" "ExpirationsAgenda (World frozen_expired) 12 = []"
    "\<exists>m. service_expiration demo_chain demo_meter demo_scheduling 12 frozen_meter frozen_placed = (m, frozen_expired)"
    "LimitOrders (Books frozen_placed) = [((frozen_book, 1), frozen_order)]"
    "IncompleteExpirationsSince frozen_placed = None" "IncompleteExpirationsSince frozen_expired = None"
    using ok r3 unfolding p by blast+
qed

lemma frozen_placed_reachable: "demo_reachable frozen_placed"
  and frozen_expired_reachable: "demo_reachable frozen_expired"
proof -
  have created: "demo_reachable frozen_created"
    by (rule demo_call [OF demo_start _ demo_root frozen_runs(1)]) (simp add: frozen_create_def)
  have limits: "below_limits demo_chain (range demo_account) frozen_created"
    using create_limits [of demo_runtime "range demo_account" demo_pallet] frozen_runs(1) demo_limits
    unfolding frozen_create_def by (simp add: demo_config)
  show placed: "demo_reachable frozen_placed"
    by (rule demo_call [OF created _ demo_signer frozen_runs(2)]) (simp_all add: frozen_sell_def u128_max_def limits)
  obtain m where "service_expiration demo_chain demo_meter demo_scheduling 12 frozen_meter frozen_placed = (m, frozen_expired)"
    using frozen_runs(5) ..
  then show "demo_reachable frozen_expired" by (rule reachable.step [OF placed expiration_step])
qed

section \<open>An alignment that fails\<close>

fun session :: "(account_id option \<times> call) list \<Rightarrow> pallet \<Rightarrow> pallet option" where
  "session [] p = Some p"
| "session ((origin, c) # cs) p =
     (case dispatch demo_runtime origin c p of (Inl _, _) \<Rightarrow> None | (Inr _, p') \<Rightarrow> session cs p')"

fun places_order :: "call \<Rightarrow> bool" where
  "places_order (PlaceLimitOrder obid price amount side lifespan) = True"
| "places_order _ = False"

lemma session_reachable:
  assumes "session cs p = Some p'" and "demo_reachable p" and "\<forall>(origin, c)\<in>set cs. origin = None \<and> \<not> places_order c"
  shows "demo_reachable p'"
  using assms
proof (induction cs p rule: session.induct)
  case (2 origin c cs p)
  obtain r q where run: "dispatch demo_runtime origin c p = (r, q)" by force
  have "call_fits demo_chain (range demo_account) p c" using 2(4) by (cases c) auto
  then have "demo_reachable q" using demo_call [OF 2(3) _ demo_root] run 2(4) by auto
  then show ?case using 2 run by (auto split: sum.splits)
qed simp

definition twin_sell :: call where
  "twin_sell = PlaceLimitOrder demo_book (2 * 10 ^ 18) (5001 * 10 ^ 15) Sell None"

definition twin_update :: "(account_id option \<times> call) list" where
  "twin_update =
     [(None, ChangeOrderbookStatus demo_book OnlyCancel), (None, ChangeOrderbookStatus frozen_book OnlyCancel),
      (None, UpdateOrderbook demo_book (10 ^ 15) (2 * 10 ^ 15) (10 ^ 18) (100 * 10 ^ 18)),
      (None, UpdateOrderbook frozen_book (10 ^ 15) (2 * 10 ^ 15) (10 ^ 18) (100 * 10 ^ 18))]"

definition twin_check :: "pallet \<Rightarrow> bool" where
  "twin_check p \<longleftrightarrow>
     (case orders_in p demo_book 1 of None \<Rightarrow> False
      | Some x \<Rightarrow> balance_of demo_chain (World p) 1 (demo_account demo_book) < locked_units p demo_book 1 x)"

text \<open>The alignment of the first book alone succeeds.\<close>

definition twin_order :: limit_order where
  "twin_order = \<lparr> lo_id = 1, lo_owner = 2, lo_side = Sell, lo_price = divisible (2 * 10 ^ 18), lo_original_amount = divisible (5001 * 10 ^ 15),
     lo_amount = divisible (5001 * 10 ^ 15), lo_time = 0, lo_lifespan = 2592000000, lo_expires_at = 432002 \<rparr>"

definition twin_aligns :: "pallet \<Rightarrow> bool" where
  "twin_aligns p \<longleftrightarrow> orders_in p demo_book 1 = Some twin_order \<and>
     get_limit_orders demo_scheduling (Books p) demo_book (Some 0) 1 = [twin_order] \<and>
     (case map_of (OrderBooks p) demo_book of None \<Rightarrow> False
      | Some book \<Rightarrow> inner (step_lot_size book) = 2 * 10 ^ 15 \<and>
          \<not> isl (fst (align_limit_orders demo_chain (cache_data_layer runtime_config) book [twin_order] ((cl_new, Books p), World p))))"

definition twin_session :: "pallet \<Rightarrow> bool" where
  "twin_session p \<longleftrightarrow>
     (case dispatch demo_runtime None demo_create p of (r1, p1) \<Rightarrow>
      case dispatch demo_runtime None frozen_create p1 of (r2, p2) \<Rightarrow>
      case dispatch demo_runtime (Some 2) twin_sell p2 of (r3, p3) \<Rightarrow>
      case dispatch demo_runtime (Some 2) frozen_sell p3 of (r4, p4) \<Rightarrow>
      case session twin_update p4 of None \<Rightarrow> False | Some p5 \<Rightarrow>
      case service_alignment demo_chain demo_meter demo_scheduling frozen_meter p5 of (m, p6) \<Rightarrow>
        \<not> isl r1 \<and> \<not> isl r2 \<and> v_agg (storage_view (Books p2)) Buy demo_book = [] \<and>
        map_option last_order_id (map_of (OrderBooks p2) demo_book) = Some 0 \<and> \<not> isl r3 \<and> \<not> isl r4 \<and> twin_check p6 \<and> twin_aligns p5)"

lemma twin_session_runs: "twin_session demo_pallet"
  by code_simp

lemma twin_states:
  obtains p m p' where "demo_reachable p"
    and "service_alignment demo_chain demo_meter demo_scheduling frozen_meter p = (m, p')" and "twin_check p'" and "twin_aligns p"
proof -
  obtain r1 p1 where r1: "dispatch demo_runtime None demo_create demo_pallet = (r1, p1)" by force
  obtain r2 p2 where r2: "dispatch demo_runtime None frozen_create p1 = (r2, p2)" by force
  obtain r3 p3 where r3: "dispatch demo_runtime (Some 2) twin_sell p2 = (r3, p3)" by force
  obtain r4 p4 where r4: "dispatch demo_runtime (Some 2) frozen_sell p3 = (r4, p4)" by force
  obtain p5 where r5: "session twin_update p4 = Some p5"
    using twin_session_runs by (auto simp: twin_session_def r1 r2 r3 r4 split: option.splits)
  obtain m p6 where r6: "service_alignment demo_chain demo_meter demo_scheduling frozen_meter p5 = (m, p6)" by (meson surj_pair)
  have ok: "\<not> isl r1" "\<not> isl r2" "v_agg (storage_view (Books p2)) Buy demo_book = []"
    "map_option last_order_id (map_of (OrderBooks p2) demo_book) = Some 0" "\<not> isl r3" "\<not> isl r4" "twin_check p6" "twin_aligns p5"
    using twin_session_runs by (simp_all add: twin_session_def r1 r2 r3 r4 r5 r6)
  note runs = r1 [unfolded not_isl_unit [OF ok(1)]] r2 [unfolded not_isl_unit [OF ok(2)]] r3 [unfolded not_isl_unit [OF ok(5)]]
  have env: "env_ok demo_chain demo_account" using demo_chain_ok by (simp add: chain_ok_def)
  have p1: "demo_reachable p1" by (rule demo_call [OF demo_start _ demo_root r1]) (simp add: demo_create_def)
  have p2: "demo_reachable p2" by (rule demo_call [OF p1 _ demo_root r2]) (simp add: frozen_create_def)
  have l1: "below_limits demo_chain (range demo_account) p1"
    using create_limits [of demo_runtime "range demo_account" demo_pallet] runs(1) demo_limits
    unfolding demo_create_def by (simp add: demo_config)
  have l2: "below_limits demo_chain (range demo_account) p2"
    using create_limits [of demo_runtime "range demo_account" p1] runs(2) l1
    unfolding frozen_create_def by (simp add: demo_config)
  have p3: "demo_reachable p3" by (rule demo_call [OF p2 _ demo_signer r3]) (simp_all add: twin_sell_def u128_max_def l2)
  obtain E where inv: "pallet_inv demo_chain demo_account E p2" using reachable_inv [OF p2 demo_chain_ok] ..
  have plain: "\<not> spec_crosses (storage_view (Books p2)) demo_book x" if "lo_side x = Sell" for x
    using that ok(3) by (simp add: spec_crosses_def)
  have l3: "below_limits demo_chain (range demo_account) p3"
    by (rule place_limits [OF inv env demo_config(2) runs(3) [unfolded twin_sell_def] demo_signer])
      (use ok(4) in \<open>auto simp: plain u128_max_def l2\<close>)
  have p4: "demo_reachable p4" by (rule demo_call [OF p3 _ demo_signer r4]) (simp_all add: frozen_sell_def u128_max_def l3)
  have "demo_reachable p5" by (rule session_reachable [OF r5 p4]) (auto simp: twin_update_def)
  with r6 ok(7,8) that show ?thesis by blast
qed

section \<open>A book deleted during its alignment\<close>

definition cursor_update :: "(account_id option \<times> call) list" where
  "cursor_update =
     [(None, demo_create), (None, ChangeOrderbookStatus demo_book OnlyCancel),
      (None, UpdateOrderbook demo_book (10 ^ 15) (2 * 10 ^ 15) (10 ^ 18) (100 * 10 ^ 18))]"

definition cursor_session :: "pallet \<Rightarrow> bool" where
  "cursor_session p \<longleftrightarrow>
     (case session cursor_update p of None \<Rightarrow> False | Some p1 \<Rightarrow>
      AlignmentCursor p1 = [(demo_book, 0)] \<and> \<not> isl (fst (dispatch demo_runtime None (DeleteOrderbook demo_book) p1)))"

lemma cursor_session_runs: "cursor_session demo_pallet"
  by code_simp

lemma cursor_states:
  obtains p p' where "demo_reachable p" and "AlignmentCursor p = [(demo_book, 0)]"
    and "dispatch demo_runtime None (DeleteOrderbook demo_book) p = (Inr (), p')"
proof -
  obtain p1 where r: "session cursor_update demo_pallet = Some p1"
    and ok: "AlignmentCursor p1 = [(demo_book, 0)]" "\<not> isl (fst (dispatch demo_runtime None (DeleteOrderbook demo_book) p1))"
    using cursor_session_runs by (auto simp: cursor_session_def split: option.splits)
  have "demo_reachable p1" by (rule session_reachable [OF r demo_start]) (auto simp: cursor_update_def demo_create_def)
  then show ?thesis using that ok not_isl_unit [OF ok(2)] by (metis prod.collapse)
qed

end
