(* ===== verification/Scheduler_Progress.thy ===== *)
theory Scheduler_Progress
  imports Reachability
begin

text \<open>
  What the passes of the scheduler achieve: no scheduled expiration is left behind the point at which the
  next pass starts, the batches of an alignment enumerate the orders of a book, and an alignment cuts every
  order of its batch to a multiple of the step.
\<close>

section \<open>Expiration\<close>

context DataLayer
begin

lemma expiration_loop_agenda:
  assumes "safe env cfg view coh dv acct (dom (map_of books)) E (d, w)"
    and "expiration_loop env dl mt sch books current fuel incomplete bl (m, (d, w)) = (inc', bl', (m', (d', w')))"
    and env: "books_ok env acct (dom (map_of books))" "native_atomic env"
    and ids: "\<forall>obid book. map_of books obid = Some book \<longrightarrow> book_id book = obid"
    and "current < u32_max" and "\<And>b. ExpirationsAgenda w b \<noteq> [] \<Longrightarrow> min incomplete bl \<le> b"
    and "ExpirationsAgenda w' b \<noteq> []"
  shows "min inc' bl' \<le> b"
  using assms(1,2,6-8)
proof (induction fuel arbitrary: incomplete bl m d w E)
  case (Suc fuel)
  show ?case
  proof (cases "bl \<le> current \<and> can_consume mt (service_expiration_block_base sch) m")
    case True
    obtain fin m1 d1 w1 where blk: "service_expiration_block env dl mt sch books bl (m, (d, w)) = (fin, (m1, (d1, w1)))"
      by (metis prod.collapse)
    from expiration_block_safe [OF Suc.prems(1) blk env ids] obtain E1
      where one: "safe env cfg view coh dv acct (dom (map_of books)) E1 (d1, w1)"
      and sub: "\<And>b'. set (ExpirationsAgenda w1 b') \<subseteq> set (ExpirationsAgenda w b')" and fin: "fin \<Longrightarrow> ExpirationsAgenda w1 bl = []"
      by blast
    have inc: "saturating_add_u u32_max bl (Suc 0) = Suc bl" using True Suc.prems(3) by (simp add: saturating_add_u_def)
    let ?inc = "if fin then incomplete else min incomplete bl"
    have "min ?inc (Suc bl) \<le> b'" if b': "ExpirationsAgenda w1 b' \<noteq> []" for b'
    proof -
      have "ExpirationsAgenda w b' \<noteq> []" using sub [of b'] b' by auto
      from Suc.prems(4) [OF this] show ?thesis using fin b' by (cases "b' = bl") (auto simp: min_def split: if_splits)
    qed
    moreover have "expiration_loop env dl mt sch books current fuel ?inc (Suc bl) (m1, (d1, w1)) = (inc', bl', (m', (d', w')))"
      using Suc.prems(2) True blk by (simp add: inc split: if_splits)
    ultimately show ?thesis using Suc.IH [OF one] Suc.prems(3,5) by blast
  next
    case False
    then show ?thesis using Suc.prems by auto
  qed
qed auto

end

lemma expiration_agenda:
  assumes inv: "pallet_inv env acct E p" and env: "env_ok env acct" "native_atomic env"
    and run: "service_expiration env mt sch current m p = (m', p')"
    and base: "try_consume mt (service_expiration_base sch) m \<noteq> None" and current: "current < u32_max"
    and before: "\<And>b. ExpirationsAgenda (World p) b \<noteq> [] \<Longrightarrow> unwrap_or (IncompleteExpirationsSince p) current \<le> b"
    and b: "ExpirationsAgenda (World p') b \<noteq> []"
  shows "unwrap_or (IncompleteExpirationsSince p') (current + 1) \<le> b"
proof -
  let ?when = "unwrap_or (IncompleteExpirationsSince p) current"
  obtain m1 where m1: "try_consume mt (service_expiration_base sch) m = Some m1" using base by blast
  obtain inc when' m2 d w where loop: "expiration_loop env (cache_data_layer (chain_config env)) mt sch (OrderBooks p) current
      (Suc current - ?when) (current + 1) ?when (m1, ((cl_new, Books p), World p)) = (inc, when', (m2, (d, w)))"
    by (metis prod.collapse)
  have p': "World p' = w" "IncompleteExpirationsSince p' = (if min inc when' \<le> current then Some (min inc when') else None)"
    using run m1 loop by (auto simp: service_expiration_def Let_def)
  have ids: "\<forall>obid book. map_of (OrderBooks p) obid = Some book \<longrightarrow> book_id book = obid"
    using pallet_inv_ids [OF inv] by blast
  have "min inc when' \<le> b"
  proof (rule cache_impl.expiration_loop_agenda [OF pallet_inv_enter(1) [OF inv] loop pallet_inv_books [OF inv env(1)] env(2) ids current])
    show "min (current + 1) ?when \<le> b'" if "ExpirationsAgenda (World p) b' \<noteq> []" for b' using before [OF that] by simp
    show "ExpirationsAgenda w b \<noteq> []" using b p'(1) by simp
  qed
  then show ?thesis using p'(2) by (auto split: if_splits)
qed

lemma expiration_marker:
  assumes "service_expiration env mt sch current m p = (m', p')" and "try_consume mt (service_expiration_base sch) m \<noteq> None"
    and "IncompleteExpirationsSince p' = Some b"
  shows "b \<le> current"
  using assms by (auto simp: service_expiration_def Let_def split: prod.splits if_splits)

lemma expiration_fuel:
  assumes "current < u32_max"
  shows "expiration_loop env dl mt sch books current (Suc current - bl + n) inc bl s =
    expiration_loop env dl mt sch books current (Suc current - bl) inc bl s"
proof (induction "Suc current - bl" arbitrary: inc bl s)
  case 0
  then show ?case by (cases n) auto
next
  case (Suc k)
  then have bl: "bl \<le> current" "Suc current - bl = Suc k" "k = Suc current - Suc bl" by linarith+
  have inc: "saturating_add_u u32_max bl (Suc 0) = Suc bl" using bl(1) assms by (simp add: saturating_add_u_def)
  have IH: "expiration_loop env dl mt sch books current (k + n) inc' (Suc bl) s' =
      expiration_loop env dl mt sch books current k inc' (Suc bl) s'" for inc' s'
    using Suc.hyps(1) [OF bl(3), of inc' s'] by (simp add: bl(3))
  show ?case unfolding bl(2) by (simp add: inc IH split: prod.splits)
qed

section \<open>The batches of an alignment\<close>

lemma filter_after_prefix:
  fixes f :: "'a \<Rightarrow> nat"
  assumes "sorted_wrt (\<lambda>a b. f a < f b) xs" and "0 < n" and "xs \<noteq> []"
  shows "filter (\<lambda>e. f (last (take n xs)) < f e) xs = drop n xs"
proof -
  let ?l = "last (take n xs)"
  have split: "sorted_wrt (\<lambda>a b. f a < f b) (take n xs @ drop n xs)" using assms(1) by simp
  have ne: "take n xs \<noteq> []" using assms(2,3) by simp
  have "f e \<le> f ?l" if "e \<in> set (take n xs)" for e
  proof -
    have "sorted_wrt (\<lambda>a b. f a < f b) (butlast (take n xs) @ [?l])" using split ne by (simp add: sorted_wrt_append del: append_take_drop_id)
    moreover have "e \<in> set (butlast (take n xs) @ [?l])" using that ne by simp
    ultimately show ?thesis by (auto simp: sorted_wrt_append)
  qed
  then have "filter (\<lambda>e. f ?l < f e) (take n xs) = []" by (auto simp: filter_empty_conv not_less)
  moreover have "filter (\<lambda>e. f ?l < f e) (drop n xs) = drop n xs"
    using split ne by (auto simp: sorted_wrt_append filter_id_conv simp del: append_take_drop_id)
  ultimately show ?thesis by (metis append_take_drop_id filter_append self_append_conv2)
qed

lemma sort_key_strict:
  fixes f :: "'a \<Rightarrow> nat"
  assumes "inj_on f (set xs)" and "distinct xs"
  shows "sorted_wrt (\<lambda>a b. f a < f b) (sort_key f xs)"
proof -
  have "distinct (map f (sort_key f xs))" using assms by (simp add: distinct_map)
  then have "sorted_wrt (<) (map f (sort_key f xs))" by (simp add: strict_sorted_iff)
  then show ?thesis by (simp add: sorted_wrt_map)
qed

lemma get_limit_orders_append:
  assumes dist: "distinct (map fst (LimitOrders s))" and inj: "inj (trie_position sch obid)"
    and ids: "\<And>i x. map_of (LimitOrders s) (obid, i) = Some x \<Longrightarrow> lo_id x = i \<and> i \<noteq> 0"
    and batch: "get_limit_orders sch s obid cursor n = batch" "batch \<noteq> []"
  shows "get_limit_orders sch s obid cursor (n + k) = batch @ get_limit_orders sch s obid (Some (lo_id (last batch))) k"
proof -
  let ?f = "\<lambda>e. trie_position sch obid (fst e)"
  let ?rows = "sort_key ?f (iter_prefix (LimitOrders s) obid)"
  let ?from = "\<lambda>cursor. case cursor of Some c \<Rightarrow>
      if c \<noteq> 0 then filter (\<lambda>e. trie_position sch obid c < ?f e) ?rows else ?rows | None \<Rightarrow> ?rows"
  have get: "get_limit_orders sch s obid cursor n = map snd (take n (?from cursor))" for cursor n
    by (simp add: get_limit_orders_def Let_def)
  have "distinct (map fst (iter_prefix (LimitOrders s) obid))" by (rule iter_prefix_distinct [OF dist])
  then have "inj_on fst (set (iter_prefix (LimitOrders s) obid))" "distinct (iter_prefix (LimitOrders s) obid)"
    by (simp_all add: distinct_map)
  then have "sorted_wrt (\<lambda>a b. ?f a < ?f b) ?rows"
    using inj by (intro sort_key_strict) (auto simp: inj_on_def)
  then have sorted: "sorted_wrt (\<lambda>a b. ?f a < ?f b) (?from cursor)"
    by (auto simp: sorted_wrt_filter split: option.splits)
  let ?L = "?from cursor" and ?l = "last (take n (?from cursor))"
  have n: "0 < n" "?L \<noteq> []" using batch by (auto simp: get)
  have "take n ?L \<noteq> []" using n by simp
  then have mem: "?l \<in> set ?L" by (meson in_set_takeD last_in_set)
  then have "?l \<in> set ?rows" by (cases cursor) (simp_all split: if_splits)
  then have "map_of (LimitOrders s) (obid, fst ?l) = Some (snd ?l)" using iter_prefix_mem [OF dist, of "fst ?l" "snd ?l" obid] by simp
  from ids [OF this] have id: "lo_id (snd ?l) = fst ?l" "fst ?l \<noteq> 0" by simp_all
  have "last batch = snd ?l" using batch n by (auto simp: get last_map)
  then have "?from (Some (lo_id (last batch))) = filter (\<lambda>e. ?f ?l < ?f e) ?rows" using id by simp
  also have "\<dots> = filter (\<lambda>e. ?f ?l < ?f e) ?L"
    using mem by (cases cursor) (auto simp: filter_filter intro!: filter_cong)
  also have "\<dots> = drop n ?L" by (rule filter_after_prefix [OF sorted n])
  finally have after: "?from (Some (lo_id (last batch))) = drop n ?L" .
  have rest: "get_limit_orders sch s obid (Some (lo_id (last batch))) k = map snd (take k (drop n ?L))" by (simp only: get after)
  have whole: "get_limit_orders sch s obid cursor (n + k) = map snd (take n ?L) @ map snd (take k (drop n ?L))"
    by (simp only: get take_add map_append)
  have "map snd (take n ?L) = batch" using batch(1) by (simp only: get)
  then show ?thesis by (simp only: whole rest)
qed

section \<open>What an alignment does\<close>

lemma orders_after_align:
  assumes ok: "change_ok d m mc" and lists: "filled_full mc = []" "filled_part mc = []" "placed mc = []"
    and canc: "mset (cancelled mc) = mset (filter (too_small book) xs)"
    and upds: "mset (updated mc) = mset (map (cut book) (filter (to_cut book) xs))"
    and xs: "distinct (map lo_id xs)" "\<forall>x\<in>set xs. m (lo_id x) = Some x"
  shows "i \<notin> lo_id ` set xs \<Longrightarrow> orders_after mc m i = m i"
    and "x \<in> set xs \<Longrightarrow> orders_after mc m (lo_id x) =
      (if too_small book x then None else if to_cut book x then Some (cut book x) else Some x)"
proof -
  have sets: "set (cancelled mc) = set (filter (too_small book) xs)" "set (updated mc) = cut book ` set (filter (to_cut book) xs)"
    using arg_cong [OF canc, of set_mset] arg_cong [OF upds, of set_mset] by simp_all
  have cut_id: "lo_id (cut book x) = lo_id x" for x by (simp add: cut_def)
  have same: "y = x" if "x \<in> set xs" "y \<in> set xs" "lo_id y = lo_id x" for x y using that xs(1) by (auto simp: distinct_map inj_on_def)
  have del: "lo_id y \<in> lo_id ` set (cancelled mc) \<longleftrightarrow> too_small book y" if "y \<in> set xs" for y
    using same [OF that] that by (auto simp: sets)
  have upd: "lo_id y \<in> lo_id ` set (updated mc) \<longleftrightarrow> to_cut book y" if "y \<in> set xs" for y
  proof -
    have "lo_id ` set (updated mc) = lo_id ` set (filter (to_cut book) xs)" by (simp add: sets image_image cut_id)
    then show ?thesis using same [OF that] that by auto
  qed
  have dist: "distinct (map lo_id (updated mc))" using ok by (simp add: change_ok_def)
  have eq: "orders_after mc m j = put_orders (updated mc) (del_orders (cancelled mc) m) j" for j
    by (simp add: orders_after_def lists put_orders_def del_orders_def)
  show "orders_after mc m i = m i" if "i \<notin> lo_id ` set xs"
  proof -
    have "i \<notin> lo_id ` set (updated mc)" "i \<notin> lo_id ` set (cancelled mc)" using that by (auto simp: sets cut_id)
    then show ?thesis by (simp add: eq put_orders_other del_orders_get)
  qed
  show "orders_after mc m (lo_id x) =
      (if too_small book x then None else if to_cut book x then Some (cut book x) else Some x)" if x: "x \<in> set xs"
  proof (cases "to_cut book x")
    case True
    then have "cut book x \<in> set (updated mc)" using x by (simp add: sets)
    from put_orders_get [OF dist this] True show ?thesis by (simp add: eq cut_id too_small_def to_cut_def)
  next
    case False
    then show ?thesis using upd [OF x] del [OF x] xs(2) x by (simp add: eq put_orders_other del_orders_get)
  qed
qed

context DataLayer
begin

lemma align_effect:
  assumes safe: "safe env cfg view coh dv acct B E (d, w)"
    and run: "align_limit_orders env dl book xs (d, w) = (Inr u, (d', w'))"
    and xs: "\<forall>x\<in>set xs. v_orders (view d) (book_id book) (lo_id x) = Some x" "distinct (map lo_id xs)"
    and step: "is_divisible (step_lot_size book) = dv (book_id book)" "0 < inner (step_lot_size book)"
    and env: "books_ok env acct B" "book_id book \<in> B"
  shows "i \<notin> lo_id ` set xs \<Longrightarrow> v_orders (view d') (book_id book) i = v_orders (view d) (book_id book) i"
    and "x \<in> set xs \<Longrightarrow> v_orders (view d') (book_id book) (lo_id x) =
      (if too_small book x then None else if to_cut book x then Some (cut book x) else Some x)"
proof -
  let ?obid = "book_id book" and ?m = "v_orders (view d) (book_id book)"
  have "(i \<notin> lo_id ` set xs \<longrightarrow> v_orders (view d') ?obid i = ?m i) \<and> (x \<in> set xs \<longrightarrow> v_orders (view d') ?obid (lo_id x) =
      (if too_small book x then None else if to_cut book x then Some (cut book x) else Some x))" for i x
  proof (cases "xs = []")
    case True
    then show ?thesis using run by (simp add: align_limit_orders_def run_simps)
  next
    case False
    have inv: "book_inv cfg (dv ?obid) ?obid (view d)" using safe by (simp add: safe_def consistent_def view_inv_def)
    then have fin: "finite (dom ?m)" and wf: "\<forall>x\<in>set xs. order_wf (dv ?obid) x \<and> ?m (lo_id x) = Some x"
      using xs(1) by (auto simp: book_inv_def)
    have assets: "ob_base ?obid \<noteq> ob_quote ?obid" using env by (simp add: books_ok_def)
    from run False obtain mc where mc: "calculate_align_limit_orders_impact book xs = Inr mc"
      and app: "apply_market_change env dl book mc (d, w) = (Inr u, (d', w'))"
      by (auto simp: align_limit_orders_def run_simps)
    note ch = align_change [OF mc wf xs(2) fin step assets]
    have "set xs \<subseteq> ran ?m" using xs(1) by (auto intro: ranI)
    then have sound: "sound_change ?obid (dv ?obid) (view d) {} mc"
      using ch(1,2,5) subset_trans [OF ch(3) image_mono] by (simp add: sound_change_def)
    have after: "v_orders (view d') ?obid = orders_after mc ?m"
      using apply_change_safe(2) [OF safe app sound _ env] by (simp add: ch(4))
    have lists: "filled_full mc = []" "filled_part mc = []"
      using mc by (auto simp: calculate_align_limit_orders_impact_def run_simps market_change_new_def change_lists)
    show ?thesis using orders_after_align [OF ch(1) lists ch(4,6,7) xs(2,1)] unfolding after by blast
  qed
  then show "i \<notin> lo_id ` set xs \<Longrightarrow> v_orders (view d') (book_id book) i = v_orders (view d) (book_id book) i"
    and "x \<in> set xs \<Longrightarrow> v_orders (view d') (book_id book) (lo_id x) =
      (if too_small book x then None else if to_cut book x then Some (cut book x) else Some x)"
    by blast+
qed

end

text \<open>In closed form: the amount of every order of the batch is rounded down, and an order is gone when nothing is left.\<close>

definition aligned_to :: "balance \<Rightarrow> limit_order \<Rightarrow> limit_order option" where
  "aligned_to step x =
     (let a = inner (lo_amount x) div step * step
      in if a = 0 then None else Some (x \<lparr> lo_amount := BalanceUnit a (is_divisible (lo_amount x)) \<rparr>))"

lemma aligned_to_eq:
  assumes "order_wf d x" and "is_divisible (step_lot_size book) = d" and "0 < inner (step_lot_size book)"
  shows "(if too_small book x then None else if to_cut book x then Some (cut book x) else Some x) =
    aligned_to (inner (step_lot_size book)) x"
proof -
  let ?n = "inner (lo_amount x)" and ?s = "inner (step_lot_size book)"
  have wf: "?n \<le> u128_max" "is_divisible (lo_amount x) = d" "0 < ?n" using assms(1) by (auto simp: order_wf_def)
  have less: "lo_amount x < step_lot_size book \<longleftrightarrow> ?n < ?s"
    using assms(2) wf(2) less_same_div [of "lo_amount x" "step_lot_size book"] by simp
  have zero: "?n div ?s * ?s = 0 \<longleftrightarrow> ?n < ?s" using assms(3) by (simp add: div_eq_0_iff)
  have keep: "x \<lparr> lo_amount := BalanceUnit ?n (is_divisible (lo_amount x)) \<rparr> = x" by (cases "lo_amount x") simp
  show ?thesis
  proof (cases "?n mod ?s = 0")
    case True
    then have "?n div ?s * ?s = ?n" by auto
    then show ?thesis using True wf(3) keep by (simp add: too_small_def to_cut_def misaligned_def aligned_to_def)
  next
    case False
    then show ?thesis using less zero
      by (auto simp: too_small_def to_cut_def misaligned_def aligned_to_def cut_def align_amount_eq [OF wf(1)] Let_def)
  qed
qed

lemma align_batch:
  assumes inv: "pallet_inv env acct E p" and env: "env_ok env acct"
    and book: "map_of (OrderBooks p) obid = Some book"
    and xs: "xs = get_limit_orders sch (Books p) obid cursor n"
    and run: "align_limit_orders env (cache_data_layer (chain_config env)) book xs ((cl_new, Books p), World p) = (Inr u, (d, w))"
  shows "v_orders (cache_view d) obid i = (case v_orders (storage_view (Books p)) obid i of None \<Rightarrow> None
    | Some x \<Rightarrow> if x \<in> set xs then aligned_to (inner (step_lot_size book)) x else Some x)"
    and "storage_view (snd (cl_commit d)) = cache_view d"
proof -
  note en = pallet_inv_enter [OF inv]
  have ok: "storage_ok (Books p)" and binv: "book_inv (chain_config env) (divisible_base (Registry p) obid) obid (storage_view (Books p))"
    using inv by (simp_all add: pallet_inv_def safe_def consistent_def view_inv_def)
  note known = get_limit_orders_known [OF ok binv, of sch cursor n, folded xs]
  have bid: "book_id book = obid" and wf: "book_wf (chain_config env) (Registry p) obid book"
    using pallet_inv_ids [OF inv book] by auto
  have step: "is_divisible (step_lot_size book) = divisible_base (Registry p) (book_id book)" "0 < inner (step_lot_size book)"
    using wf bid by (auto simp: book_wf_def lots_ok_def)
  have B: "book_id book \<in> dom (map_of (OrderBooks p))" using book bid by auto
  have mem: "\<forall>x\<in>set xs. v_orders (cache_view (cl_new, Books p)) (book_id book) (lo_id x) = Some x"
    using known(1) en(2) bid by simp
  show "storage_view (snd (cl_commit d)) = cache_view d"
    by (rule safe_leave(2)) (rule cache_impl.align_safe(1) [OF en(1) run mem known(2) step pallet_inv_books [OF inv env] B])
  note eff = cache_impl.align_effect [OF en(1) run mem known(2) step pallet_inv_books [OF inv env] B, unfolded bid en(2)]
  show "v_orders (cache_view d) obid i = (case v_orders (storage_view (Books p)) obid i of None \<Rightarrow> None
    | Some x \<Rightarrow> if x \<in> set xs then aligned_to (inner (step_lot_size book)) x else Some x)"
  proof (cases "\<exists>x\<in>set xs. lo_id x = i")
    case True
    then obtain x where x: "x \<in> set xs" "lo_id x = i" by blast
    then have "v_orders (storage_view (Books p)) obid i = Some x" using known(1) by blast
    moreover have "order_wf (divisible_base (Registry p) obid) x" using binv calculation by (auto simp: book_inv_def)
    ultimately show ?thesis using eff(2) [OF x(1)] aligned_to_eq [OF _ step [unfolded bid]] x by simp
  next
    case False
    then have "x \<notin> set xs" if "v_orders (storage_view (Books p)) obid i = Some x" for x
      using binv that by (auto simp: book_inv_def)
    moreover have "i \<notin> lo_id ` set xs" using False by blast
    ultimately show ?thesis using eff(1) by (auto split: option.splits)
  qed
qed

end
