(* ===== verification/Blocks.thy ===== *)
theory Blocks
  imports Scheduler_Progress
begin

text \<open>
  The chain block by block: every block starts with an expiration pass for its number, and the calls of the
  block run under that number. Along such executions every open order whose time has not come is on the
  agenda, and no entry of the agenda lies behind the block at which the next pass starts.
\<close>

text \<open>\<open>in_block \<dots> n p\<close>: the chain has come to the state \<open>p\<close> within block \<open>n\<close>.\<close>

inductive in_block ::
  "'o runtime set \<Rightarrow> 'm meter \<Rightarrow> scheduling \<Rightarrow> chain \<Rightarrow> (order_book_id \<Rightarrow> account_id) \<Rightarrow> block \<Rightarrow> pallet \<Rightarrow> bool"
  for rts :: "'o runtime set" and mt :: "'m meter" and sch env acct where
  launch: "genesis p \<Longrightarrow> IncompleteExpirationsSince p = None \<Longrightarrow> in_block rts mt sch env acct n p"
| new_block:
    "in_block rts mt sch env acct n p \<Longrightarrow> Suc n < u32_max \<Longrightarrow> try_consume mt (service_expiration_base sch) m \<noteq> None \<Longrightarrow>
     service_expiration env mt sch (Suc n) m p = (m', p') \<Longrightarrow> in_block rts mt sch env acct (Suc n) p'"
| same_block:
    "in_block rts mt sch env acct n p \<Longrightarrow> n < u32_max \<Longrightarrow>
     block_step {rt \<in> rts. block_number rt = n} mt sch env acct p p' \<Longrightarrow> in_block rts mt sch env acct n p'"

lemma resolve_lifespan_later: "n < u32_max \<Longrightarrow> n < resolve_lifespan cfg n lifespan"
  by (auto simp: resolve_lifespan_def Let_def saturating_add_u_def u32_max_def u64_max_def)

lemma call_order_later:
  "block_number rt < u32_max \<Longrightarrow> block_number rt < lo_expires_at (call_order rt r book owner price amount side lifespan)"
  by (simp add: call_order_def lo_new_def resolve_lifespan_later)

definition on_schedule :: "chain \<Rightarrow> (order_book_id \<Rightarrow> account_id) \<Rightarrow> block \<Rightarrow> pallet \<Rightarrow> bool" where
  "on_schedule env acct n p \<longleftrightarrow>
     (\<exists>E. pallet_inv env acct E p \<and>
        (\<forall>(obid, i)\<in>E. \<forall>x. v_orders (storage_view (Books p)) obid i = Some x \<longrightarrow> lo_expires_at x \<le> n)) \<and>
     (\<forall>b. ExpirationsAgenda (World p) b \<noteq> [] \<longrightarrow> unwrap_or (IncompleteExpirationsSince p) (Suc n) \<le> b) \<and>
     (\<forall>b. IncompleteExpirationsSince p = Some b \<longrightarrow> b \<le> n)"

lemma pallet_inv_agenda: "pallet_inv env acct E p \<Longrightarrow> agenda_inv E (v_orders (storage_view (Books p))) (World p)"
  by (simp add: pallet_inv_def safe_def consistent_def)

text \<open>The orders that a step extends expire later than the current block.\<close>

lemma moves_on_schedule:
  assumes "on_schedule env acct n p" and mv: "\<And>E. pallet_inv env acct E p \<Longrightarrow> \<exists>E' N A. moves env acct E p N A E' p' \<and>
      (\<forall>x\<in>A. n < lo_expires_at x)"
  shows "on_schedule env acct n p'"
proof -
  from assms(1) obtain E where inv: "pallet_inv env acct E p"
    and off: "\<And>obid i x. (obid, i) \<in> E \<Longrightarrow> v_orders (storage_view (Books p)) obid i = Some x \<Longrightarrow> lo_expires_at x \<le> n"
    and start: "\<And>b. ExpirationsAgenda (World p) b \<noteq> [] \<Longrightarrow> unwrap_or (IncompleteExpirationsSince p) (Suc n) \<le> b"
    and inc: "\<forall>b. IncompleteExpirationsSince p = Some b \<longrightarrow> b \<le> n"
    unfolding on_schedule_def by blast
  from mv [OF inv] obtain E' N A where inv': "pallet_inv env acct E' p'"
    and ext: "extends_by (storage_view (Books p)) (storage_view (Books p')) N A"
    and E: "\<And>obid i. (obid, i) \<in> E \<Longrightarrow> v_orders (storage_view (Books p)) obid i \<noteq> None \<Longrightarrow> (obid, i) \<in> E'" "E' \<subseteq> E - N"
    and same: "IncompleteExpirationsSince p' = IncompleteExpirationsSince p" and later: "\<forall>x\<in>A. n < lo_expires_at x"
    unfolding moves_def by blast
  have "lo_expires_at y \<le> n" if "(obid, i) \<in> E'" "v_orders (storage_view (Books p')) obid i = Some y" for obid i y
    by (rule extends_by_cases [OF ext that(2)]) (use off E(2) that(1) part_ofD(5) in \<open>fastforce+\<close>)
  moreover have "unwrap_or (IncompleteExpirationsSince p') (Suc n) \<le> b" if "ExpirationsAgenda (World p') b \<noteq> []" for b
  proof -
    from that obtain obid i where "(obid, i) \<in> set (ExpirationsAgenda (World p') b)" by (metis last_in_set surj_pair)
    then obtain y where y: "(obid, i) \<notin> E'" "v_orders (storage_view (Books p')) obid i = Some y" "lo_expires_at y = b"
      using agenda_mem [OF pallet_inv_agenda [OF inv']] by blast
    show ?thesis
    proof (rule extends_by_cases [OF ext y(2)])
      fix x
      assume x: "v_orders (storage_view (Books p)) obid i = Some x" "part_of x y"
      then have "(obid, i) \<in> set (ExpirationsAgenda (World p) b)"
        using agenda_mem [OF pallet_inv_agenda [OF inv]] E(1) y(1,3) part_ofD(5) [OF x(2)] by auto
      then show ?thesis using start [of b] same by force
    next
      fix x
      assume "x \<in> A" "same_terms x y"
      then have "n < b" using later same_termsD(5) y(3) by metis
      then show ?thesis using inc same by (cases "IncompleteExpirationsSince p") auto
    qed
  qed
  moreover have "\<forall>b. IncompleteExpirationsSince p' = Some b \<longrightarrow> b \<le> n" using inc same by simp
  ultimately show ?thesis using inv' unfolding on_schedule_def by blast
qed

lemma block_step_on_schedule:
  assumes ok: "chain_ok rts env acct" and n: "n < u32_max"
    and step: "block_step {rt \<in> rts. block_number rt = n} mt sch env acct p p'" and "on_schedule env acct n p"
  shows "on_schedule env acct n p'"
proof (rule moves_on_schedule [OF assms(4)])
  fix E
  assume inv: "pallet_inv env acct E p"
  have ok': "chain_ok {rt \<in> rts. block_number rt = n} env acct" using ok by (auto simp: chain_ok_def)
  from block_step_moves [OF step inv ok'] show "\<exists>E' N A. moves env acct E p N A E' p' \<and> (\<forall>x\<in>A. n < lo_expires_at x)"
  proof
    assume "moves env acct E p {} {} E p'"
    then show ?thesis by (intro exI conjI) auto
  next
    assume "\<exists>rt\<in>{rt \<in> rts. block_number rt = n}. \<exists>origin obid price amount side lifespan who book x E'.
       dispatch rt origin (PlaceLimitOrder obid price amount side lifespan) p = (Inr (), p') \<and>
       ensure_signed rt origin = Inr who \<and> map_of (OrderBooks p) obid = Some book \<and>
       x = call_order rt (Registry p) book who price amount side lifespan \<and> moves env acct E p {(obid, lo_id x)} {x} E' p'"
    then show ?thesis
    proof (elim bexE exE conjE)
      fix rt origin obid price amount side lifespan who book x E'
      assume "rt \<in> {rt \<in> rts. block_number rt = n}" and x: "x = call_order rt (Registry p) book who price amount side lifespan"
        and mv: "moves env acct E p {(obid, lo_id x)} {x} E' p'"
      then have "n < lo_expires_at x" using call_order_later [of rt] n by (auto simp: x)
      with mv show ?thesis by (intro exI conjI) auto
    qed
  qed
qed

lemma new_block_on_schedule:
  assumes ok: "chain_ok rts env acct" and n: "Suc n < u32_max" and base: "try_consume mt (service_expiration_base sch) m \<noteq> None"
    and run: "service_expiration env mt sch (Suc n) m p = (m', p')" and "on_schedule env acct n p"
  shows "on_schedule env acct (Suc n) p'"
proof -
  have env: "env_ok env acct" "native_atomic env" using ok by (auto simp: chain_ok_def)
  from assms(5) obtain E where inv: "pallet_inv env acct E p"
    and off: "\<And>obid i x. (obid, i) \<in> E \<Longrightarrow> v_orders (storage_view (Books p)) obid i = Some x \<Longrightarrow> lo_expires_at x \<le> n"
    and start: "\<And>b. ExpirationsAgenda (World p) b \<noteq> [] \<Longrightarrow> unwrap_or (IncompleteExpirationsSince p) (Suc n) \<le> b"
    unfolding on_schedule_def by blast
  from expiration_inv [OF inv env run] obtain E' where inv': "pallet_inv env acct E' p'"
    and ext: "extends_by (storage_view (Books p)) (storage_view (Books p')) {} {}"
    and E': "E' \<subseteq> E \<union> due (v_orders (storage_view (Books p))) (Suc n)" by blast
  have "lo_expires_at y \<le> Suc n" if "(obid, i) \<in> E'" "v_orders (storage_view (Books p')) obid i = Some y" for obid i y
  proof -
    from extends_by_cases [OF ext that(2)] obtain x where x: "v_orders (storage_view (Books p)) obid i = Some x" "part_of x y" by blast
    have "lo_expires_at x \<le> Suc n" using E' that(1) off [OF _ x(1)] x(1) by (fastforce simp: due_def)
    then show ?thesis using part_ofD(5) [OF x(2)] by simp
  qed
  then show ?thesis
    using inv' expiration_agenda [OF inv env run base n start] expiration_marker [OF run base]
    unfolding on_schedule_def by auto
qed

lemma in_block_on_schedule:
  assumes "in_block rts mt sch env acct n p" and "chain_ok rts env acct"
  shows "on_schedule env acct n p"
  using assms
proof induction
  case (launch p n)
  have "pallet_inv env acct {} p" by (rule genesis_inv [OF launch(1)])
  then show ?case using launch unfolding on_schedule_def by (auto simp: genesis_def)
next
  case (new_block n p m m' p')
  then show ?case using new_block_on_schedule [of rts env acct n mt sch m p m' p'] by blast
next
  case (same_block n p p')
  then show ?case using block_step_on_schedule [of rts env acct n mt sch p p'] by blast
qed

end
