(* ===== verification/Order_Arithmetic.thy ===== *)
theory Order_Arithmetic
  imports Order_Types
begin

text \<open>
  The arithmetic of orders on the values it stands for: comparison of amounts in different units, the
  product of a price and an amount, and the block at which an order expires.
\<close>

section \<open>Amounts\<close>

text \<open>
  C26: Comparing two amounts, integer part first and then the fractional part, compares the values they
  stand for, whatever units they are in.
\<close>

theorem compare_by_value:
  "bu_cmp x y = (if bu_value x < bu_value y then Less else if bu_value x = bu_value y then Equal else Greater)"
  by (simp add: bu_cmp_value nat_cmp_def)

text \<open>
  C24: A product of two amounts is the product of their values, rounded down to the unit. The calculation
  fails only when a factor or the product is too large for the fixed-point type.
\<close>

theorem product_rounds_down:
  "case bu_checked_mul x y of
     Some z \<Rightarrow> is_divisible z = (is_divisible x \<or> is_divisible y) \<and> bu_value z = bu_value x * bu_value y div ratio
   | None \<Rightarrow> i128_max < bu_value x \<or> i128_max < bu_value y \<or> i128_max < bu_value x * bu_value y div ratio"
proof (cases "is_divisible x \<and> is_divisible y")
  case True
  then show ?thesis by (auto simp: bu_checked_mul_divisible bu_value_def)
next
  case False
  let ?n = "inner x * inner y * (if is_divisible x \<or> is_divisible y then 1 else ratio)"
  have val: "bu_value x * bu_value y div ratio = ?n"
    using False by (auto simp: bu_value_def)
  have "inner x * inner y \<le> ?n" by (simp add: ratio_def)
  then have "i128_max < ?n" if "\<not> inner x * inner y \<le> u128_max"
    using that i128_le_u128 by linarith
  then show ?thesis using False val by (auto simp: bu_checked_mul_mixed bu_value_def)
qed

section \<open>The lifespan of an order\<close>

text \<open>
  C25: An order stays open for its whole lifespan and at most one block longer than that, beside the block it
  is placed in: the blocks between the placement and the expiration cover the lifespan, and one block less
  would not.
\<close>

theorem lifespan_covered:
  assumes "0 < MILLISECS_PER_BLOCK cfg" and "MILLISECS_PER_BLOCK cfg \<le> u64_max" and "lifespan \<le> u64_max"
    and "current_block + lifespan div MILLISECS_PER_BLOCK cfg + 2 \<le> u32_max"
  shows "current_block < resolve_lifespan cfg current_block lifespan \<and>
    lifespan \<le> (resolve_lifespan cfg current_block lifespan - current_block - 1) * MILLISECS_PER_BLOCK cfg \<and>
    (resolve_lifespan cfg current_block lifespan - current_block - 1) * MILLISECS_PER_BLOCK cfg < lifespan + MILLISECS_PER_BLOCK cfg"
proof -
  let ?ms = "MILLISECS_PER_BLOCK cfg"
  let ?blocks = "if lifespan mod ?ms = 0 then lifespan div ?ms else lifespan div ?ms + 1"
  have "?blocks + 1 \<le> u32_max" "current_block + (?blocks + 1) \<le> u32_max" using assms(4) by auto
  moreover have "u32_max \<le> u64_max" by (simp add: u32_max_def u64_max_def)
  ultimately have r: "resolve_lifespan cfg current_block lifespan = current_block + (?blocks + 1)"
    using assms(2,3) by (simp add: resolve_lifespan_def Let_def saturating_add_u_def div_ceil_u_def split: if_splits)
  define n m where "n = lifespan div ?ms" and "m = lifespan mod ?ms"
  have split: "lifespan = n * ?ms + m" and less: "m < ?ms" using assms(1) by (simp_all add: n_def m_def)
  have "current_block < resolve_lifespan cfg current_block lifespan"
    and blocks: "resolve_lifespan cfg current_block lifespan - current_block - 1 = (if m = 0 then n else n + 1)"
    by (simp_all add: r n_def m_def)
  moreover have "lifespan \<le> (if m = 0 then n else n + 1) * ?ms" "(if m = 0 then n else n + 1) * ?ms < lifespan + ?ms"
    using split less by (simp_all add: add_mult_distrib)
  ultimately show ?thesis unfolding blocks by blast
qed

theorem lifespan_covered_witness:
  "resolve_lifespan runtime_config 100 60000 - 100 - 1 = 10 \<and>
   60000 \<le> (resolve_lifespan runtime_config 100 60000 - 100 - 1) * MILLISECS_PER_BLOCK runtime_config"
proof -
  have "resolve_lifespan runtime_config 100 60000 = 111"
    by (simp add: resolve_lifespan_def runtime_config_def saturating_add_u_def div_ceil_u_def u64_max_def u32_max_def)
  with lifespan_covered [of runtime_config 60000 100] show ?thesis
    by (simp add: runtime_config_def u64_max_def u32_max_def)
qed

end
