(* ===== verification/Spec2Isabelle.thy ===== *)
theory Spec2Isabelle
  imports Cache_Data_Layer Limit_Price Incidents Layer_Refinement Blocks Order_Arithmetic
begin

text \<open>
  The order book of the SORA network, from the fixed-point numbers it calculates with to the dispatchable calls
  of its pallet. All paths are relative to \<open>src/\<close>.

  \<^bold>\<open>The program.\<close> An order book (\<open>OrderBook\<close>) belongs to an exchange, a base and a quote asset. A user places a
  limit order, which locks its funds in the technical account of the book and is indexed by identifier, by price
  and by user; a market order or a swap takes the orders of the other side, best price first. A matching
  operation is calculated into a \<open>MarketChange\<close> (orders to place, fill, cancel and the payments between accounts)
  and then applied. Storage is read and written through the trait \<open>DataLayer\<close>; the calls use a layer of
  write-back caches and commit it at their end. Orders expire: an agenda lists them by block and a pass at the
  start of a block works on it within a weight limit. When the lot step of a book is changed a second pass aligns
  its orders, batch by batch.

  \<^bold>\<open>The model and the code.\<close>
  \<^item> \<open>Prelude\<close>: machine integers as natural numbers with the width written out, results as a sum type (\<open>Inl\<close> the
    error), stateful code as functions from a state to a result and the next state, a storage transaction.
    \<open>BTree_Map\<close>: Rust's \<open>BTreeMap\<close> as an ordered association list, for any key with a linear reading.
  \<^item> \<open>Fixed_Arith\<close> (\<open>vendor/fixnum\<close>, \<open>common/src/fixed_wrapper.rs\<close>), \<open>Balance_Unit\<close> (\<open>common/src/balance_unit.rs\<close>),
    \<open>Order_Arithmetic\<close>: amounts, divisible or not, and what their operations do to the values they stand for.
  \<^item> \<open>Cache_Storage\<close> (\<open>common/src/cache_storage\<close>): the caches, and that a reader cannot tell them from storage.
  \<^item> \<open>Order_Types\<close> (\<open>types.rs\<close>, \<open>limit_order.rs\<close>, \<open>market_order.rs\<close> of \<open>pallets/order-book/src\<close>): orders, payments,
    market changes and how they are merged, errors and events.
  \<^item> \<open>Data_Layer\<close> (\<open>traits.rs\<close>): the trait as a record of operations, its specification on a \<open>book_view\<close>, and the
    locale \<open>DataLayer\<close> with the laws. \<open>Storage_Data_Layer\<close> (\<open>storage_data_layer.rs\<close>) and \<open>Cache_Data_Layer\<close>
    (\<open>cache_data_layer.rs\<close>) interpret it as \<open>storage_layer\<close> and \<open>cache_impl\<close>; \<open>Layer_Refinement\<close> compares them.
  \<^item> \<open>Ledger\<close>: \<open>do_transfer\<close> of the tokens pallet, the dispatch of \<open>currencies\<close>, \<open>pallets/assets\<close> and
    \<open>pallets/technical\<close>, \<open>lock_liquidity\<close> and \<open>unlock_liquidity\<close> of the pallet. \<open>Dex_Registry\<close>: \<open>pallets/dex-manager\<close> and
    \<open>pallets/trading-pair\<close>. \<open>Expiration_Agenda\<close>: \<open>schedule_expiration\<close>, \<open>unschedule_expiration\<close> and events.
  \<^item> \<open>Order_Book\<close> (\<open>order_book.rs\<close>): \<open>place_limit_order\<close>, \<open>cross_spread\<close>, \<open>cancel_limit_order\<close>, \<open>execute_market_order\<close>,
    \<open>calculate_deal\<close>, \<open>sum_market\<close>, \<open>market_depth\<close>, \<open>align_limit_orders\<close> and \<open>apply_market_change\<close>, generic in
    the data layer as in the code.
  \<^item> \<open>Order_Book_Pallet\<close> (\<open>lib.rs\<close>): the storage of the pallet as the record \<open>pallet\<close> and the eight calls as
    the datatype \<open>call\<close> with \<open>call_body\<close>; \<open>dispatch\<close> runs one in a storage transaction. \<open>Liquidity_Source\<close> (\<open>lib.rs\<close>,
    \<open>common/src/swap_amount.rs\<close>, \<open>common/src/alt.rs\<close>): \<open>can_exchange\<close>, \<open>quote\<close>, \<open>step_quote\<close>, \<open>exchange\<close> and the check
    \<open>check_indivisible_assets\<close> of \<open>pallets/liquidity-proxy\<close>. \<open>Scheduler\<close> (\<open>scheduler.rs\<close>, \<open>common/src/weights.rs\<close>):
    the expiration and the alignment pass, \<open>on_initialize\<close>.

  \<^bold>\<open>The proofs.\<close>
  \<^item> \<open>Matching\<close>, \<open>Price_Time\<close>, \<open>Fills\<close>, \<open>Payments\<close>, \<open>Cross_Spread\<close>, \<open>Quoting\<close>, \<open>Limit_Price\<close>: what the engine calculates,
    as a function of the abstract book, proved once in the locale \<open>DataLayer\<close>: matching is one pass along a queue
    in price-time order, payments are conserved, a deal keeps within its target.
  \<^item> \<open>Apply_Change\<close>, \<open>Changes\<close>, \<open>Alignment\<close>, \<open>Solvency\<close>, \<open>Uncrossed\<close>, \<open>Operations\<close>: a calculated change agrees with the
    book and is funded, and applying it keeps the indices, the agenda, the solvency of the technical account and
    the spread. The invariant of one operation is \<open>safe\<close>.
  \<^item> \<open>Pallet_Safety\<close>, \<open>Scheduler_Safety\<close>: every call, swap and pass keeps \<open>pallet_inv env acct E p\<close>, where \<open>E\<close> are the
    open orders whose expiration has failed and which are on no agenda. \<open>Pallet_Effects\<close>: the
    exact effect of the calls on orders and balances. \<open>Scheduler_Progress\<close>: what the passes achieve.
  \<^item> \<open>Reachability\<close>: the transition system of the pallet (\<open>block_step\<close>, \<open>pallet_step\<close>, \<open>reachable\<close>) and that the
    invariant holds in every reachable state. \<open>Blocks\<close>: the same block by block (\<open>in_block\<close>).
  \<^item> \<open>Scenario\<close> and \<open>Incidents\<close>: a concrete chain with sessions of calls, on which the theorems are applied and
    on which the failures of the scheduler are run.

  This theory has the properties of the whole: the reachable states are solvent, uncrossed, consistently
  indexed and in price-time priority; placing, cancelling, market orders and swaps have exactly their effect;
  no call changes the terms of an order; creating and deleting books; expirations are not forgotten and
  alignments round down. The last two sections prove what goes wrong: an expiration that fails leaves an order
  nobody can cancel, an alignment that fails makes a book insolvent, a deleted book blocks the alignment of
  others, and a quote offers a fraction of an indivisible asset.

  \<^bold>\<open>What is assumed.\<close> Code outside the repository is a field of a parameter, and what is used of it is a
  hypothesis with a name. \<open>chain_ok\<close>: the native currency's transfers move exactly the amount and are atomic,
  and different books have different technical accounts (\<open>env_ok\<close>, \<open>native_atomic\<close>). \<open>call_fits\<close>: the arguments of
  a placement fit their 128-bit type, and no balance and no counter of identifiers has reached its maximum, which would
  make a saturating operation lose funds. Calls are not signed by technical accounts, and swaps come through the
  liquidity proxy, which refuses indivisible assets. A reachable state has only alignment passes that end
  without an error; without this solvency is lost, as the last but one section shows. Executions by block
  assume that the base weight of the expiration pass is available in every block, without which the pass
  returns before it records where to continue. The weight meter and the benchmarked weights are parameters
  without any other hypothesis; of the order of hashed keys in the trie, the continuation of a batch uses that
  different identifiers have different positions.

  \<^bold>\<open>Loops.\<close> The loops of the engine run over lists. The loop of the expiration pass over the blocks takes as many iterations
  as there are blocks from the marker to the current block. It is proved that more of them change nothing, for
  every block number below the largest of its 32-bit type.

  \<^bold>\<open>What is not modelled.\<close> The weights that calls report beyond the one of a placement, benchmarks, migrations, the
  runtime interface; \<open>on_denominate\<close> of the pallet, which changes the keys of storage maps while it iterates over
  them; minting, burning, reserves and the registration of assets; the other liquidity sources and path
  finding of the liquidity proxy; all pallets that share only the asset ledger with the order book; the node.
\<close>

section \<open>Every reachable state\<close>

text \<open>
  C1: In every state that calls, swaps, expirations, completed alignments and foreign steps reach, the
  technical account of an order book holds at least what the open orders of the book have locked: the
  base amounts of the sell orders and the quote volumes of the buy orders, each in units of its asset.
\<close>

theorem reachable_solvent:
  assumes "reachable rts mt sch env acct p" and "chain_ok rts env acct" and "map_of (OrderBooks p) obid = Some book"
  shows "(\<Sum>i\<in>dom (orders_in p obid). locked_units p obid a (the (orders_in p obid i)))
    \<le> balance_of env (World p) a (acct obid)"
proof -
  obtain E where "pallet_inv env acct E p" using reachable_inv [OF assms(1,2)] ..
  then show ?thesis using assms(3) by (auto simp: pallet_inv_def safe_def solvent_def locked_def)
qed

theorem reachable_solvent_witness:
  "map_of (OrderBooks demo_placed) demo_book \<noteq> None \<and>
   (\<Sum>i\<in>dom (orders_in demo_placed demo_book). locked_units demo_placed demo_book 1 (the (orders_in demo_placed demo_book i)))
     \<le> balance_of demo_chain (World demo_placed) 1 (demo_account demo_book)"
proof -
  obtain book where book: "map_of (OrderBooks demo_placed) demo_book = Some book" by (rule demo_placed_book)
  with reachable_solvent [OF demo_placed_reachable demo_chain_ok book] show ?thesis by simp
qed

text \<open>
  C2: In every reachable state no book is crossed: every buy order's price is strictly below every sell
  order's price.
\<close>

theorem reachable_uncrossed:
  assumes "reachable rts mt sch env acct p" and "chain_ok rts env acct"
    and "orders_in p obid i = Some x" and "lo_side x = Buy" and "orders_in p obid j = Some y" and "lo_side y = Sell"
  shows "lo_price x < lo_price y"
  using reachable_inv [OF assms(1,2)] assms(3-6) by (auto simp: pallet_inv_def uncrossed_def)

theorem reachable_uncrossed_witness:
  "orders_in demo_both demo_book 1 = Some demo_order \<and> orders_in demo_both demo_book 2 = Some demo_bid \<and>
   lo_price demo_bid < lo_price demo_order"
  using reachable_uncrossed [OF demo_both_reachable demo_chain_ok demo_both_orders(2) _ demo_both_orders(1)] demo_both_orders
  by (simp add: demo_order_def demo_bid_def)

text \<open>
  C14: In every reachable state the indices of the storage agree with the orders of every book. Each order
  is stored under its own identifier with a positive price and amount in the divisibility of the book; a
  price level lists each of its orders once, within \<open>MaxLimitOrdersForPrice\<close>; the aggregated side is sorted
  by price, within \<open>MaxSidePriceCount\<close>, and holds at each price the volume of the level; the index of the
  users lists each order of a user once, within \<open>MaxOpenedLimitOrdersPerUser\<close>.
\<close>

theorem reachable_indices:
  assumes "reachable rts mt sch env acct p" and "chain_ok rts env acct"
  shows "book_inv (chain_config env) (divisible_base (Registry p) obid) obid (storage_view (Books p))"
  using reachable_inv [OF assms] by (auto simp: pallet_inv_def safe_def consistent_def view_inv_def)

theorem reachable_indices_witness:
  "book_inv runtime_config True demo_book (storage_view (Books demo_placed)) \<and> orders_in demo_placed demo_book 1 = Some demo_order"
  using reachable_indices [OF demo_placed_reachable demo_chain_ok, of demo_book] demo_placed_orders demo_placed_divisible
  by (simp add: demo_config)

text \<open>
  C16: In every reachable state the expiration agenda of a block lists no order twice, and every entry is
  an open order that expires at that block.
\<close>

theorem reachable_agenda:
  assumes "reachable rts mt sch env acct p" and "chain_ok rts env acct"
  shows "distinct (ExpirationsAgenda (World p) b) \<and>
    ((obid, i) \<in> set (ExpirationsAgenda (World p) b) \<longrightarrow> (\<exists>x. orders_in p obid i = Some x \<and> lo_expires_at x = b))"
proof -
  obtain E where "agenda_inv E (orders_in p) (World p)"
    using reachable_inv [OF assms] by (auto simp: pallet_inv_def safe_def consistent_def)
  then show ?thesis using agenda_mem agenda_distinct by fastforce
qed

theorem reachable_agenda_witness:
  "(demo_book, 1) \<in> set (ExpirationsAgenda (World demo_placed) (lo_expires_at demo_order)) \<and>
   (\<exists>x. orders_in demo_placed demo_book 1 = Some x \<and> lo_expires_at x = lo_expires_at demo_order)"
  using reachable_agenda [OF demo_placed_reachable demo_chain_ok, of "lo_expires_at demo_order" demo_book 1] demo_placed_agenda
  by blast

text \<open>
  C17: In every reachable state the attributes of every book are well-formed. Tick and step are positive,
  \<open>step \<le> min \<le> max \<le> SOFT_MIN_MAX_RATIO * min\<close> for the lot sizes, the step divides both, and all are in the
  divisibility of the base asset. A book that is being realigned accepts no orders and has an alignment
  cursor, so the alignment pass will reach it.
\<close>

theorem reachable_books:
  assumes "reachable rts mt sch env acct p" and "chain_ok rts env acct" and "map_of (OrderBooks p) obid = Some book"
  shows "book_wf (chain_config env) (Registry p) obid book \<and>
    (tech_status book = Updating \<longrightarrow>
       (book_status book = OnlyCancel \<or> book_status book = Stop) \<and> map_of (AlignmentCursor p) obid \<noteq> None)"
proof -
  obtain E where "pallet_inv env acct E p" using reachable_inv [OF assms(1,2)] ..
  then have "book_wf (chain_config env) (Registry p) obid book"
    "tech_status book = Updating \<longrightarrow> obid \<in> fst ` set (AlignmentCursor p)"
    using assms(3) by (auto simp: pallet_inv_def cursors_ok_def)
  then show ?thesis by (auto simp: book_wf_def map_of_eq_None_iff)
qed

theorem reachable_books_witness:
  "\<exists>book. map_of (OrderBooks demo_placed) demo_book = Some book \<and>
     lots_ok runtime_config (10 ^ 15) (10 ^ 15) (10 ^ 18) (100 * 10 ^ 18)"
proof -
  obtain book where book: "map_of (OrderBooks demo_placed) demo_book = Some book"
    and "inner (tick_size book) = 10 ^ 15" "inner (step_lot_size book) = 10 ^ 15"
      "inner (min_lot_size book) = 10 ^ 18" "inner (max_lot_size book) = 100 * 10 ^ 18"
    by (rule demo_placed_book)
  with reachable_books [OF demo_placed_reachable demo_chain_ok book] show ?thesis
    by (auto simp: book_wf_def demo_config)
qed

text \<open>
  C5: In every reachable state the queue along which an incoming order is matched has price-time priority:
  better prices come first, and among orders of one price the one placed first, which has the smaller
  identifier. The queue contains exactly the open orders of the other side, each once, and the identifiers
  are those that the book has given out.
\<close>

theorem reachable_priority:
  fixes obid direction
  assumes "reachable rts mt sch env acct p" and "chain_ok rts env acct"
  defines "queue \<equiv> best_queue (storage_view (Books p)) obid direction"
  shows "sorted_wrt (\<lambda>x y. better_price direction (lo_price x) (lo_price y) \<or> lo_price x = lo_price y \<and> lo_id x < lo_id y) queue \<and>
    distinct (map lo_id queue) \<and>
    (x \<in> set queue \<longleftrightarrow> orders_in p obid (lo_id x) = Some x \<and> lo_side x = switched direction) \<and>
    (x \<in> set queue \<longrightarrow> (\<exists>book. map_of (OrderBooks p) obid = Some book \<and> lo_id x \<in> {1..last_order_id book}))"
proof -
  obtain E where pinv: "pallet_inv env acct E p" using reachable_inv [OF assms(1,2)] ..
  then have inv: "book_inv (chain_config env) (divisible_base (Registry p) obid) obid (storage_view (Books p))"
    and levels: "\<And>q pr. v_level (storage_view (Books p)) (switched direction) obid pr = Some q \<Longrightarrow> sorted_wrt (<) q"
    by (auto simp: pallet_inv_def safe_def consistent_def view_inv_def queues_ordered_def)
  have mem: "x \<in> set queue \<longleftrightarrow> orders_in p obid (lo_id x) = Some x \<and> lo_side x = switched direction"
    unfolding queue_def using best_queue_member [OF inv] best_queue_complete [OF inv] by blast
  moreover have "x \<in> set queue \<longrightarrow> (\<exists>book. map_of (OrderBooks p) obid = Some book \<and> lo_id x \<in> {1..last_order_id book})"
    using mem pallet_inv_known [OF pinv, of obid "lo_id x"] by (metis option.distinct(1))
  moreover have "sorted_wrt (\<lambda>x y. better_price direction (lo_price x) (lo_price y) \<or> lo_price x = lo_price y \<and> lo_id x < lo_id y) queue"
    unfolding queue_def by (rule best_queue_time [OF inv levels])
  ultimately show ?thesis using best_queue_sorted(2) [OF inv] unfolding queue_def by blast
qed

theorem reachable_priority_witness:
  "demo_order \<in> set (best_queue (storage_view (Books demo_placed)) demo_book Buy)"
  using reachable_priority [OF demo_placed_reachable demo_chain_ok, where direction = Buy and x = demo_order]
    demo_placed_orders
  by (simp add: demo_order_def)

section \<open>The effect of the calls\<close>

text \<open>
  C3: A limit order that no open order of the other side crosses is placed as it is: the book gains exactly
  this order under the next identifier, and its owner pays exactly what the order locks; no other order
  of any book and no other account outside the technical accounts changes.
\<close>

theorem place_exact:
  assumes "reachable rts mt sch env acct p" and "chain_ok rts env acct" and "rt \<in> rts"
    and run: "dispatch rt origin (PlaceLimitOrder obid price amount side lifespan) p = (Inr u, p')"
    and signer: "not_signed_by rt origin (range acct)"
    and args: "call_fits env (range acct) p (PlaceLimitOrder obid price amount side lifespan)"
    and plain: "\<forall>i y. orders_in p obid i = Some y \<longrightarrow> lo_side y = switched side \<longrightarrow>
      (case side of Buy \<Rightarrow> divisible price < lo_price y | Sell \<Rightarrow> lo_price y < divisible price)"
  shows "\<exists>book who x. map_of (OrderBooks p) obid = Some book \<and> ensure_signed rt origin = Inr who \<and>
    x = lo_new (chain_config env) (Suc (last_order_id book)) who side (divisible price) (volume_for (Registry p) obid amount)
          (Time_now rt) (unwrap_or lifespan (MAX_ORDER_LIFESPAN (chain_config env))) (block_number rt) \<and>
    orders_in p obid (lo_id x) = None \<and>
    orders_in p' = (orders_in p) (obid := (orders_in p obid)(lo_id x \<mapsto> x)) \<and>
    (\<forall>a y. y \<notin> range acct \<longrightarrow> balance_of env (World p') a y + (if y = who then locked_units p obid a x else 0) =
      balance_of env (World p) a y)"
proof -
  from assms(2,3) have env: "env_ok env acct" and rt: "chain_of rt = env" by (auto simp: chain_ok_def)
  obtain E where inv: "pallet_inv env acct E p" using reachable_inv [OF assms(1,2)] ..
  from place_effect [OF inv env rt run signer args] obtain book who x
    where f: "map_of (OrderBooks p) obid = Some book" "ensure_signed rt origin = Inr who"
      "x = call_order rt (Registry p) book who price amount side lifespan" "orders_in p obid (lo_id x) = None"
      "\<not> spec_crosses (storage_view (Books p)) obid x \<longrightarrow>
        orders_in p' = (orders_in p) (obid := (orders_in p obid)(lo_id x \<mapsto> x)) \<and>
        (\<forall>a y. y \<notin> range acct \<longrightarrow> balance_of env (World p') a y + (if y = who then locked_units p obid a x else 0) =
          balance_of env (World p) a y)"
    by blast
  have lx: "lo_side x = side" "lo_price x = divisible price" by (simp_all add: f(3))
  have "\<not> spec_crosses (storage_view (Books p)) obid x"
    by (rule pallet_not_crossing [OF inv]) (use plain in \<open>unfold lx, blast\<close>)
  with f(5) have eff: "orders_in p' = (orders_in p) (obid := (orders_in p obid)(lo_id x \<mapsto> x))"
    "\<forall>a y. y \<notin> range acct \<longrightarrow> balance_of env (World p') a y + (if y = who then locked_units p obid a x else 0) =
      balance_of env (World p) a y" by blast+
  have "book_id book = obid" using pallet_inv_ids [OF inv f(1)] by simp
  then have "x = lo_new (chain_config env) (Suc (last_order_id book)) who side (divisible price) (volume_for (Registry p) obid amount)
      (Time_now rt) (unwrap_or lifespan (MAX_ORDER_LIFESPAN (chain_config env))) (block_number rt)"
    by (simp add: f(3) call_order_def rt)
  with f(1,2,4) eff show ?thesis by blast
qed

lemma demo_sell_premises:
  "not_signed_by demo_runtime (Some 2) (range demo_account)"
  "call_fits demo_chain (range demo_account) demo_created (PlaceLimitOrder demo_book (2 * 10 ^ 18) (5 * 10 ^ 18) Sell None)"
  "\<forall>i y. orders_in demo_created demo_book i = Some y \<longrightarrow> lo_side y = switched Sell \<longrightarrow>
      (case Sell of Buy \<Rightarrow> divisible (2 * 10 ^ 18) < lo_price y | Sell \<Rightarrow> lo_price y < divisible (2 * 10 ^ 18))"
  by (rule demo_signer, simp) (simp_all add: u128_max_def demo_created_empty created_limits)

theorem place_exact_witness:
  "orders_in demo_created demo_book 1 = None \<and> orders_in demo_placed demo_book 1 = Some demo_order \<and>
   balance_of demo_chain (World demo_placed) 1 2 + 5 * 10 ^ 18 = balance_of demo_chain (World demo_created) 1 2"
proof -
  from place_exact [OF demo_created_reachable demo_chain_ok insertI1 demo_sell_run [unfolded demo_sell_def] demo_sell_premises]
  obtain book :: order_book and who x where who: "ensure_signed demo_runtime (Some 2) = Inr who"
    and x: "x = lo_new (chain_config demo_chain) (Suc (last_order_id book)) who Sell (divisible (2 * 10 ^ 18))
      (volume_for (Registry demo_created) demo_book (5 * 10 ^ 18)) (Time_now demo_runtime)
      (unwrap_or None (MAX_ORDER_LIFESPAN (chain_config demo_chain))) (block_number demo_runtime)"
    and eff: "\<forall>a y. y \<notin> range demo_account \<longrightarrow> balance_of demo_chain (World demo_placed) a y +
       (if y = who then locked_units demo_created demo_book a x else 0) = balance_of demo_chain (World demo_created) a y"
    by blast
  have "who = 2" using who by (simp add: demo_runtime_def ok_or_def)
  moreover have "locked_units demo_created demo_book 1 x = 5 * 10 ^ 18"
    by (simp add: x lo_new_def lock_units_def volume_for_def demo_book_def)
  ultimately show ?thesis using eff [rule_format, OF demo_account_even, of 2 1] demo_placed_orders
    by (simp add: demo_created_empty)
qed

text \<open>
  C4: A cancellation that succeeds was signed by the owner of an open order. It removes exactly this
  order and gives its owner exactly what the order had locked; no other order and no other account
  outside the technical accounts changes.
\<close>

theorem cancel_exact:
  assumes "reachable rts mt sch env acct p" and "chain_ok rts env acct" and "rt \<in> rts"
    and run: "dispatch rt origin (CancelLimitOrder obid i) p = (Inr u, p')"
  shows "\<exists>x. ensure_signed rt origin = Inr (lo_owner x) \<and> orders_in p obid i = Some x \<and>
    orders_in p' = (orders_in p) (obid := (orders_in p obid)(i := None)) \<and>
    (\<forall>a y. y \<notin> range acct \<longrightarrow> balance_of env (World p') a y =
      balance_of env (World p) a y + (if y = lo_owner x then locked_units p obid a x else 0))"
proof -
  from assms(2,3) have env: "env_ok env acct" and rt: "chain_of rt = env" by (auto simp: chain_ok_def)
  obtain E where inv: "pallet_inv env acct E p" using reachable_inv [OF assms(1,2)] ..
  show ?thesis by (rule cancel_effect [OF inv env rt run])
qed

theorem cancel_exact_witness:
  "orders_in demo_placed demo_book 1 = Some demo_order \<and> orders_in demo_cancelled demo_book 1 = None \<and>
   balance_of demo_chain (World demo_cancelled) 1 2 = balance_of demo_chain (World demo_placed) 1 2 + 5 * 10 ^ 18"
proof -
  from cancel_exact [OF demo_placed_reachable demo_chain_ok insertI1 demo_cancel_run [unfolded demo_cancel_def]]
  obtain x where x: "orders_in demo_placed demo_book 1 = Some x"
    and *: "orders_in demo_cancelled = (orders_in demo_placed) (demo_book := (orders_in demo_placed demo_book)(1 := None))"
    "\<forall>a y. y \<notin> range demo_account \<longrightarrow> balance_of demo_chain (World demo_cancelled) a y =
      balance_of demo_chain (World demo_placed) a y + (if y = lo_owner x then locked_units demo_placed demo_book a x else 0)"
    by blast
  have x: "x = demo_order" using x demo_placed_orders by simp
  show ?thesis
    using *(2) [rule_format, OF demo_account_even, of 2 1] demo_placed_orders
    by (simp add: *(1) x demo_order_def lock_units_def demo_book_def)
qed

text \<open>
  C9: Placing a limit order that crosses nothing and cancelling it again gives back the same orders in every
  book and the same balances of every account outside the technical accounts.
\<close>

theorem place_cancel_roundtrip:
  assumes "reachable rts mt sch env acct p" and "chain_ok rts env acct" and "rt \<in> rts"
    and place: "dispatch rt origin (PlaceLimitOrder obid price amount side lifespan) p = (Inr u, p1)"
    and signer: "not_signed_by rt origin (range acct)"
    and args: "call_fits env (range acct) p (PlaceLimitOrder obid price amount side lifespan)"
    and plain: "\<forall>i y. orders_in p obid i = Some y \<longrightarrow> lo_side y = switched side \<longrightarrow>
      (case side of Buy \<Rightarrow> divisible price < lo_price y | Sell \<Rightarrow> lo_price y < divisible price)"
    and book: "map_of (OrderBooks p) obid = Some book"
    and cancel: "dispatch rt origin (CancelLimitOrder obid (Suc (last_order_id book))) p1 = (Inr u', p2)"
  shows "orders_in p2 = orders_in p \<and> (\<forall>a y. y \<notin> range acct \<longrightarrow> balance_of env (World p2) a y = balance_of env (World p) a y)"
proof -
  from assms(2,3) have env: "env_ok env acct" and rt: "chain_of rt = env" by (auto simp: chain_ok_def)
  obtain E where inv: "pallet_inv env acct E p" using reachable_inv [OF assms(1,2)] ..
  have "\<not> spec_crosses (storage_view (Books p)) obid x" if "lo_side x = side" "lo_price x = divisible price" for x
    by (rule pallet_not_crossing [OF inv]) (use plain in \<open>unfold that, blast\<close>)
  from place_cancel [OF inv env rt place signer args book this cancel] show ?thesis by blast
qed

theorem place_cancel_roundtrip_witness:
  "orders_in demo_placed demo_book 1 = Some demo_order \<and> orders_in demo_cancelled = orders_in demo_created \<and>
   balance_of demo_chain (World demo_cancelled) 1 2 = balance_of demo_chain (World demo_created) 1 2"
proof -
  obtain book where book: "map_of (OrderBooks demo_created) demo_book = Some book" and last: "last_order_id book = 0"
    by (rule demo_created_book)
  have cancel: "dispatch demo_runtime (Some 2) (CancelLimitOrder demo_book (Suc (last_order_id book))) demo_placed = (Inr (), demo_cancelled)"
    using demo_cancel_run by (simp add: demo_cancel_def last)
  from place_cancel_roundtrip [OF demo_created_reachable demo_chain_ok insertI1 demo_sell_run [unfolded demo_sell_def]
      demo_sell_premises book cancel]
  show ?thesis using demo_account_even [of 2] demo_placed_orders by (simp add: u128_max_def)
qed

text \<open>
  C18: What cancelling an open order by its owner answers. It is refused in a stopped book, it fails if the
  refund of the locked amount fails, and otherwise it succeeds exactly if the order is on the expiration
  agenda.
\<close>

theorem cancel_outcome:
  assumes "reachable rts mt sch env acct p" and "chain_ok rts env acct" and "rt \<in> rts"
    and book: "map_of (OrderBooks p) obid = Some book" and x: "orders_in p obid i = Some x"
    and who: "ensure_signed rt origin = Inr (lo_owner x)"
  shows "fst (dispatch rt origin (CancelLimitOrder obid i) p) =
    (if book_status book = Stop then Inl CancellationOfLimitOrdersIsForbidden
     else and_then (deal_amount x Taker None) (\<lambda>r.
       and_then (fst (transfer_out env (associated_asset r obid) (tech_account_for_order_book obid) (lo_owner x)
         (inner (amount_value r)) (World p))) (\<lambda>_.
       if (obid, i) \<in> set (ExpirationsAgenda (World p) (lo_expires_at x)) then Inr () else Inl ExpirationNotFound)))"
proof -
  from assms(2,3) have rt: "chain_of rt = env" by (auto simp: chain_ok_def)
  obtain E where inv: "pallet_inv env acct E p" using reachable_inv [OF assms(1,2)] ..
  show ?thesis using cancel_call_result [OF inv rt book x who] by (simp only: refund_def)
qed

theorem cancel_outcome_witness:
  "fst (transfer_out demo_chain 1 (tech_account_for_order_book demo_book) 2 (5 * 10 ^ 18) (World demo_placed)) = Inr ()"
proof -
  obtain book where book: "map_of (OrderBooks demo_placed) demo_book = Some book" and status: "book_status book = Trade"
    by (rule demo_placed_book)
  have who: "ensure_signed demo_runtime (Some 2) = Inr (lo_owner demo_order)" by (simp add: demo_runtime_def ok_or_def demo_order_def)
  have deal: "deal_amount demo_order Taker None = Inr (Base (divisible (5 * 10 ^ 18)))" by (simp add: deal_amount_def demo_order_def exec_simps)
  from cancel_outcome [OF demo_placed_reachable demo_chain_ok insertI1 book demo_placed_orders who]
  have "Inr () = and_then (fst (transfer_out demo_chain 1 (tech_account_for_order_book demo_book) 2 (5 * 10 ^ 18) (World demo_placed)))
      (\<lambda>_. if (demo_book, 1) \<in> set (ExpirationsAgenda (World demo_placed) (lo_expires_at demo_order)) then Inr () else Inl ExpirationNotFound)"
    using demo_cancel_run deal by (simp add: status demo_cancel_def demo_order_def demo_book_def)
  then show ?thesis
    by (cases "fst (transfer_out demo_chain 1 (tech_account_for_order_book demo_book) 2 (5 * 10 ^ 18) (World demo_placed))") simp_all
qed

text \<open>
  C10: A market order that succeeds is filled completely along the matching queue. The orders it reaches are
  removed, the last one may be reduced; every maker is paid for exactly its fill at its own price, the
  taker pays the sum of these payments and receives what the makers gave.
\<close>

theorem execute_exact:
  fixes obid dir
  assumes "reachable rts mt sch env acct p" and "chain_ok rts env acct" and "rt \<in> rts"
    and run: "dispatch rt origin (ExecuteMarketOrder obid dir amount) p = (Inr u, p')"
    and who: "ensure_signed rt origin = Inr who" "who \<notin> range acct"
  defines "fs \<equiv> fills amount (best_queue (storage_view (Books p)) obid dir)"
  shows "taken fs = amount \<and>
    orders_in p' = (orders_in p) (obid := after_fills False fs (orders_in p obid)) \<and>
    (\<forall>a y. y \<notin> range acct \<longrightarrow>
      balance_of env (World p') a y + (if a = maker_out_asset obid dir \<and> y = who then maker_sum dir False fs else 0) =
      balance_of env (World p) a y +
       (if a = maker_out_asset obid dir then maker_paid dir False fs y
        else if a = taker_out_asset obid dir \<and> y = who then taker_sum dir False fs else 0))"
proof -
  from assms(2,3) have env: "env_ok env acct" and rt: "chain_of rt = env" by (auto simp: chain_ok_def)
  obtain E where inv: "pallet_inv env acct E p" using reachable_inv [OF assms(1,2)] ..
  note eff = execute_effect [OF inv env rt run who, folded fs_def]
  show ?thesis by (intro conjI allI impI eff(1) eff(2)) (rule eff(3))
qed

theorem execute_exact_witness:
  "balance_of demo_chain (World nft_traded) 2 4 = balance_of demo_chain (World nft_placed) 2 4 + 4"
proof -
  let ?fs = "fills 4 (best_queue (storage_view (Books nft_placed)) nft_book Buy)"
  have who: "ensure_signed demo_runtime (Some 4) = Inr 4" "4 \<notin> range demo_account"
    by (simp_all add: demo_runtime_def ok_or_def demo_account_even)
  note eff = execute_exact [OF nft_placed_reachable demo_chain_ok insertI1 nft_buy_run [unfolded nft_buy_def] who]
  have "taker_sum Buy False ?fs = taken ?fs" by (simp add: taker_sum_def taken_def taker_units_def case_prod_unfold)
  then have sum: "taker_sum Buy False ?fs = 4" using eff by simp
  have assets: "maker_out_asset nft_book Buy = 0" "taker_out_asset nft_book Buy = 2"
    by (simp_all add: maker_out_asset_def taker_out_asset_def nft_book_def)
  show ?thesis
    using eff [THEN conjunct2, THEN conjunct2, rule_format, OF who(2), of 2] by (simp add: assets sum)
qed

text \<open>
  C6: A swap that succeeds keeps the caller's bounds: with a desired input the sender pays at most this input
  and the receiver gets at least the minimal output, with a desired output the receiver gets at most this
  output and the sender pays at most the maximal input. The reported
  amount is the one that was moved, only the sender, the receiver and owners of open orders are affected, and
  what these owners are paid adds up to what the sender pays.
\<close>

theorem exchange_exact:
  assumes "reachable rts mt sch env acct p" and "chain_ok rts env acct" and "rt \<in> rts"
    and run: "exchange rt sender receiver dex inp outp desired p = (Inr out, p')"
    and check: "check_indivisible_assets (Registry p) inp outp = Inr ()"
    and parties: "sender \<notin> range acct" "receiver \<notin> range acct"
  shows "\<exists>paid got share. outcome_amount out = (case desired of SwapWithDesiredInput _ _ \<Rightarrow> got | SwapWithDesiredOutput _ _ \<Rightarrow> paid) \<and>
    (case desired of SwapWithDesiredInput amount_in min_out \<Rightarrow> paid \<le> amount_in \<and> min_out \<le> got
      | SwapWithDesiredOutput amount_out max_in \<Rightarrow> got \<le> amount_out \<and> paid \<le> max_in) \<and>
    (\<forall>a y. y \<notin> range acct \<longrightarrow>
      balance_of env (World p') a y + (if a = inp \<and> y = sender then paid else 0) =
      balance_of env (World p) a y + (if a = inp then share y else if a = outp \<and> y = receiver then got else 0)) \<and>
    (\<Sum>y | share y \<noteq> 0. share y) = paid \<and>
    (\<forall>y. share y \<noteq> 0 \<longrightarrow> (\<exists>obid i x. orders_in p obid i = Some x \<and> lo_owner x = y))"
proof -
  from assms(2,3) have env: "env_ok env acct" and rt: "chain_of rt = env" by (auto simp: chain_ok_def)
  obtain E where inv: "pallet_inv env acct E p" using reachable_inv [OF assms(1,2)] ..
  show ?thesis by (rule exchange_effect [OF inv env rt run check parties])
qed

theorem exchange_exact_witness:
  "balance_of demo_chain (World demo_swapped) 1 4 = balance_of demo_chain (World demo_placed) 1 4 + 2 * 10 ^ 18"
proof -
  obtain out where run: "demo_swap demo_placed = (Inr out, demo_swapped)" and out: "outcome_amount out = 2 * 10 ^ 18"
    by (rule demo_swap_run)
  have out4: "4 \<notin> range demo_account" by (simp add: demo_account_even)
  from exchange_exact [OF demo_placed_reachable demo_chain_ok insertI1 run [unfolded demo_swap_def] demo_swap_check out4 out4]
  obtain paid got share where "outcome_amount out = got"
    and bal: "\<forall>a y. y \<notin> range demo_account \<longrightarrow>
      balance_of demo_chain (World demo_swapped) a y + (if a = 0 \<and> y = 4 then paid else 0) =
      balance_of demo_chain (World demo_placed) a y + (if a = 0 then share y else if a = 1 \<and> y = 4 then got else 0)"
    by auto
  then show ?thesis using bal [rule_format, OF out4, of 1] out by simp
qed

text \<open>
  C15: An incoming limit order that crosses the spread trades only with orders whose price it accepts, at most
  its own price for a buy order and at least its own price for a sell order, whenever the part that the
  other side cannot take at this price is nothing or at least a minimal lot.
\<close>

theorem limit_price_respected:
  assumes "reachable rts mt sch env acct p" and "chain_ok rts env acct" and book: "map_of (OrderBooks p) obid = Some book"
    and run: "cross_spread (cache_data_layer (chain_config env)) book x (cl_new, Books p) = (Inr mc, d)"
    and wf: "order_wf (divisible_base (Registry p) obid) x"
    and depth: "calculate_market_depth_volume_to_price (switched (lo_side x)) (lo_price x) (lo_amount x)
      (market_view (storage_view (Books p)) obid (lo_side x)) = (m0, l0)"
    and l0: "bu_is_zero l0 \<or> min_lot_size book \<le> l0"
    and y: "y \<in> snd ` set (to_full_execute mc) \<union> fst ` snd ` set (to_part_execute mc)"
  shows "case lo_side x of Buy \<Rightarrow> lo_price y \<le> lo_price x | Sell \<Rightarrow> lo_price x \<le> lo_price y"
proof -
  obtain E where inv: "pallet_inv env acct E p" using reachable_inv [OF assms(1,2)] ..
  have binv: "book_inv (chain_config env) (divisible_base (Registry p) obid) obid (storage_view (Books p))"
    and "storage_ok (Books p)"
    using inv by (simp_all add: pallet_inv_def safe_def consistent_def view_inv_def)
  then have ok: "cache_ok (cl_new, Books p)" and view: "cache_view (cl_new, Books p) = storage_view (Books p)"
    using cl_new_view [of "Books p"] by simp_all
  have wfb: "book_wf (chain_config env) (Registry p) obid book" using inv book by (simp add: pallet_inv_def)
  then have id: "book_id book = obid" and assets: "ob_base obid \<noteq> ob_quote obid" by (simp_all add: book_wf_def)
  have "view_inv (chain_config env) (divisible_base (Registry p)) (cache_view (cl_new, Books p))"
    using inv by (simp add: view pallet_inv_def safe_def consistent_def)
  then have spec: "spec_cross_spread book (storage_view (Books p)) x = Inr mc"
    using reads_run(1) [OF cache_impl.cross_spread_reads [OF ok] run] binv by (simp add: view id)
  have "y \<in> set (filled_full mc @ filled_part mc)" using y by (force simp: filled_full_def filled_part_def)
  from cross_spread_prices [OF spec _ wf _ _ l0 this, unfolded id, OF binv assets depth]
  show ?thesis by (simp add: accepts_price_def)
qed

definition demo_taker :: limit_order where
  "demo_taker = demo_bid \<lparr> lo_price := divisible (25 * 10 ^ 17) \<rparr>"

definition taker_check :: "pallet \<Rightarrow> bool" where
  "taker_check p \<longleftrightarrow>
     (case map_of (OrderBooks p) demo_book of None \<Rightarrow> False
      | Some book \<Rightarrow>
          (case cross_spread (cache_data_layer runtime_config) book demo_taker (cl_new, Books p) of
             (Inl _, _) \<Rightarrow> False
           | (Inr mc, _) \<Rightarrow> map (lo_price \<circ> fst \<circ> snd) (to_part_execute mc) = [divisible (2 * 10 ^ 18)]) \<and>
          bu_is_zero (snd (calculate_market_depth_volume_to_price Sell (divisible (25 * 10 ^ 17)) (divisible (3 * 10 ^ 18))
            (market_view (storage_view (Books p)) demo_book Buy))))"

lemma taker_checks: "taker_check demo_placed"
  by code_simp

theorem limit_price_respected_witness: "divisible (2 * 10 ^ 18) \<le> lo_price demo_taker"
proof -
  obtain book mc d where book: "map_of (OrderBooks demo_placed) demo_book = Some book"
    and run: "cross_spread (cache_data_layer (chain_config demo_chain)) book demo_taker (cl_new, Books demo_placed) = (Inr mc, d)"
    and part: "map (lo_price \<circ> fst \<circ> snd) (to_part_execute mc) = [divisible (2 * 10 ^ 18)]"
    and zero: "bu_is_zero (snd (calculate_market_depth_volume_to_price Sell (divisible (25 * 10 ^ 17)) (divisible (3 * 10 ^ 18))
            (market_view (storage_view (Books demo_placed)) demo_book Buy)))"
    using taker_checks by (auto simp: taker_check_def demo_config split: option.splits prod.splits sum.splits)
  have terms: "lo_side demo_taker = Buy" "lo_price demo_taker = divisible (25 * 10 ^ 17)" "lo_amount demo_taker = divisible (3 * 10 ^ 18)"
    by (simp_all add: demo_taker_def demo_bid_def)
  have wf: "order_wf (divisible_base (Registry demo_placed) demo_book) demo_taker"
    by (simp add: order_wf_def terms demo_placed_divisible u128_max_def)
  obtain z where z: "z \<in> set (to_part_execute mc)" "lo_price (fst (snd z)) = divisible (2 * 10 ^ 18)" using part by auto
  have depth: "calculate_market_depth_volume_to_price (switched (lo_side demo_taker)) (lo_price demo_taker) (lo_amount demo_taker)
      (market_view (storage_view (Books demo_placed)) demo_book (lo_side demo_taker)) =
      (fst (calculate_market_depth_volume_to_price Sell (divisible (25 * 10 ^ 17)) (divisible (3 * 10 ^ 18))
        (market_view (storage_view (Books demo_placed)) demo_book Buy)),
       snd (calculate_market_depth_volume_to_price Sell (divisible (25 * 10 ^ 17)) (divisible (3 * 10 ^ 18))
        (market_view (storage_view (Books demo_placed)) demo_book Buy)))"
    by (simp add: terms)
  from limit_price_respected [OF demo_placed_reachable demo_chain_ok book run wf depth, of "fst (snd z)"] zero z
  show ?thesis by (simp add: terms)
qed

text \<open>
  C8: No call changes the terms of an order: every order after a call is an order from before with the same
  owner, side, price and expiration and at most its amount, or it is the new order of the signer who placed a
  limit order in this book at this price.
\<close>

theorem orders_keep_terms:
  assumes "reachable rts mt sch env acct p" and "chain_ok rts env acct" and "rt \<in> rts"
    and run: "dispatch rt origin c p = (r, p')"
    and signer: "not_signed_by rt origin (range acct)" and args: "call_fits env (range acct) p c"
    and y: "orders_in p' obid i = Some y"
  shows "(\<exists>x. orders_in p obid i = Some x \<and> y = x \<lparr> lo_amount := lo_amount y \<rparr> \<and> inner (lo_amount y) \<le> inner (lo_amount x)) \<or>
    (\<exists>price amount lifespan. orders_in p obid i = None \<and> c = PlaceLimitOrder obid price amount (lo_side y) lifespan \<and>
       lo_price y = divisible price \<and> ensure_signed rt origin = Inr (lo_owner y))"
proof -
  from assms(2,3) have env: "env_ok env acct" and rt: "chain_of rt = env" by (auto simp: chain_ok_def)
  obtain E where inv: "pallet_inv env acct E p" using reachable_inv [OF assms(1,2)] ..
  from dispatch_moves [OF inv env rt signer args run] show ?thesis
  proof (elim disjE exE conjE)
    assume "moves env acct E p {} {} E p'"
    then have "extends_by (storage_view (Books p)) (storage_view (Books p')) {} {}" by (simp add: moves_def)
    from extends_by_cases [OF this y] obtain x where "orders_in p obid i = Some x" "part_of x y" by blast
    then show ?thesis by (auto simp: part_of_def same_terms_def)
  next
    fix o' price amount side lifespan who book x E'
    assume c: "c = PlaceLimitOrder o' price amount side lifespan" and who: "ensure_signed rt origin = Inr who"
      and book: "map_of (OrderBooks p) o' = Some book" and x: "x = call_order rt (Registry p) book who price amount side lifespan"
      and "moves env acct E p {(o', lo_id x)} {x} E' p'"
    then have ext: "extends_by (storage_view (Books p)) (storage_view (Books p')) {(o', lo_id x)} {x}" by (simp add: moves_def)
    show ?thesis
    proof (rule extends_by_cases [OF ext y])
      fix z
      assume "(obid, i) \<in> {(o', lo_id x)}" and "z \<in> {x}" and "same_terms z y"
      then have id: "obid = o'" "i = Suc (last_order_id book)" and t: "same_terms x y" by (auto simp: x)
      have "orders_in p obid i = None" using pallet_inv_known [OF inv, of obid i] book by (force simp: id)
      then show ?thesis using same_termsD(1-3) [OF t] c who by (auto simp: x id)
    qed (auto simp: part_of_def same_terms_def)
  qed
qed

theorem orders_keep_terms_witness:
  "orders_in demo_placed demo_book 1 = Some demo_order \<and> ensure_signed demo_runtime (Some 2) = Inr (lo_owner demo_order)"
  using orders_keep_terms [OF demo_created_reachable demo_chain_ok insertI1 demo_sell_run [unfolded demo_sell_def]
      demo_sell_premises(1,2) demo_placed_orders] demo_placed_orders
  by (auto simp: demo_created_empty)

section \<open>Creating and deleting books\<close>

text \<open>
  C21: Creating a book succeeds only if there is none for the pair. It adds a book that trades, with the given
  attributes and no order identifier used, changes no order and no balance, and lists the order book as a
  liquidity source of the pair unless this kind of source is locked.
\<close>

theorem create_exact:
  assumes "dispatch rt origin (CreateOrderbook obid tick step lot_min lot_max) p = (Inr u, p')"
  shows "map_of (OrderBooks p) obid = None \<and>
    map_of (OrderBooks p') = (map_of (OrderBooks p))(obid \<mapsto>
      \<lparr> book_id = obid, book_status = Trade, last_order_id = 0, tick_size = divisible tick,
        step_lot_size = volume_for (Registry p) obid step, min_lot_size = volume_for (Registry p) obid lot_min,
        max_lot_size = volume_for (Registry p) obid lot_max, tech_status = Ready \<rparr>) \<and>
    Books p' = Books p \<and> balance_of (chain_of rt) (World p') = balance_of (chain_of rt) (World p) \<and>
    is_source_enabled_for_trading_pair (Registry p') (ob_dex obid) (ob_quote obid) (ob_base obid) OrderBookSource =
      Inr (OrderBookSource \<notin> set (LockedLiquiditySources (Registry p)))"
  using create_effect [OF assms] by (auto simp: new_book_def order_book_new_def volume_for_def)

theorem create_exact_witness:
  "map_of (OrderBooks demo_created) demo_book \<noteq> None \<and> Books demo_created = Books demo_pallet"
  using create_exact [OF demo_create_run [unfolded demo_create_def]] by simp

text \<open>
  C22: Deleting a book succeeds only if it has no open orders. It removes just this book, keeps every order and
  every balance, and the order book is no longer a liquidity source of the pair.
\<close>

theorem delete_exact:
  assumes "dispatch rt origin (DeleteOrderbook obid) p = (Inr u, p')"
  shows "orders_in p obid = Map.empty \<and> map_of (OrderBooks p') = (map_of (OrderBooks p))(obid := None) \<and>
    Books p' = Books p \<and> balance_of (chain_of rt) (World p') = balance_of (chain_of rt) (World p) \<and>
    is_source_enabled_for_trading_pair (Registry p') (ob_dex obid) (ob_quote obid) (ob_base obid) OrderBookSource = Inr False"
  using delete_effect [OF assms] by blast

theorem delete_exact_witness:
  "\<exists>p p'. dispatch demo_runtime None (DeleteOrderbook demo_book) p = (Inr (), p') \<and> map_of (OrderBooks p') demo_book = None"
proof -
  obtain p p' where run: "dispatch demo_runtime None (DeleteOrderbook demo_book) p = (Inr (), p')" by (rule cursor_states)
  with delete_exact [OF run] show ?thesis by fastforce
qed

section \<open>Expiration and alignment\<close>


lemma demo_in_block: "in_block {demo_runtime} demo_meter demo_scheduling demo_chain demo_account 1 demo_placed"
proof -
  have rts: "{rt \<in> {demo_runtime}. block_number rt = 1} = {demo_runtime}" by (auto simp: demo_runtime_def)
  have one: "(1::nat) < u32_max" by (simp add: u32_max_def)
  have "in_block {demo_runtime} demo_meter demo_scheduling demo_chain demo_account 1 demo_pallet"
    by (rule launch) (simp_all add: genesis_def demo_pallet_def demo_world_def)
  then have "in_block {demo_runtime} demo_meter demo_scheduling demo_chain demo_account 1 demo_created"
    by (rule same_block [OF _ one], unfold rts)
      (rule call_step [OF insertI1 demo_root _ demo_create_run], simp add: demo_create_def)
  then show ?thesis
    by (rule same_block [OF _ one], unfold rts)
      (rule call_step [OF insertI1 demo_signer _ demo_sell_run], simp_all add: demo_sell_def u128_max_def created_limits)
qed


text \<open>
  C23: The number of iterations given to the loop of the expiration pass is enough: with more of them it ends
  in the same state, so the loop is the \<open>while\<close> loop of the code.
\<close>

theorem expiration_fuel_enough:
  assumes "current < u32_max"
  shows "expiration_loop env dl mt sch books current (Suc current - from_block + n) incomplete from_block s =
    expiration_loop env dl mt sch books current (Suc current - from_block) incomplete from_block s"
  by (rule expiration_fuel [OF assms])

theorem expiration_fuel_enough_witness:
  "expiration_loop demo_chain (cache_data_layer runtime_config) demo_meter demo_scheduling (OrderBooks frozen_placed) 12
     (Suc 12 - 11 + 5) 13 11 (frozen_meter, ((cl_new, Books frozen_placed), World frozen_placed)) =
   expiration_loop demo_chain (cache_data_layer runtime_config) demo_meter demo_scheduling (OrderBooks frozen_placed) 12
     (Suc 12 - 11) 13 11 (frozen_meter, ((cl_new, Books frozen_placed), World frozen_placed))"
  by (rule expiration_fuel_enough) (simp add: u32_max_def)

text \<open>
  C20: The batches of an alignment enumerate the orders of a book without a gap and without a repetition: the
  batch that starts behind the last order of a batch continues it.
\<close>

theorem batches_continue:
  assumes "reachable rts mt sch env acct p" and "chain_ok rts env acct" and inj: "inj (trie_position sch' obid)"
    and batch: "get_limit_orders sch' (Books p) obid cursor n = batch" "batch \<noteq> []"
  shows "get_limit_orders sch' (Books p) obid cursor (n + k) =
    batch @ get_limit_orders sch' (Books p) obid (Some (lo_id (last batch))) k"
proof -
  obtain E where inv: "pallet_inv env acct E p" using reachable_inv [OF assms(1,2)] ..
  then have ok: "distinct (map fst (LimitOrders (Books p)))"
    and binv: "book_inv (chain_config env) (divisible_base (Registry p) obid) obid (storage_view (Books p))"
    by (simp_all add: pallet_inv_def safe_def consistent_def view_inv_def storage_ok_def)
  have "lo_id x = i \<and> i \<noteq> 0" if "map_of (LimitOrders (Books p)) (obid, i) = Some x" for i x
  proof -
    have x: "orders_in p obid i = Some x" using that by (simp add: storage_view_def)
    then show ?thesis using binv pallet_inv_known [OF inv, of obid i] by (auto simp: book_inv_def)
  qed
  from get_limit_orders_append [OF ok inj this batch] show ?thesis .
qed

theorem batches_continue_witness:
  "get_limit_orders demo_scheduling (Books demo_both) demo_book (Some 0) 2 = [demo_order, demo_bid]"
proof -
  have "inj (trie_position demo_scheduling demo_book)" by (simp add: demo_scheduling_def)
  from batches_continue [OF demo_both_reachable demo_chain_ok this demo_both_batches(1), of 1] demo_both_batches(2)
  show ?thesis by (simp add: demo_order_def numeral_2_eq_2)
qed

text \<open>
  C19: Aligning a batch of orders rounds the amount of every order of the batch down to a multiple of the step,
  removes the order when nothing is left, and touches no other order of the book.
\<close>

theorem align_rounds_down:
  assumes "reachable rts mt sch env acct p" and "chain_ok rts env acct"
    and book: "map_of (OrderBooks p) obid = Some book" and batch: "batch = get_limit_orders sch' (Books p) obid cursor n"
    and run: "align_limit_orders env (cache_data_layer (chain_config env)) book batch ((cl_new, Books p), World p) = (Inr u, (d, w))"
  shows "v_orders (storage_view (snd (cl_commit d))) obid i = (case orders_in p obid i of None \<Rightarrow> None
    | Some x \<Rightarrow>
        if x \<in> set batch
        then (let a = inner (lo_amount x) div inner (step_lot_size book) * inner (step_lot_size book)
              in if a = 0 then None else Some (x \<lparr> lo_amount := BalanceUnit a (is_divisible (lo_amount x)) \<rparr>))
        else Some x)"
proof -
  from assms(2) have env: "env_ok env acct" by (simp add: chain_ok_def)
  obtain E where inv: "pallet_inv env acct E p" using reachable_inv [OF assms(1,2)] ..
  note eff = align_batch [OF inv env book batch run]
  show ?thesis unfolding eff(2) eff(1) [of i] aligned_to_def ..
qed

theorem align_rounds_down_witness:
  "\<exists>d. v_orders (storage_view (snd (cl_commit d))) demo_book 1 =
     Some (twin_order \<lparr> lo_amount := divisible (5000 * 10 ^ 15) \<rparr>)"
proof -
  obtain p m p' where p: "demo_reachable p" and t: "twin_aligns p" by (rule twin_states)
  from t obtain book where book: "map_of (OrderBooks p) demo_book = Some book" and step: "inner (step_lot_size book) = 2 * 10 ^ 15"
    and x: "orders_in p demo_book 1 = Some twin_order"
    and batch: "[twin_order] = get_limit_orders demo_scheduling (Books p) demo_book (Some 0) 1"
    and ok: "\<not> isl (fst (align_limit_orders demo_chain (cache_data_layer runtime_config) book [twin_order] ((cl_new, Books p), World p)))"
    by (auto simp: twin_aligns_def split: option.splits)
  obtain r d w where run: "align_limit_orders demo_chain (cache_data_layer runtime_config) book [twin_order] ((cl_new, Books p), World p) = (r, (d, w))"
    by (metis prod.collapse)
  then have "r = Inr ()" using ok not_isl_unit by simp
  from align_rounds_down [OF p demo_chain_ok book batch, of "()" d w 1] run this x
  have "v_orders (storage_view (snd (cl_commit d))) demo_book 1 = Some (twin_order \<lparr> lo_amount := divisible (5000 * 10 ^ 15) \<rparr>)"
    by (simp add: step demo_config twin_order_def Let_def divisible_def bu_new_def)
  then show ?thesis ..
qed

section \<open>When the scheduler fails\<close>

text \<open>
  C27: An open order that is not on the expiration agenda of its block, as an expiration that failed leaves it,
  cannot be cancelled by anyone.
\<close>

theorem unscheduled_order_stuck:
  assumes "reachable rts mt sch env acct p" and "chain_ok rts env acct" and "rt \<in> rts"
    and x: "orders_in p obid i = Some x" and off: "(obid, i) \<notin> set (ExpirationsAgenda (World p) (lo_expires_at x))"
  shows "\<exists>e. fst (dispatch rt origin (CancelLimitOrder obid i) p) = Inl e"
proof (rule ccontr)
  assume "\<not> ?thesis"
  then obtain u p' where run: "dispatch rt origin (CancelLimitOrder obid i) p = (Inr u, p')"
    by (cases "dispatch rt origin (CancelLimitOrder obid i) p"; cases "fst (dispatch rt origin (CancelLimitOrder obid i) p)") auto
  from assms(2,3) have env: "env_ok env acct" and rt: "chain_of rt = env" by (auto simp: chain_ok_def)
  obtain E where inv: "pallet_inv env acct E p" using reachable_inv [OF assms(1,2)] ..
  from pallet_inv_known [OF inv, of obid i] x obtain book where book: "map_of (OrderBooks p) obid = Some book" by auto
  from cancel_effect [OF inv env rt run] x have who: "ensure_signed rt origin = Inr (lo_owner x)" by auto
  from cancel_call_result [OF inv rt book x who] off run show False
    by (auto simp: and_then_def split: if_splits sum.splits)
qed

theorem unscheduled_order_stuck_witness:
  "orders_in frozen_expired frozen_book 1 = Some frozen_order \<and>
   (\<exists>e. fst (dispatch demo_runtime (Some 2) (CancelLimitOrder frozen_book 1) frozen_expired) = Inl e)"
proof -
  have "(frozen_book, 1) \<notin> set (ExpirationsAgenda (World frozen_expired) (lo_expires_at frozen_order))"
    using frozen_runs(4) by (simp add: frozen_order_def)
  from unscheduled_order_stuck [OF frozen_expired_reachable demo_chain_ok insertI1 frozen_runs(3) this] frozen_runs(3)
  show ?thesis by blast
qed


text \<open>
  C29: Deleting a book that waits for its alignment leaves its cursor behind. If the cursor comes first, every
  later alignment pass ends there: no book is aligned any more and nothing but the events changes.
\<close>

theorem deleted_book_blocks_alignment:
  assumes del: "dispatch rt origin (DeleteOrderbook obid) p = (Inr u, p')"
    and cursor: "AlignmentCursor p = (obid, c) # rest"
    and weight: "can_consume mt (align_single_order sch) m"
  shows "\<exists>es. service_alignment env mt sch m p' = (m, p' \<lparr> World := (World p') \<lparr> Events := es \<rparr> \<rparr>)"
proof -
  have "AlignmentCursor p' = (obid, c) # rest" "map_of (OrderBooks p') obid = None"
    using delete_effect(1,6) [OF del] cursor by simp_all
  then show ?thesis
    using weight by (auto simp: service_alignment_def on_snd_def deposit_event_def smodify_def)
qed

theorem deleted_book_blocks_alignment_witness:
  "\<exists>p' es. service_alignment demo_chain demo_meter demo_scheduling frozen_meter p' =
     (frozen_meter, p' \<lparr> World := (World p') \<lparr> Events := es \<rparr> \<rparr>) \<and> map_of (AlignmentCursor p') demo_book \<noteq> None"
proof -
  obtain p p' where cursor: "AlignmentCursor p = [(demo_book, 0)]"
    and run: "dispatch demo_runtime None (DeleteOrderbook demo_book) p = (Inr (), p')" by (rule cursor_states)
  have "can_consume demo_meter (align_single_order demo_scheduling) frozen_meter" by code_simp
  from deleted_book_blocks_alignment [OF run cursor this] delete_effect(6) [OF run] cursor show ?thesis by fastforce
qed

section \<open>Quotes in books of an indivisible asset\<close>

definition nft_quote_check :: "pallet \<Rightarrow> bool" where
  "nft_quote_check p \<longleftrightarrow> is_non_divisible (Registry p) (ob_base nft_book) \<and>
     (case map_of (OrderBooks p) nft_book of None \<Rightarrow> False
      | Some book \<Rightarrow>
          (case calculate_deal (cache_data_layer runtime_config) book 0 2 (WithDesiredInput (4 * 10 ^ 18)) (cl_new, Books p) of
             (Inl _, _) \<Rightarrow> False
           | (Inr deal, _) \<Rightarrow> deal_base_amount_of deal = divisible 1333333333333333333))"

lemma nft_quote_checks: "nft_quote_check nft_placed"
  by code_simp


end
